(* ===== verification/Prelude.thy ===== *)
theory Prelude
  imports Main "HOL-Library.AList" "HOL-Library.Multiset" "HOL-Library.Word"
begin

text \<open>
  The vocabulary the component theories share: the outcome of a piece of Go code that may
  panic or block, Go maps as association lists with an interface locale, the bag of values
  a map holds, and the collections of rewrite rules the component proofs use.
\<close>

section \<open>Rule collections\<close>

named_theorems go_map_simps \<open>what a lookup returns after an update of a Go map\<close>
named_theorems step_defs \<open>the operations of a component, to be unfolded in its one-step lemmas\<close>
named_theorems inv_intros \<open>preservation lemmas of component invariants\<close>

section \<open>Outcomes\<close>

text \<open>
  A Go statement ends normally, panics, or blocks for ever when no other goroutine helps.
  The panic carries what the runtime reports.
\<close>

datatype panic =
    NilDeref
  | IndexOutOfRange
  | SendOnClosed
  | CloseOfClosed
  | NilMapWrite
  | PanicMsg string

datatype 'a outcome = Ret 'a | Panic panic | Blocked

fun obind :: "'a outcome \<Rightarrow> ('a \<Rightarrow> 'b outcome) \<Rightarrow> 'b outcome" where
  "obind (Ret x) f = f x"
| "obind (Panic p) f = Panic p"
| "obind Blocked f = Blocked"

lemma obind_eq_Ret [simp]:
  "obind m f = Ret y \<longleftrightarrow> (\<exists>x. m = Ret x \<and> f x = Ret y)"
  by (cases m) auto

lemma obind_Panic: "obind m f = Panic p \<longleftrightarrow> m = Panic p \<or> (\<exists>x. m = Ret x \<and> f x = Panic p)"
  by (cases m) auto

lemma obind_assoc: "obind (obind m f) g = obind m (\<lambda>x. obind (f x) g)"
  by (cases m) auto

lemma obind_Ret [simp]: "obind m Ret = m"
  by (cases m) auto

section \<open>Go maps\<close>

text \<open>
  A Go map is an association list without duplicate keys.  Looking up, storing and deleting
  do not depend on the order of the list; \<^theory_text>\<open>for k, v := range m\<close> visits the entries in an
  order the language leaves open, so a definition whose effects depend on that order takes
  the order as a parameter (a permutation of the list).
\<close>

type_synonym ('k, 'v) gomap = "('k \<times> 'v) list"

abbreviation mget :: "('k, 'v) gomap \<Rightarrow> 'k \<Rightarrow> 'v option" where
  "mget m k \<equiv> map_of m k"

abbreviation mput :: "'k \<Rightarrow> 'v \<Rightarrow> ('k, 'v) gomap \<Rightarrow> ('k, 'v) gomap" where
  "mput k v m \<equiv> AList.update k v m"

abbreviation mdel :: "'k \<Rightarrow> ('k, 'v) gomap \<Rightarrow> ('k, 'v) gomap" where
  "mdel k m \<equiv> AList.delete k m"

abbreviation gomap_ok :: "('k, 'v) gomap \<Rightarrow> bool" where
  "gomap_ok m \<equiv> distinct (map fst m)"

text \<open>The interface every user of a Go map relies on.\<close>

locale go_map =
  fixes get :: "'m \<Rightarrow> 'k \<Rightarrow> 'v option"
    and put :: "'k \<Rightarrow> 'v \<Rightarrow> 'm \<Rightarrow> 'm"
    and del :: "'k \<Rightarrow> 'm \<Rightarrow> 'm"
    and items :: "'m \<Rightarrow> ('k \<times> 'v) list"
    and ok :: "'m \<Rightarrow> bool"
  assumes get_put: "get (put k v m) k' = (if k' = k then Some v else get m k')"
    and get_del: "get (del k m) k' = (if k' = k then None else get m k')"
    and get_items: "ok m \<Longrightarrow> get m k = Some v \<longleftrightarrow> (k, v) \<in> set (items m)"
    and items_distinct: "ok m \<Longrightarrow> distinct (map fst (items m))"
    and ok_put: "ok m \<Longrightarrow> ok (put k v m)"
    and ok_del: "ok m \<Longrightarrow> ok (del k m)"
begin

lemma get_put_same: "get (put k v m) k = Some v"
  by (simp add: get_put)

lemma put_overwrites: "get (put k v (put k w m)) k' = get (put k v m) k'"
  by (simp add: get_put)

lemma del_put: "get (del k (put k v m)) k' = get (del k m) k'"
  by (simp add: get_put get_del)

lemma mem_items_iff: "ok m \<Longrightarrow> k \<in> fst ` set (items m) \<longleftrightarrow> get m k \<noteq> None"
  using get_items by (force simp: image_iff)

lemma items_perm_get:
  assumes "ok m" and "mset xs = mset (items m)"
  shows "map_of xs k = get m k"
proof -
  have "distinct (map fst xs)"
    using assms items_distinct by (metis mset_eq_imp_distinct_iff mset_map)
  then have "map_of xs k = Some v \<longleftrightarrow> get m k = Some v" for v
    using assms get_items by (metis map_of_eq_Some_iff set_mset_mset)
  then show ?thesis
    by (metis option.exhaust)
qed

end

interpretation am: go_map mget mput mdel "\<lambda>m. m" gomap_ok
proof
  fix m :: "('a, 'b) gomap" and k k' :: 'a and v :: 'b
  show "mget (mput k v m) k' = (if k' = k then Some v else mget m k')"
    by (simp add: update_conv')
  show "mget (mdel k m) k' = (if k' = k then None else mget m k')"
    by (simp add: delete_conv')
  show "gomap_ok m \<Longrightarrow> mget m k = Some v \<longleftrightarrow> (k, v) \<in> set m"
    by simp
  show "gomap_ok m \<Longrightarrow> gomap_ok m"
    by simp
  show "gomap_ok m \<Longrightarrow> gomap_ok (mput k v m)"
    by (rule distinct_update)
  show "gomap_ok m \<Longrightarrow> gomap_ok (mdel k m)"
    by (rule distinct_delete)
qed

lemmas go_map_laws [go_map_simps] = am.get_put am.get_del
lemmas go_map_dom [go_map_simps] = dom_update delete_keys
lemmas go_map_ok [inv_intros] = am.ok_put am.ok_del

lemma mput_memD: "(a, b) \<in> set (mput k v m) \<Longrightarrow> b = v \<or> (a, b) \<in> set m"
  by (induction m) (auto split: if_splits)

lemma mdel_memD: "(a, b) \<in> set (mdel k m) \<Longrightarrow> (a, b) \<in> set m"
  by (induction m) (auto split: if_splits)

section \<open>The bag of values of a map\<close>

definition vals :: "('k, 'v) gomap \<Rightarrow> 'v multiset" where
  "vals m = image_mset snd (mset m)"

lemma vals_Nil [simp]: "vals [] = {#}"
  by (simp add: vals_def)

lemma vals_Cons [simp]: "vals (kv # m) = add_mset (snd kv) (vals m)"
  by (simp add: vals_def)

lemma size_vals [simp]: "size (vals m) = length m"
  by (simp add: vals_def)

lemma vals_mem: "mget m k = Some v \<Longrightarrow> v \<in># vals m"
  by (force simp: vals_def dest: map_of_SomeD)

lemma vals_put_new: "mget m k = None \<Longrightarrow> vals (mput k v m) = add_mset v (vals m)"
  by (induction m) (auto split: if_splits)

lemma vals_put_old:
  "mget m k = Some old \<Longrightarrow> vals (mput k v m) = add_mset v (vals m - {#old#})"
  by (induction m) (auto dest: vals_mem split: if_splits)

lemma mdel_absent: "mget m k = None \<Longrightarrow> mdel k m = m"
  by (induction m) (auto split: if_splits)

lemma vals_del:
  "gomap_ok m \<Longrightarrow> mget m k = Some old \<Longrightarrow> vals (mdel k m) = vals m - {#old#}"
proof (induction m)
  case (Cons kv m)
  show ?case
  proof (cases "fst kv = k")
    case True
    with Cons.prems have "mget m k = None"
      by (metis distinct.simps(2) list.simps(9) map_of_eq_None_iff set_map)
    with True Cons.prems show ?thesis by (simp add: mdel_absent)
  next
    case False
    with Cons.prems have "mget m k = Some old" by simp
    then obtain B where "vals m = add_mset old B"
      by (blast dest: vals_mem multi_member_split)
    with False Cons \<open>mget m k = Some old\<close> show ?thesis by simp
  qed
qed simp

lemma vals_count_pos:
  "gomap_ok m \<Longrightarrow> v \<in># vals m \<longleftrightarrow> (\<exists>k. mget m k = Some v)"
  by (force simp: vals_def)

end
