(* ===== verification/Connectivity.thy ===== *)
theory Connectivity
  imports Prelude
begin

text \<open>
  The connectivity recorder of \<^verbatim>\<open>grpclient/balancer/connectivity/connectivity.go\<close>: three
  \<^verbatim>\<open>uint64\<close> counters and the aggregated state.  The states are those of gRPC's
  \<^verbatim>\<open>connectivity\<close> package, whose zero value is \<open>Idle\<close>.  The interface \<^verbatim>\<open>Recorder\<close> is a
  locale over the bag of states the balancer tracks; the struct \<^verbatim>\<open>recorder\<close> interprets it.
\<close>

section \<open>The recorder\<close>

datatype State = Idle | Connecting | Ready | TransientFailure | Shutdown

record recorder =
  rc_cur :: State
  numReady :: "64 word"
  numConnecting :: "64 word"
  numTransientFailure :: "64 word"

definition NewRecorder :: recorder where
  "NewRecorder = \<lparr>rc_cur = Idle, numReady = 0, numConnecting = 0, numTransientFailure = 0\<rparr>"

definition GetCurrentState :: "recorder \<Rightarrow> State" where
  "GetCurrentState rc = rc_cur rc"

text \<open>\<^verbatim>\<open>2*uint64(idx) - 1\<close>: at index 0 the subtraction wraps to the largest word.\<close>

definition updateVal :: "nat \<Rightarrow> 64 word" where
  "updateVal idx = 2 * of_nat idx - 1"

fun count_state :: "recorder \<Rightarrow> nat \<times> State \<Rightarrow> recorder" where
  "count_state rc (idx, Ready) = rc\<lparr>numReady := numReady rc + updateVal idx\<rparr>"
| "count_state rc (idx, Connecting) = rc\<lparr>numConnecting := numConnecting rc + updateVal idx\<rparr>"
| "count_state rc (idx, TransientFailure) =
     rc\<lparr>numTransientFailure := numTransientFailure rc + updateVal idx\<rparr>"
| "count_state rc (idx, _) = rc"

definition RecordTransition :: "recorder \<Rightarrow> State \<Rightarrow> State \<Rightarrow> recorder" where
  "RecordTransition rc oldState newState =
     (let rc = foldl count_state rc (enumerate 0 [oldState, newState])
      in rc\<lparr>rc_cur := (if 0 < numReady rc then Ready
                       else if 0 < numConnecting rc then Connecting
                       else TransientFailure)\<rparr>)"

lemma updateVal_old [simp]: "updateVal 0 = -1"
  by (simp add: updateVal_def)

lemma updateVal_new [simp]: "updateVal (Suc 0) = 1"
  by (simp add: updateVal_def)

section \<open>What the counters stand for\<close>

text \<open>
  The specification: a bag of the states of all tracked sub-connections, and the state the
  documentation comment of \<^verbatim>\<open>RecordTransition\<close> promises for it.
\<close>

definition aggregate :: "State multiset \<Rightarrow> State" where
  "aggregate M = (if Ready \<in># M then Ready
                  else if Connecting \<in># M then Connecting
                  else TransientFailure)"

definition counts :: "State multiset \<Rightarrow> recorder \<Rightarrow> bool" where
  "counts M rc \<longleftrightarrow>
     numReady rc = of_nat (count M Ready) \<and>
     numConnecting rc = of_nat (count M Connecting) \<and>
     numTransientFailure rc = of_nat (count M TransientFailure)"

definition uncounted :: "State \<Rightarrow> bool" where
  "uncounted s \<longleftrightarrow> s = Idle \<or> s = Shutdown"

lemma word_of_nat_pos_iff:
  assumes "n < 2 ^ 64"
  shows "(0 :: 64 word) < of_nat n \<longleftrightarrow> 0 < n"
proof -
  have "unat (of_nat n :: 64 word) = n"
    using assms by (simp add: unat_of_nat take_bit_nat_eq_self)
  then show ?thesis
    by (metis unat_gt_0 unat_0 word_gt_0)
qed

lemma aggregate_uncounted [simp]:
  "uncounted s \<Longrightarrow> aggregate (add_mset s M) = aggregate M"
  by (auto simp: aggregate_def uncounted_def)

lemma count_le_bound: "size (M :: State multiset) < 2 ^ 64 \<Longrightarrow> count M s < 2 ^ 64"
  by (rule le_less_trans [OF count_le_size])

lemma count_state_counts:
  "counts M rc \<Longrightarrow> counts (add_mset s M) (count_state rc (Suc 0, s))"
  by (cases s) (auto simp: counts_def)

lemma count_state_uncounts:
  "counts M rc \<Longrightarrow> s \<in># M \<Longrightarrow> counts (M - {#s#}) (count_state rc (0, s))"
  by (cases s) (auto simp: counts_def Suc_le_eq)

lemma RecordTransition_counts:
  assumes "counts M rc" and "old \<in># M"
  shows "counts (add_mset new (M - {#old#})) (RecordTransition rc old new)"
proof -
  have "counts (add_mset new (M - {#old#}))
          (count_state (count_state rc (0, old)) (Suc 0, new))"
    by (intro count_state_counts count_state_uncounts assms)
  then show ?thesis
    by (simp add: RecordTransition_def Let_def counts_def)
qed

lemma RecordTransition_cur:
  assumes "counts M rc" and "old \<in># M" and "size M < 2 ^ 64"
  shows "rc_cur (RecordTransition rc old new) = aggregate (add_mset new (M - {#old#}))"
proof -
  let ?N = "add_mset new (M - {#old#})" and ?rc = "RecordTransition rc old new"
  have "size ?N < 2 ^ 64"
    using assms(2,3) by (simp add: size_Diff_singleton)
  then have pos: "0 < (of_nat (count ?N s) :: 64 word) \<longleftrightarrow> s \<in># ?N" for s
    by (metis count_greater_zero_iff count_le_bound word_of_nat_pos_iff)
  have "counts ?N ?rc"
    using assms(1,2) by (rule RecordTransition_counts)
  then have "numReady ?rc = of_nat (count ?N Ready)"
    and "numConnecting ?rc = of_nat (count ?N Connecting)"
    by (auto simp: counts_def)
  moreover have "rc_cur ?rc = (if 0 < numReady ?rc then Ready
      else if 0 < numConnecting ?rc then Connecting else TransientFailure)"
    by (simp add: RecordTransition_def Let_def)
  ultimately show ?thesis
    unfolding aggregate_def pos [symmetric] by presburger
qed

section \<open>The interface Recorder\<close>

locale Recorder =
  fixes current :: "'r \<Rightarrow> State"
    and record_tr :: "'r \<Rightarrow> State \<Rightarrow> State \<Rightarrow> 'r"
    and tracks :: "State multiset \<Rightarrow> 'r \<Rightarrow> bool"
  assumes tracks_record: "tracks M r \<Longrightarrow> old \<in># M \<Longrightarrow>
      tracks (add_mset new (M - {#old#})) (record_tr r old new)"
    and current_record: "tracks M r \<Longrightarrow> old \<in># M \<Longrightarrow> size M < 2 ^ 64 \<Longrightarrow>
      current (record_tr r old new) = aggregate (add_mset new (M - {#old#}))"
    and tracks_uncounted: "uncounted s \<Longrightarrow> tracks (add_mset s M) r \<longleftrightarrow> tracks M r"
begin

text \<open>A sub-connection that is shut down leaves the bag after its last transition.\<close>

lemma tracks_shutdown:
  assumes "tracks M r" and "old \<in># M"
  shows "tracks (M - {#old#}) (record_tr r old Shutdown)"
  using tracks_record [OF assms, of Shutdown] tracks_uncounted [of Shutdown]
  by (simp add: uncounted_def)

lemma current_shutdown:
  assumes "tracks M r" and "old \<in># M" and "size M < 2 ^ 64"
  shows "current (record_tr r old Shutdown) = aggregate (M - {#old#})"
  using current_record [OF assms, of Shutdown] by (simp add: uncounted_def)

text \<open>A map from sub-connections to their last reported state, with one report.\<close>

lemma tracks_put:
  assumes "tracks (vals m) r" and "mget m k = Some old"
  shows "tracks (vals (mput k s m)) (record_tr r old s)"
  using tracks_record [OF assms(1) vals_mem [OF assms(2)]] vals_put_old [OF assms(2)]
  by simp

lemma current_put:
  assumes "tracks (vals m) r" and "mget m k = Some old" and "length m < 2 ^ 64"
  shows "current (record_tr r old s) = aggregate (vals (mput k s m))"
  using current_record [OF assms(1) vals_mem [OF assms(2)]] vals_put_old [OF assms(2)] assms(3)
  by simp

lemma tracks_new:
  assumes "tracks (vals m) r" and "mget m k = None"
  shows "tracks (vals (mput k Idle m)) r"
  using assms by (simp add: vals_put_new tracks_uncounted uncounted_def)

lemma tracks_del:
  assumes "tracks (vals m) r" and "mget m k = Some old" and "gomap_ok m"
  shows "tracks (vals (mdel k m)) (record_tr r old Shutdown)"
  using tracks_shutdown [OF assms(1) vals_mem [OF assms(2)]] vals_del [OF assms(3,2)]
  by simp

lemma current_del:
  assumes "tracks (vals m) r" and "mget m k = Some old" and "gomap_ok m" and "length m < 2 ^ 64"
  shows "current (record_tr r old Shutdown) = aggregate (vals (mdel k m))"
  using current_shutdown [OF assms(1) vals_mem [OF assms(2)]] vals_del [OF assms(3,2)] assms(4)
  by simp

end

interpretation rec: Recorder GetCurrentState RecordTransition counts
proof
  show "counts M r \<Longrightarrow> old \<in># M \<Longrightarrow>
      counts (add_mset new (M - {#old#})) (RecordTransition r old new)" for M r old new
    by (rule RecordTransition_counts)
  show "counts M r \<Longrightarrow> old \<in># M \<Longrightarrow> size M < 2 ^ 64 \<Longrightarrow>
      GetCurrentState (RecordTransition r old new) = aggregate (add_mset new (M - {#old#}))"
    for M r old new
    by (simp add: GetCurrentState_def RecordTransition_cur)
  show "uncounted s \<Longrightarrow> counts (add_mset s M) r \<longleftrightarrow> counts M r" for s M r
    by (auto simp: uncounted_def counts_def)
qed

section \<open>Histories\<close>

text \<open>
  A whole history of reports: every sub-connection starts untracked at \<open>Idle\<close>, reports
  name the state the recorder last saw for it, as the balancer's \<^verbatim>\<open>scToSt\<close> does.
\<close>

fun record_all :: "recorder \<Rightarrow> ('sc \<Rightarrow> State) \<Rightarrow> ('sc \<times> State) list \<Rightarrow> recorder \<times> ('sc \<Rightarrow> State)" where
  "record_all rc seen [] = (rc, seen)"
| "record_all rc seen ((sc, s) # evs) =
     record_all (RecordTransition rc (seen sc) s) (seen(sc := s)) evs"

lemma NewRecorder_counts: "(\<forall>s \<in># M. uncounted s) \<Longrightarrow> counts M NewRecorder"
  by (auto simp: counts_def NewRecorder_def uncounted_def not_in_iff)

lemma record_all_append:
  "record_all rc seen (xs @ ys) = (case record_all rc seen xs of (rc', seen') \<Rightarrow> record_all rc' seen' ys)"
  by (induction xs arbitrary: rc seen) auto

lemma image_mset_upd:
  assumes "finite A" and "sc \<in> A"
  shows "image_mset (f(sc := s)) (mset_set A) = add_mset s (image_mset f (mset_set A) - {#f sc#})"
proof -
  have "mset_set A = add_mset sc (mset_set (A - {sc}))"
    by (rule mset_set.remove [OF assms])
  then show ?thesis
    using assms(1) by (auto intro: image_mset_cong)
qed

lemma record_all_counts:
  assumes "finite A" and "fst ` set evs \<subseteq> A"
    and "counts (image_mset seen (mset_set A)) rc" and "record_all rc seen evs = (rc', seen')"
  shows "counts (image_mset seen' (mset_set A)) rc'"
  using assms(2-)
proof (induction evs arbitrary: rc seen)
  case (Cons ev evs)
  obtain sc s where ev: "ev = (sc, s)" by (cases ev)
  with Cons.prems(1) have "sc \<in> A" by auto
  then have "image_mset (seen(sc := s)) (mset_set A) =
      add_mset s (image_mset seen (mset_set A) - {#seen sc#})"
    by (rule image_mset_upd [OF assms(1)])
  moreover have "seen sc \<in># image_mset seen (mset_set A)"
    using \<open>sc \<in> A\<close> assms(1) by simp
  ultimately have "counts (image_mset (seen(sc := s)) (mset_set A))
      (RecordTransition rc (seen sc) s)"
    using Cons.prems(2) by (simp add: RecordTransition_counts)
  with Cons.IH Cons.prems(1,3) ev show ?case by simp
qed simp

section \<open>Properties\<close>

text \<open>
  C12 (refinement).  After any history of transitions of finitely many sub-connections that
  all start Idle, the recorder's state is the one its documentation promises for the
  states they are in: Ready if one is Ready, else Connecting if one is Connecting, else
  TransientFailure.  The counters wrap at 64 bits and are still exact.
\<close>

theorem recorder_aggregates:
  assumes "finite A" and "card A < 2 ^ 64" and "fst ` set evs \<subseteq> A" and "evs \<noteq> []"
    and "record_all NewRecorder (\<lambda>_. Idle) evs = (rc, seen)"
  shows "GetCurrentState rc =
    (if \<exists>sc \<in> A. seen sc = Ready then Ready
     else if \<exists>sc \<in> A. seen sc = Connecting then Connecting else TransientFailure)"
proof -
  obtain evs' sc s where evs: "evs = evs' @ [(sc, s)]"
    using assms(4) by (metis rev_exhaust surj_pair)
  obtain rc1 seen1 where one: "record_all NewRecorder (\<lambda>_. Idle) evs' = (rc1, seen1)"
    by fastforce
  let ?M = "\<lambda>f. image_mset f (mset_set A)"
  have cnt: "counts (?M seen1) rc1"
  proof (rule record_all_counts [OF assms(1) _ _ one])
    show "fst ` set evs' \<subseteq> A" using assms(3) evs by auto
    show "counts (?M (\<lambda>_. Idle)) NewRecorder"
      using assms(1) by (intro NewRecorder_counts) (auto simp: uncounted_def)
  qed
  have sc: "sc \<in> A" using assms(3) evs by auto
  have last: "rc = RecordTransition rc1 (seen1 sc) s" "seen = seen1(sc := s)"
    using assms(5) one by (auto simp: evs record_all_append)
  have "seen1 sc \<in># ?M seen1" "size (?M seen1) < 2 ^ 64"
    using sc assms(1,2) by simp_all
  then have "GetCurrentState rc = aggregate (add_mset s (?M seen1 - {#seen1 sc#}))"
    unfolding last(1) GetCurrentState_def by (rule RecordTransition_cur [OF cnt])
  also have "\<dots> = aggregate (?M seen)"
    unfolding last(2) image_mset_upd [OF assms(1) sc] ..
  finally have "GetCurrentState rc = aggregate (?M seen)" .
  moreover have "t \<in># ?M seen \<longleftrightarrow> (\<exists>sc \<in> A. seen sc = t)" for t
    using assms(1) by force
  ultimately show ?thesis
    by (simp only: aggregate_def)
qed

theorem recorder_aggregates_witness:
  "GetCurrentState (fst (record_all NewRecorder (\<lambda>_. Idle)
     [(0 :: nat, Connecting), (1, Connecting), (0, Ready), (0, TransientFailure)])) = Connecting"
proof -
  let ?evs = "[(0 :: nat, Connecting), (1, Connecting), (0, Ready), (0, TransientFailure)]"
  obtain rc seen where run: "record_all NewRecorder (\<lambda>_. Idle) ?evs = (rc, seen)"
    by fastforce
  then have "seen 0 = TransientFailure" "seen 1 = Connecting" by auto
  moreover have "fst ` set ?evs \<subseteq> {0, 1}" "card {0, 1 :: nat} < 2 ^ 64" by auto
  ultimately show ?thesis
    using recorder_aggregates [of "{0, 1}" ?evs rc seen] run by auto
qed

text \<open>
  The decrement is a 64-bit wrap-around: a report whose old state was never
  counted takes an empty counter to the largest value, after which the recorder claims to be
  Ready.  The recorder relies on its caller to name the state it last reported, which is
  what the balancer's \<^verbatim>\<open>scToSt\<close> is for.
\<close>

theorem recorder_underflow:
  "unat (numReady (RecordTransition NewRecorder Ready s)) = (if s = Ready then 0 else 2 ^ 64 - 1) \<and>
   GetCurrentState (RecordTransition NewRecorder Ready s) =
     (if s \<noteq> Ready then Ready else TransientFailure)"
proof -
  have "(0 :: 64 word) < -1" "unat (-1 :: 64 word) = 2 ^ 64 - 1"
    by (simp_all add: word_gt_0 unsigned_minus_1_eq_mask mask_eq_exp_minus_1)
  then show ?thesis
    by (cases s) (simp_all add: RecordTransition_def NewRecorder_def GetCurrentState_def)
qed

end
