(* ===== verification/Picker.thy ===== *)
theory Picker
  imports Prelude
begin

text \<open>
  The pickers of \<^verbatim>\<open>grpclient/balancer/picker\<close>: the policies, the error picker and the
  round-robin picker.  A sub-connection is a gRPC pointer, so it is named by a word, and the
  null pointer is 0.  The completion callback that \<^verbatim>\<open>Pick\<close> also returns has no effect
  (both of its branches are empty) and is left out of the result.
\<close>

section \<open>Policies\<close>

type_synonym SubConn = "64 word"

datatype AddressType = Backend | GRPCLB

text \<open>The two fields of gRPC's \<^verbatim>\<open>resolver.Address\<close> that the repository sets.\<close>

record Address =
  Addr :: string
  AType :: AddressType

text \<open>The two sentinel errors of gRPC's \<^verbatim>\<open>balancer\<close> package.\<close>

datatype pick_error = ErrNoSubConnAvailable | ErrTransientFailure

type_synonym Policy = "8 word"

definition Error :: Policy where "Error = 0"
definition RoundrobinBalanced :: Policy where "RoundrobinBalanced = 1"
definition Custom :: Policy where "Custom = 2"

lemmas policy_defs = Error_def RoundrobinBalanced_def Custom_def

text \<open>The last panic message also prints the number of the policy, which is left out.\<close>

definition Policy_String :: "Policy \<Rightarrow> string outcome" where
  "Policy_String p =
     (if p = Error then Ret ''picker-error''
      else if p = RoundrobinBalanced then Ret ''picker-roundrobin-balanced''
      else if p = Custom then Panic (PanicMsg ''custom picker policy is not supported yet'')
      else Panic (PanicMsg ''invalid balancer picker policy''))"

record PickerConfig =
  cfgPolicy :: Policy
  SubConnToResolverAddress :: "(SubConn, Address) gomap"

record rrBalanced =
  rb_p :: Policy
  rb_next :: nat
  rb_scs :: "SubConn list"
  rb_scToAddr :: "(SubConn, Address) gomap"

record errPicker =
  ep_p :: Policy
  ep_err :: pick_error

datatype Picker = ErrP errPicker | RRP rrBalanced

section \<open>Constructors\<close>

text \<open>
  \<open>ord\<close> is the order in which the runtime ranges over the map of sub-connections.
\<close>

definition newRoundrobinBalanced ::
    "((SubConn \<times> Address) list \<Rightarrow> (SubConn \<times> Address) list) \<Rightarrow> PickerConfig \<Rightarrow> Picker" where
  "newRoundrobinBalanced ord cfg =
     RRP \<lparr>rb_p = RoundrobinBalanced, rb_next = 0,
          rb_scs = foldl (\<lambda>scs (sc, _). scs @ [sc]) [] (ord (SubConnToResolverAddress cfg)),
          rb_scToAddr = SubConnToResolverAddress cfg\<rparr>"

definition NewPicker ::
    "((SubConn \<times> Address) list \<Rightarrow> (SubConn \<times> Address) list) \<Rightarrow> PickerConfig \<Rightarrow> Picker outcome" where
  "NewPicker ord cfg =
     (if cfgPolicy cfg = Error
        then Panic (PanicMsg ''error picker policy is not supported here; use picker.NewErr'')
      else if cfgPolicy cfg = RoundrobinBalanced then Ret (newRoundrobinBalanced ord cfg)
      else if cfgPolicy cfg = Custom
        then Panic (PanicMsg ''custom picker policy is not supported yet'')
      else Panic (PanicMsg ''invalid balancer picker policy''))"

definition NewErr :: "pick_error \<Rightarrow> Picker" where
  "NewErr err = ErrP \<lparr>ep_p = Error, ep_err = err\<rparr>"

fun Picker_String :: "Picker \<Rightarrow> string outcome" where
  "Picker_String (ErrP ep) = Policy_String (ep_p ep)"
| "Picker_String (RRP rb) = Policy_String (rb_p rb)"

section \<open>Pick\<close>

definition errPick :: "errPicker \<Rightarrow> pick_error + SubConn" where
  "errPick ep = Inl (ep_err ep)"

text \<open>
  The round-robin pick has two critical sections.  The first reads the length of \<^verbatim>\<open>scs\<close>,
  which no operation changes; the second takes the current element and advances.
\<close>

definition rrTake :: "rrBalanced \<Rightarrow> ((pick_error + SubConn) \<times> rrBalanced) outcome" where
  "rrTake rb =
     (let cur = rb_next rb
      in if cur < length (rb_scs rb)
         then Ret (Inr (rb_scs rb ! cur),
                   rb\<lparr>rb_next := (rb_next rb + 1) mod length (rb_scs rb)\<rparr>)
         else Panic IndexOutOfRange)"

definition rrPick :: "rrBalanced \<Rightarrow> ((pick_error + SubConn) \<times> rrBalanced) outcome" where
  "rrPick rb =
     (if length (rb_scs rb) = 0 then Ret (Inl ErrNoSubConnAvailable, rb) else rrTake rb)"

fun Pick :: "Picker \<Rightarrow> ((pick_error + SubConn) \<times> Picker) outcome" where
  "Pick (ErrP ep) = Ret (errPick ep, ErrP ep)"
| "Pick (RRP rb) = obind (rrPick rb) (\<lambda>(r, rb'). Ret (r, RRP rb'))"

text \<open>Successive picks, as the clients of one picker issue them, for any \<open>pick\<close>.\<close>

fun pick_many ::
    "('p \<Rightarrow> ((pick_error + SubConn) \<times> 'p) outcome) \<Rightarrow> nat \<Rightarrow> 'p \<Rightarrow>
      ((pick_error + SubConn) list \<times> 'p) outcome" where
  "pick_many pick 0 p = Ret ([], p)"
| "pick_many pick (Suc k) p =
     obind (pick p) (\<lambda>(r, p'). obind (pick_many pick k p') (\<lambda>(rs, p''). Ret (r # rs, p'')))"

section \<open>Invariant and contents\<close>

fun picker_ok :: "Picker \<Rightarrow> bool" where
  "picker_ok (ErrP ep) = True"
| "picker_ok (RRP rb) = (distinct (rb_scs rb) \<and> (rb_scs rb \<noteq> [] \<longrightarrow> rb_next rb < length (rb_scs rb)))"

fun picker_scs :: "Picker \<Rightarrow> SubConn list" where
  "picker_scs (ErrP ep) = []"
| "picker_scs (RRP rb) = rb_scs rb"

text \<open>The error a picker without sub-connections answers with.\<close>

fun picker_err :: "Picker \<Rightarrow> pick_error" where
  "picker_err (ErrP ep) = ep_err ep"
| "picker_err (RRP rb) = ErrNoSubConnAvailable"

lemma foldl_snoc_fst: "foldl (\<lambda>scs (sc, _). scs @ [sc]) acc xs = acc @ map fst xs"
  by (induction xs arbitrary: acc) auto

lemma newRoundrobin_scs [simp]:
  "picker_scs (newRoundrobinBalanced ord cfg) = map fst (ord (SubConnToResolverAddress cfg))"
  by (simp add: newRoundrobinBalanced_def foldl_snoc_fst)

lemma newRoundrobin_ok:
  assumes "gomap_ok (SubConnToResolverAddress cfg)" and "\<And>xs. mset (ord xs) = mset xs"
  shows "picker_ok (newRoundrobinBalanced ord cfg)"
proof -
  have "distinct (map fst (ord (SubConnToResolverAddress cfg)))"
    using assms by (metis mset_eq_imp_distinct_iff mset_map)
  then show ?thesis
    by (simp add: newRoundrobinBalanced_def foldl_snoc_fst)
qed

lemma newRoundrobin_err [simp]: "picker_err (newRoundrobinBalanced ord cfg) = ErrNoSubConnAvailable"
  by (simp add: newRoundrobinBalanced_def)

lemma NewErr_simps [simp]:
  "picker_scs (NewErr e) = []" "picker_err (NewErr e) = e" "picker_ok (NewErr e)"
  by (simp_all add: NewErr_def)


section \<open>The interface Picker\<close>

text \<open>
  What a caller of \<^verbatim>\<open>Pick\<close> may rely on: it never panics, it returns one of the picker's
  sub-connections when there is one and the picker's error otherwise, and it leaves the set
  of sub-connections alone.
\<close>

locale picker_iface =
  fixes pick :: "'p \<Rightarrow> ((pick_error + SubConn) \<times> 'p) outcome"
    and scs :: "'p \<Rightarrow> SubConn list"
    and err :: "'p \<Rightarrow> pick_error"
    and ok :: "'p \<Rightarrow> bool"
  assumes pick_returns: "ok p \<Longrightarrow> \<exists>r p'. pick p = Ret (r, p') \<and> ok p' \<and> scs p' = scs p \<and> err p' = err p"
    and pick_some: "ok p \<Longrightarrow> pick p = Ret (Inr sc, p') \<Longrightarrow> sc \<in> set (scs p)"
    and pick_err: "ok p \<Longrightarrow> pick p = Ret (Inl e, p') \<Longrightarrow> scs p = [] \<and> e = err p"
begin

lemma pick_cases:
  assumes "ok p"
  obtains (err) p' where "pick p = Ret (Inl (err p), p')" "scs p = []"
  | (sc) sc p' where "pick p = Ret (Inr sc, p')" "sc \<in> set (scs p)"
  using pick_returns [OF assms] pick_some [OF assms] pick_err [OF assms]
  by (metis sum.exhaust)

lemma pick_many_returns:
  "ok p \<Longrightarrow> \<exists>rs p'. pick_many pick k p = Ret (rs, p') \<and> length rs = k \<and> ok p' \<and>
      scs p' = scs p \<and> err p' = err p"
proof (induction k arbitrary: p)
  case (Suc k)
  obtain r p1 where "pick p = Ret (r, p1)" "ok p1" "scs p1 = scs p" "err p1 = err p"
    using pick_returns [OF Suc.prems] by blast
  with Suc.IH [of p1] show ?case by force
qed simp

end

text \<open>A picker that serves its sub-connections in turn.\<close>

locale rotating_picker = picker_iface +
  fixes pos :: "'p \<Rightarrow> nat"
  assumes pick_pos: "ok p \<Longrightarrow> scs p \<noteq> [] \<Longrightarrow>
      \<exists>p'. pick p = Ret (Inr (scs p ! (pos p mod length (scs p))), p') \<and>
        pos p' = (pos p + 1) mod length (scs p)"
begin

lemma pick_many_pos:
  assumes "ok p" and "scs p \<noteq> []"
  shows "\<exists>p'. pick_many pick k p =
      Ret (map (\<lambda>i. Inr (scs p ! ((pos p + i) mod length (scs p)))) [0..<k], p')"
  using assms
proof (induction k arbitrary: p)
  case (Suc k)
  let ?n = "length (scs p)"
  obtain p1 where p1: "pick p = Ret (Inr (scs p ! (pos p mod ?n)), p1)"
      "pos p1 = (pos p + 1) mod ?n"
    using pick_pos [OF Suc.prems] by blast
  with pick_returns [OF Suc.prems(1)] have "ok p1" "scs p1 = scs p" by auto
  moreover have "(pos p1 + i) mod ?n = (pos p + Suc i) mod ?n" for i
    using p1(2) by (simp add: mod_simps)
  moreover have "[0..<Suc k] = 0 # map Suc [0..<k]"
    by (metis map_Suc_upt upt_conv_Cons zero_less_Suc)
  ultimately show ?case
    using Suc.IH [of p1] Suc.prems(2) p1(1) by (auto simp: comp_def)
qed simp

end

lemma rrPick_returns:
  assumes "picker_ok (RRP rb)"
  shows "\<exists>r rb'. rrPick rb = Ret (r, rb') \<and> picker_ok (RRP rb') \<and> rb_scs rb' = rb_scs rb \<and>
     (case r of Inr sc \<Rightarrow> sc \<in> set (rb_scs rb) | Inl e \<Rightarrow> rb_scs rb = [] \<and> e = ErrNoSubConnAvailable)"
  using assms by (auto simp: rrPick_def rrTake_def Let_def)

interpretation err: picker_iface "\<lambda>ep. Ret (errPick ep, ep)" "\<lambda>_. []" ep_err "\<lambda>_. True"
  by unfold_locales (auto simp: errPick_def)

interpretation rr: rotating_picker rrPick rb_scs "\<lambda>_. ErrNoSubConnAvailable"
    "\<lambda>rb. picker_ok (RRP rb)" rb_next
proof
  fix rb rb' :: rrBalanced and sc e
  assume ok: "picker_ok (RRP rb)"
  note ret = rrPick_returns [OF ok]
  from ret show "\<exists>r rb'. rrPick rb = Ret (r, rb') \<and> picker_ok (RRP rb') \<and> rb_scs rb' = rb_scs rb \<and>
      ErrNoSubConnAvailable = ErrNoSubConnAvailable" by blast
  from ret show "rrPick rb = Ret (Inr sc, rb') \<Longrightarrow> sc \<in> set (rb_scs rb)" by auto
  from ret show "rrPick rb = Ret (Inl e, rb') \<Longrightarrow> rb_scs rb = [] \<and> e = ErrNoSubConnAvailable"
    by auto
  from ok show "rb_scs rb \<noteq> [] \<Longrightarrow> \<exists>rb'. rrPick rb =
      Ret (Inr (rb_scs rb ! (rb_next rb mod length (rb_scs rb))), rb') \<and>
      rb_next rb' = (rb_next rb + 1) mod length (rb_scs rb)"
    by (simp add: rrPick_def rrTake_def Let_def)
qed

interpretation pk: picker_iface Pick picker_scs picker_err picker_ok
proof
  fix p p' :: Picker and sc e
  assume ok: "picker_ok p"
  show "\<exists>r p'. Pick p = Ret (r, p') \<and> picker_ok p' \<and> picker_scs p' = picker_scs p \<and>
      picker_err p' = picker_err p"
  proof (cases p)
    case (ErrP ep)
    then show ?thesis by simp
  next
    case (RRP rb)
    with ok have "picker_ok (RRP rb)" by simp
    from rrPick_returns [OF this] obtain r rb' where
      "rrPick rb = Ret (r, rb')" "picker_ok (RRP rb')" "rb_scs rb' = rb_scs rb" by blast
    with RRP show ?thesis by simp
  qed
  show "Pick p = Ret (Inr sc, p') \<Longrightarrow> sc \<in> set (picker_scs p)"
    using ok rr.pick_some [of "case p of RRP rb \<Rightarrow> rb" sc]
    by (cases p) (auto simp: errPick_def)
  show "Pick p = Ret (Inl e, p') \<Longrightarrow> picker_scs p = [] \<and> e = picker_err p"
    using ok rr.pick_err [of "case p of RRP rb \<Rightarrow> rb" e]
    by (cases p) (auto simp: errPick_def)
qed

section \<open>Round robin is balanced\<close>

lemma count_list_distinct: "distinct xs \<Longrightarrow> count_list xs x = (if x \<in> set xs then 1 else 0)"
  by (induction xs) auto

lemma rotate_window:
  "k \<le> length xs \<Longrightarrow> map (\<lambda>i. xs ! ((p + i) mod length xs)) [0..<k] = take k (rotate p xs)"
  by (rule nth_equalityI) (auto simp: nth_rotate)

lemma periodic_upt:
  assumes "\<And>i. f (n + i) = f i"
  shows "map f [0..<q * n + r] = concat (replicate q (map f [0..<n])) @ map f [0..<r]"
proof (induction q)
  case (Suc q)
  have "[0..<Suc q * n + r] = [0..<n] @ map (\<lambda>i. i + n) [0..<q * n + r]"
    using upt_add_eq_append [of 0 n "q * n + r"] map_add_upt [of n "q * n + r"]
    by (simp add: ac_simps)
  then have "map f [0..<Suc q * n + r] = map f [0..<n] @ map f [0..<q * n + r]"
    using assms by (simp add: comp_def add.commute)
  with Suc show ?case by simp
qed simp

lemma count_list_concat_replicate [simp]:
  "count_list (concat (replicate q xs)) x = q * count_list xs x"
  by (induction q) (auto simp: count_list_append)

lemma rotation_counts:
  assumes "distinct xs" and "x \<in> set xs"
  shows "count_list (map (\<lambda>i. xs ! ((p + i) mod length xs)) [0..<k]) x \<in>
      {k div length xs, Suc (k div length xs)}"
proof -
  let ?n = "length xs" and ?f = "\<lambda>i. xs ! ((p + i) mod length xs)"
  have per: "?f (?n + i) = ?f i" for i
    by (metis add.left_commute mod_add_self1)
  have n: "0 < ?n" using assms(2) by auto
  have full: "count_list (map ?f [0..<?n]) x = 1"
    using assms by (simp add: rotate_window count_list_distinct)
  have "count_list (map ?f [0..<k mod ?n]) x \<le> 1"
    using assms(1) n by (simp add: rotate_window less_imp_le count_list_distinct)
  moreover have "map ?f [0..<k] =
      concat (replicate (k div ?n) (map ?f [0..<?n])) @ map ?f [0..<k mod ?n]"
    using periodic_upt [of ?f ?n "k div ?n" "k mod ?n", OF per] by simp
  ultimately show ?thesis
    using full by (auto simp: count_list_append)
qed

lemma rotation_counts_exact:
  assumes "distinct xs" and "x \<in> set xs" and "length xs dvd k"
  shows "count_list (map (\<lambda>i. xs ! ((p + i) mod length xs)) [0..<k]) x = k div length xs"
proof -
  let ?n = "length xs" and ?f = "\<lambda>i. xs ! ((p + i) mod length xs)"
  have per: "?f (?n + i) = ?f i" for i
    by (metis add.left_commute mod_add_self1)
  have "count_list (map ?f [0..<?n]) x = 1"
    using assms(1,2) by (simp add: rotate_window count_list_distinct)
  moreover have "map ?f [0..<k] = concat (replicate (k div ?n) (map ?f [0..<?n]))"
    using periodic_upt [of ?f ?n "k div ?n" 0, OF per] assms(3) by simp
  ultimately show ?thesis by simp
qed

text \<open>
  C34 (functional).  Any number of picks on a round-robin picker with sub-connections
  succeeds, and the load is balanced: after \<open>k\<close> picks over \<open>n\<close> sub-connections each of them
  was returned \<open>k div n\<close> times or once more, so exactly \<open>k div n\<close> times when \<open>n\<close> divides \<open>k\<close>.
\<close>

theorem round_robin_balanced:
  assumes "picker_ok (RRP rb)" and "rb_scs rb \<noteq> []"
  shows "\<exists>ss rb'. pick_many rrPick k rb = Ret (map Inr ss, rb') \<and> length ss = k \<and>
    set ss \<subseteq> set (rb_scs rb) \<and>
    (\<forall>sc \<in> set (rb_scs rb). count_list ss sc \<in>
       {k div length (rb_scs rb), Suc (k div length (rb_scs rb))}) \<and>
    (length (rb_scs rb) dvd k \<longrightarrow>
       (\<forall>sc \<in> set (rb_scs rb). count_list ss sc = k div length (rb_scs rb)))"
proof -
  let ?f = "\<lambda>i. rb_scs rb ! ((rb_next rb + i) mod length (rb_scs rb))"
  obtain rb' where ret: "pick_many rrPick k rb = Ret (map (\<lambda>i. Inr (?f i)) [0..<k], rb')"
    using rr.pick_many_pos [OF assms] by blast
  have "distinct (rb_scs rb)" using assms(1) by simp
  note cnt = rotation_counts [OF this] rotation_counts_exact [OF this]
  show ?thesis
    using ret cnt assms(2)
    by (intro exI [of _ "map ?f [0..<k]"] exI [of _ rb']) (auto simp: comp_def)
qed

definition demo_rr :: rrBalanced where
  "demo_rr = \<lparr>rb_p = RoundrobinBalanced, rb_next = 1, rb_scs = [1, 2], rb_scToAddr = []\<rparr>"

theorem round_robin_balanced_witness:
  "\<exists>ss rb'. pick_many rrPick 6 demo_rr = Ret (map Inr ss, rb') \<and>
     count_list ss 1 = 3 \<and> count_list ss 2 = 3"
proof -
  have "picker_ok (RRP demo_rr)" "rb_scs demo_rr \<noteq> []"
    by (simp_all add: demo_rr_def)
  moreover have "length (rb_scs demo_rr) = 2" "set (rb_scs demo_rr) = {1, 2}"
    by (simp_all add: demo_rr_def)
  ultimately show ?thesis
    using round_robin_balanced [of demo_rr 6] by auto
qed

end
