(* ===== verification/Balancer.thy ===== *)
theory Balancer
  imports Connectivity Picker
begin

text \<open>
  The base balancer of \<^verbatim>\<open>grpclient/balancer/balancer.go\<close>.  gRPC calls its handlers one at a
  time under \<^verbatim>\<open>bb.mu\<close>, so each handler is one function from state to state.  The calls the
  handlers make on gRPC (\<^verbatim>\<open>NewSubConn\<close>, \<^verbatim>\<open>Connect\<close>, \<^verbatim>\<open>RemoveSubConn\<close>,
  \<^verbatim>\<open>UpdateBalancerState\<close>) are recorded in order in \<open>bb_calls\<close>; what \<^verbatim>\<open>NewSubConn\<close>
  answers, and the order in which the runtime ranges over a map, belong to the environment.
\<close>

section \<open>State and environment\<close>

datatype cc_call =
    NewSubConn Address "SubConn option"
  | Connect SubConn
  | RemoveSubConn SubConn
  | UpdateBalancerState State Picker

record balConfig =
  Policy :: Policy
  Name :: string

record baseBalancer =
  bb_id :: string
  bb_policy :: Policy
  bb_name :: string
  addrToSc :: "(Address, SubConn) gomap"
  scToAddr :: "(SubConn, Address) gomap"
  scToSt :: "(SubConn, State) gomap"
  connectivityRecorder :: recorder
  bb_picker :: Picker
  bb_calls :: "cc_call list"

record bal_env =
  newsc :: "cc_call list \<Rightarrow> Address \<Rightarrow> SubConn option"
  rangeA :: "(Address \<times> SubConn) list \<Rightarrow> (Address \<times> SubConn) list"
  rangeS :: "(SubConn \<times> Address) list \<Rightarrow> (SubConn \<times> Address) list"

definition bb_log :: "cc_call \<Rightarrow> baseBalancer \<Rightarrow> baseBalancer" where
  "bb_log c bb = bb\<lparr>bb_calls := bb_calls bb @ [c]\<rparr>"

text \<open>
  The sub-connections handed out so far, and what is assumed of the environment: gRPC
  documents that \<^verbatim>\<open>NewSubConn\<close> creates a new sub-connection, so its pointer is not null and
  differs from every earlier one; a range loop visits every entry of a map once.
\<close>

definition issued :: "cc_call list \<Rightarrow> SubConn set" where
  "issued log = {sc. \<exists>a. NewSubConn a (Some sc) \<in> set log}"

definition env_ok :: "bal_env \<Rightarrow> bool" where
  "env_ok e \<longleftrightarrow>
     (\<forall>log a sc. newsc e log a = Some sc \<longrightarrow> sc \<noteq> 0 \<and> sc \<notin> issued log) \<and>
     (\<forall>xs. mset (rangeA e xs) = mset xs) \<and>
     (\<forall>xs. mset (rangeS e xs) = mset xs)"

section \<open>The handlers\<close>

text \<open>The identifier is the current time in base 36, which the caller supplies.\<close>

definition Build :: "balConfig \<Rightarrow> string \<Rightarrow> baseBalancer" where
  "Build cfg now =
     \<lparr>bb_id = now, bb_policy = Policy cfg, bb_name = Name cfg,
      addrToSc = [], scToAddr = [], scToSt = [],
      connectivityRecorder = NewRecorder,
      bb_picker = NewErr ErrNoSubConnAvailable, bb_calls = []\<rparr>"

definition resolve_addr ::
    "bal_env \<Rightarrow> baseBalancer \<times> (Address, unit) gomap \<Rightarrow> Address \<Rightarrow>
      baseBalancer \<times> (Address, unit) gomap" where
  "resolve_addr e st addr =
     (let (bb, resolved) = st; resolved = mput addr () resolved
      in if mget (addrToSc bb) addr \<noteq> None then (bb, resolved)
         else case newsc e (bb_calls bb) addr of
             None \<Rightarrow> (bb_log (NewSubConn addr None) bb, resolved)
           | Some sc \<Rightarrow>
               (let bb = bb_log (NewSubConn addr (Some sc)) bb;
                    bb = bb\<lparr>addrToSc := mput addr sc (addrToSc bb)\<rparr>;
                    bb = bb\<lparr>scToAddr := mput sc addr (scToAddr bb)\<rparr>;
                    bb = bb\<lparr>scToSt := mput sc Idle (scToSt bb)\<rparr>
                in (bb_log (Connect sc) bb, resolved)))"

definition drop_unresolved ::
    "(Address, unit) gomap \<Rightarrow> baseBalancer \<Rightarrow> Address \<times> SubConn \<Rightarrow> baseBalancer" where
  "drop_unresolved resolved bb entry =
     (let (addr, sc) = entry
      in if mget resolved addr = None
         then (bb_log (RemoveSubConn sc) bb)\<lparr>addrToSc := mdel addr (addrToSc bb)\<rparr>
         else bb)"

definition HandleResolvedAddrs ::
    "bal_env \<Rightarrow> baseBalancer \<Rightarrow> Address list \<Rightarrow> string option \<Rightarrow> baseBalancer" where
  "HandleResolvedAddrs e bb addrs err =
     (if err \<noteq> None then bb
      else let (bb, resolved) = foldl (resolve_addr e) (bb, []) addrs
           in foldl (drop_unresolved resolved) bb (rangeA e (addrToSc bb)))"

definition ready_subconns :: "bal_env \<Rightarrow> baseBalancer \<Rightarrow> (SubConn, Address) gomap" where
  "ready_subconns e bb =
     foldl (\<lambda>m (addr, sc). if mget (scToSt bb) sc = Some Ready then mput sc addr m else m)
       [] (rangeA e (addrToSc bb))"

definition updatePicker :: "bal_env \<Rightarrow> baseBalancer \<Rightarrow> baseBalancer outcome" where
  "updatePicker e bb =
     (if GetCurrentState (connectivityRecorder bb) = TransientFailure
      then Ret (bb\<lparr>bb_picker := NewErr ErrTransientFailure\<rparr>)
      else obind (NewPicker (rangeS e)
                    \<lparr>cfgPolicy = bb_policy bb, SubConnToResolverAddress = ready_subconns e bb\<rparr>)
             (\<lambda>p. Ret (bb\<lparr>bb_picker := p\<rparr>)))"

definition HandleSubConnStateChange ::
    "bal_env \<Rightarrow> baseBalancer \<Rightarrow> SubConn \<Rightarrow> State \<Rightarrow> baseBalancer outcome" where
  "HandleSubConnStateChange e bb sc s =
     (case mget (scToSt bb) sc of
        None \<Rightarrow> Ret bb
      | Some old \<Rightarrow>
          (let bb = bb\<lparr>scToSt := mput sc s (scToSt bb)\<rparr>;
               bb = (case s of
                       Idle \<Rightarrow> bb_log (Connect sc) bb
                     | Shutdown \<Rightarrow> bb\<lparr>scToAddr := mdel sc (scToAddr bb), scToSt := mdel sc (scToSt bb)\<rparr>
                     | _ \<Rightarrow> bb);
               oldAggrState = GetCurrentState (connectivityRecorder bb);
               bb = bb\<lparr>connectivityRecorder := RecordTransition (connectivityRecorder bb) old s\<rparr>;
               aggr = GetCurrentState (connectivityRecorder bb)
           in obind (if (s = Ready) \<noteq> (old = Ready) \<or>
                        (aggr = TransientFailure) \<noteq> (oldAggrState = TransientFailure)
                     then updatePicker e bb else Ret bb)
                (\<lambda>bb. Ret (bb_log (UpdateBalancerState
                    (GetCurrentState (connectivityRecorder bb)) (bb_picker bb)) bb))))"

text \<open>\<^verbatim>\<open>Close\<close> does nothing.\<close>

definition Close :: "baseBalancer \<Rightarrow> baseBalancer" where
  "Close bb = bb"

section \<open>The balancer as a state machine\<close>

text \<open>
  gRPC calls the handlers in any order with any arguments, and the clients of the connection
  pick in between.  Picking moves the cursor of the current picker, which the balancer and
  gRPC share.
\<close>

inductive bal_step :: "bal_env \<Rightarrow> baseBalancer \<Rightarrow> baseBalancer \<Rightarrow> bool" for e where
  resolved: "bal_step e bb (HandleResolvedAddrs e bb addrs err)"
| changed: "HandleSubConnStateChange e bb sc s = Ret bb' \<Longrightarrow> bal_step e bb bb'"
| picked: "Pick (bb_picker bb) = Ret (r, p) \<Longrightarrow> bal_step e bb (bb\<lparr>bb_picker := p\<rparr>)"

inductive bal_reach :: "bal_env \<Rightarrow> balConfig \<Rightarrow> baseBalancer \<Rightarrow> bool" for e cfg where
  built: "bal_reach e cfg (Build cfg now)"
| stepped: "bal_reach e cfg bb \<Longrightarrow> bal_step e bb bb' \<Longrightarrow> bal_reach e cfg bb'"

section \<open>The invariant\<close>

definition tracked_inv :: "baseBalancer \<Rightarrow> bool" where
  "tracked_inv bb \<longleftrightarrow>
     gomap_ok (addrToSc bb) \<and> gomap_ok (scToSt bb) \<and>
     fst ` set (scToSt bb) \<subseteq> issued (bb_calls bb) \<and>
     0 \<notin> fst ` set (scToSt bb) \<and>
     snd ` set (addrToSc bb) \<subseteq> issued (bb_calls bb)"

definition recorder_inv :: "baseBalancer \<Rightarrow> bool" where
  "recorder_inv bb \<longleftrightarrow>
     counts (vals (scToSt bb)) (connectivityRecorder bb) \<and>
     (rc_cur (connectivityRecorder bb) = aggregate (vals (scToSt bb)) \<or>
      rc_cur (connectivityRecorder bb) = Idle \<and>
      Ready \<notin># vals (scToSt bb) \<and> Connecting \<notin># vals (scToSt bb))"

definition picker_inv :: "baseBalancer \<Rightarrow> bool" where
  "picker_inv bb \<longleftrightarrow>
     picker_ok (bb_picker bb) \<and>
     (\<forall>sc \<in> set (picker_scs (bb_picker bb)). mget (scToSt bb) sc = Some Ready) \<and>
     (\<forall>addr sc. mget (addrToSc bb) addr = Some sc \<longrightarrow> mget (scToSt bb) sc = Some Ready \<longrightarrow>
        sc \<in> set (picker_scs (bb_picker bb))) \<and>
     (picker_err (bb_picker bb) = ErrTransientFailure \<longleftrightarrow>
        rc_cur (connectivityRecorder bb) = TransientFailure)"

definition bal_inv :: "baseBalancer \<Rightarrow> bool" where
  "bal_inv bb \<longleftrightarrow> bb_policy bb = RoundrobinBalanced \<and>
     tracked_inv bb \<and> recorder_inv bb \<and> picker_inv bb"

lemmas bal_inv_defs = bal_inv_def tracked_inv_def recorder_inv_def picker_inv_def

text \<open>Pointers are 64 bits wide and the null pointer is never tracked.\<close>

lemma tracked_bound:
  assumes "tracked_inv bb"
  shows "length (scToSt bb) < 2 ^ 64"
proof -
  let ?K = "fst ` set (scToSt bb)"
  have "length (scToSt bb) = card ?K"
    using assms by (metis distinct_card length_map list.set_map tracked_inv_def)
  also have "?K \<subset> UNIV"
    using assms by (auto simp: tracked_inv_def)
  then have "card ?K < card (UNIV :: SubConn set)"
    by (intro psubset_card_mono) auto
  also have "card (UNIV :: SubConn set) = 2 ^ 64"
    by (simp add: card_word)
  finally show ?thesis .
qed

lemma bb_log_simps [simp]:
  "bb_id (bb_log c bb) = bb_id bb" "bb_policy (bb_log c bb) = bb_policy bb"
  "addrToSc (bb_log c bb) = addrToSc bb" "scToAddr (bb_log c bb) = scToAddr bb"
  "scToSt (bb_log c bb) = scToSt bb"
  "connectivityRecorder (bb_log c bb) = connectivityRecorder bb"
  "bb_picker (bb_log c bb) = bb_picker bb"
  "bb_calls (bb_log c bb) = bb_calls bb @ [c]"
  by (simp_all add: bb_log_def)

lemma issued_append [simp]: "issued (xs @ ys) = issued xs \<union> issued ys"
  by (auto simp: issued_def)

lemma issued_simps [simp]:
  "issued [] = {}"
  "issued [NewSubConn a (Some sc)] = {sc}" "issued [NewSubConn a None] = {}"
  "issued [Connect sc] = {}" "issued [RemoveSubConn sc] = {}"
  "issued [UpdateBalancerState s p] = {}"
  by (auto simp: issued_def)

lemma bb_log_inv: "issued [c] = {} \<Longrightarrow> bal_inv (bb_log c bb) \<longleftrightarrow> bal_inv bb"
  by (simp add: bal_inv_defs)

lemma Build_inv: "Policy cfg = RoundrobinBalanced \<Longrightarrow> bal_inv (Build cfg now)"
  using NewRecorder_counts [of "{#}"]
  by (simp add: bal_inv_defs Build_def NewRecorder_def)

section \<open>Every handler keeps the invariant\<close>

lemma resolve_new_inv:
  assumes "bal_inv bb" and "env_ok e" and "newsc e (bb_calls bb) addr = Some sc"
    and "mget (addrToSc bb) addr = None"
  shows "bal_inv ((bb_log (NewSubConn addr (Some sc)) bb)
      \<lparr>addrToSc := mput addr sc (addrToSc bb), scToAddr := mput sc addr (scToAddr bb),
       scToSt := mput sc Idle (scToSt bb)\<rparr>)" (is "bal_inv ?bb")
proof -
  have fresh: "sc \<noteq> 0" "sc \<notin> issued (bb_calls bb)"
    using assms(2,3) by (auto simp: env_ok_def)
  with assms(1) have new: "mget (scToSt bb) sc = None"
    by (auto simp: bal_inv_defs map_of_eq_None_iff)
  have "tracked_inv ?bb"
    using assms(1) fresh
    by (auto simp: bal_inv_def tracked_inv_def dom_update dest!: mput_memD intro: inv_intros)
  moreover have "recorder_inv ?bb"
    using assms(1) new rec.tracks_new [of "scToSt bb" "connectivityRecorder bb" sc]
    by (auto simp: bal_inv_def recorder_inv_def vals_put_new uncounted_def)
  moreover have "picker_inv ?bb"
    using assms(1) new by (auto simp: bal_inv_def picker_inv_def go_map_simps split: if_splits)
  ultimately show ?thesis
    using assms(1) by (simp add: bal_inv_def)
qed

lemma resolve_addr_cases:
  assumes "resolve_addr e (bb, r) addr = (bb', r')"
  obtains (known) sc where "mget (addrToSc bb) addr = Some sc" "bb' = bb" "r' = mput addr () r"
  | (failed) "mget (addrToSc bb) addr = None" "newsc e (bb_calls bb) addr = None"
      "bb' = bb_log (NewSubConn addr None) bb" "r' = mput addr () r"
  | (created) sc where "mget (addrToSc bb) addr = None" "newsc e (bb_calls bb) addr = Some sc"
      "bb' = bb_log (Connect sc) ((bb_log (NewSubConn addr (Some sc)) bb)
        \<lparr>addrToSc := mput addr sc (addrToSc bb), scToAddr := mput sc addr (scToAddr bb),
         scToSt := mput sc Idle (scToSt bb)\<rparr>)" "r' = mput addr () r"
  using assms by (simp add: resolve_addr_def Let_def split: if_splits option.splits)

lemma resolve_addr_inv:
  assumes "bal_inv bb" and "env_ok e" and "resolve_addr e (bb, r) addr = (bb', r')"
  shows "bal_inv bb'"
  using assms(3)
proof (cases rule: resolve_addr_cases)
  case (created sc)
  with resolve_new_inv [OF assms(1,2)] show ?thesis by (simp add: bb_log_inv)
qed (use assms(1) in \<open>simp_all add: bb_log_inv\<close>)

lemma resolve_all_inv:
  assumes "bal_inv bb" and "env_ok e" and "foldl (resolve_addr e) (bb, r) addrs = (bb', r')"
  shows "bal_inv bb'"
  using assms
proof (induction addrs arbitrary: bb r)
  case (Cons addr addrs)
  obtain bb1 r1 where "resolve_addr e (bb, r) addr = (bb1, r1)" by fastforce
  with Cons show ?case using resolve_addr_inv by fastforce
qed simp

lemma drop_unresolved_inv: "bal_inv bb \<Longrightarrow> bal_inv (drop_unresolved resolved bb entry)"
  by (cases entry)
    (auto simp: drop_unresolved_def bal_inv_defs delete_conv' dest!: mdel_memD intro: inv_intros)

lemma drop_all_inv: "bal_inv bb \<Longrightarrow> bal_inv (foldl (drop_unresolved resolved) bb entries)"
  by (induction entries arbitrary: bb) (auto simp: drop_unresolved_inv)

lemma HandleResolvedAddrs_inv:
  assumes "bal_inv bb" and "env_ok e"
  shows "bal_inv (HandleResolvedAddrs e bb addrs err)"
proof -
  obtain bb' r' where "foldl (resolve_addr e) (bb, []) addrs = (bb', r')" by fastforce
  with assms show ?thesis
    by (auto simp: HandleResolvedAddrs_def intro: drop_all_inv resolve_all_inv)
qed

text \<open>The map of ready sub-connections that the new picker gets.\<close>

lemma ready_fold:
  fixes st :: "(SubConn, State) gomap"
  defines "f \<equiv> \<lambda>m (addr, sc). if mget st sc = Some Ready then mput sc addr m else m"
  shows "(gomap_ok m \<longrightarrow> gomap_ok (foldl f m xs)) \<and>
    fst ` set (foldl f m xs) = fst ` set m \<union> {sc \<in> snd ` set xs. mget st sc = Some Ready}"
proof (induction xs arbitrary: m)
  case (Cons x xs)
  obtain addr sc where x: "x = (addr, sc)" by (cases x)
  show ?case
    using Cons [of "f m x"] by (auto simp: f_def x dom_update distinct_update)
qed (simp add: f_def)

lemma ready_subconns_ok: "gomap_ok (ready_subconns e bb)"
  using ready_fold [of "[]" "scToSt bb" "rangeA e (addrToSc bb)"]
  by (simp add: ready_subconns_def)

lemma ready_subconns_keys:
  assumes "env_ok e"
  shows "fst ` set (ready_subconns e bb) =
    {sc \<in> snd ` set (addrToSc bb). mget (scToSt bb) sc = Some Ready}"
proof -
  have "set (rangeA e (addrToSc bb)) = set (addrToSc bb)"
    using assms by (metis env_ok_def set_mset_mset)
  then show ?thesis
    using ready_fold [of "[]" "scToSt bb" "rangeA e (addrToSc bb)"]
    by (simp add: ready_subconns_def)
qed

lemma aggregate_TransientFailure:
  "aggregate M = TransientFailure \<Longrightarrow> Ready \<notin># M"
  by (auto simp: aggregate_def split: if_splits)

text \<open>The picker that \<^verbatim>\<open>updatePicker\<close> installs is right for the current state.\<close>

lemma updatePicker_inv:
  assumes "env_ok e" and "bb_policy bb = RoundrobinBalanced" and "tracked_inv bb"
    and "rc_cur (connectivityRecorder bb) = aggregate (vals (scToSt bb))"
  shows "\<exists>p. updatePicker e bb = Ret (bb\<lparr>bb_picker := p\<rparr>) \<and> picker_inv (bb\<lparr>bb_picker := p\<rparr>)"
proof (cases "rc_cur (connectivityRecorder bb) = TransientFailure")
  case True
  with assms(3,4) have "\<forall>sc. mget (scToSt bb) sc \<noteq> Some Ready"
    by (metis aggregate_TransientFailure vals_mem)
  with True show ?thesis
    by (auto simp: updatePicker_def GetCurrentState_def picker_inv_def
      intro!: exI [of _ "NewErr ErrTransientFailure"])
next
  case False
  let ?p = "newRoundrobinBalanced (rangeS e)
      \<lparr>cfgPolicy = bb_policy bb, SubConnToResolverAddress = ready_subconns e bb\<rparr>"
  have perm: "mset (rangeS e xs) = mset xs" for xs
    using assms(1) by (simp add: env_ok_def)
  then have "set (picker_scs ?p) = fst ` set (ready_subconns e bb)"
    by (simp) (metis set_mset_mset)
  also have "\<dots> = {sc \<in> snd ` set (addrToSc bb). mget (scToSt bb) sc = Some Ready}"
    using assms(1) by (rule ready_subconns_keys)
  finally have scs: "set (picker_scs ?p) =
      {sc \<in> snd ` set (addrToSc bb). mget (scToSt bb) sc = Some Ready}" .
  have "picker_ok ?p"
    using ready_subconns_ok perm by (intro newRoundrobin_ok) auto
  with False scs have "picker_inv (bb\<lparr>bb_picker := ?p\<rparr>)"
    by (force simp: picker_inv_def dest: map_of_SomeD)
  moreover have "updatePicker e bb = Ret (bb\<lparr>bb_picker := ?p\<rparr>)"
    using False assms(2)
    by (simp add: updatePicker_def GetCurrentState_def NewPicker_def policy_defs)
  ultimately show ?thesis by blast
qed

text \<open>The bookkeeping of a state change, before the picker is looked at.\<close>

definition recorded :: "baseBalancer \<Rightarrow> SubConn \<Rightarrow> State \<Rightarrow> State \<Rightarrow> baseBalancer" where
  "recorded bb sc old s =
     (let bb = bb\<lparr>scToSt := mput sc s (scToSt bb)\<rparr>;
          bb = (case s of
                  Idle \<Rightarrow> bb_log (Connect sc) bb
                | Shutdown \<Rightarrow> bb\<lparr>scToAddr := mdel sc (scToAddr bb), scToSt := mdel sc (scToSt bb)\<rparr>
                | _ \<Rightarrow> bb)
      in bb\<lparr>connectivityRecorder := RecordTransition (connectivityRecorder bb) old s\<rparr>)"

lemma recorded_simps [simp]:
  "bb_policy (recorded bb sc old s) = bb_policy bb"
  "addrToSc (recorded bb sc old s) = addrToSc bb"
  "bb_picker (recorded bb sc old s) = bb_picker bb"
  "issued (bb_calls (recorded bb sc old s)) = issued (bb_calls bb)"
  "connectivityRecorder (recorded bb sc old s) = RecordTransition (connectivityRecorder bb) old s"
  "scToSt (recorded bb sc old s) =
     (if s = Shutdown then mdel sc (scToSt bb) else mput sc s (scToSt bb))"
  by (cases s; simp add: recorded_def Let_def delete_update_same)+

lemma recorded_connects: "bb_calls (recorded bb sc old s) = bb_calls bb @ (if s = Idle then [Connect sc] else [])"
  by (cases s) (simp_all add: recorded_def Let_def)

lemma recorded_tracked:
  assumes "tracked_inv bb" and "mget (scToSt bb) sc = Some old"
  shows "tracked_inv (recorded bb sc old s)"
proof -
  have "fst ` set (scToSt (recorded bb sc old s)) \<subseteq> fst ` set (scToSt bb)"
    using map_of_SomeD [OF assms(2)] dom_delete_subset [of sc "scToSt bb"]
    by (auto simp: dom_update intro: rev_image_eqI)
  moreover have "gomap_ok (scToSt (recorded bb sc old s))"
    using assms(1) by (auto simp: tracked_inv_def intro: inv_intros)
  moreover note tr = assms(1) [unfolded tracked_inv_def]
  ultimately show ?thesis
    unfolding tracked_inv_def recorded_simps(2,4)
    by (intro conjI) (simp_all only: tr order_trans [OF _ tr [THEN conjunct2, THEN conjunct2, THEN conjunct1]], use tr in blast)
qed

lemma recorded_recorder:
  assumes "tracked_inv bb" and "recorder_inv bb" and "mget (scToSt bb) sc = Some old"
  shows "recorder_inv (recorded bb sc old s)"
    and "rc_cur (connectivityRecorder (recorded bb sc old s)) =
      aggregate (vals (scToSt (recorded bb sc old s)))"
proof -
  have ok: "gomap_ok (scToSt bb)" and tr: "counts (vals (scToSt bb)) (connectivityRecorder bb)"
    using assms(1,2) by (auto simp: tracked_inv_def recorder_inv_def)
  note len = tracked_bound [OF assms(1)]
  have "counts (vals (scToSt (recorded bb sc old s))) (connectivityRecorder (recorded bb sc old s))"
    using rec.tracks_put [OF tr assms(3)] rec.tracks_del [OF tr assms(3) ok] by simp
  moreover show "rc_cur (connectivityRecorder (recorded bb sc old s)) =
      aggregate (vals (scToSt (recorded bb sc old s)))"
    using rec.current_put [OF tr assms(3) len] rec.current_del [OF tr assms(3) ok len]
    by (simp add: GetCurrentState_def)
  ultimately show "recorder_inv (recorded bb sc old s)"
    by (simp add: recorder_inv_def)
qed

text \<open>When \<^verbatim>\<open>updatePicker\<close> is not called, the old picker is still right.\<close>

lemma recorded_picker:
  assumes "picker_inv bb" and "mget (scToSt bb) sc = Some old"
    and "(s = Ready) = (old = Ready)"
    and "(rc_cur (RecordTransition (connectivityRecorder bb) old s) = TransientFailure) =
         (rc_cur (connectivityRecorder bb) = TransientFailure)"
  shows "picker_inv (recorded bb sc old s)"
  using assms by (cases "old = Ready") (auto simp: picker_inv_def go_map_simps split: if_splits)

lemma HandleSubConnStateChange_recorded:
  "mget (scToSt bb) sc = Some old \<Longrightarrow> HandleSubConnStateChange e bb sc s =
     (let bb' = recorded bb sc old s; aggr = rc_cur (connectivityRecorder bb') in
      obind (if (s = Ready) \<noteq> (old = Ready) \<or>
                (aggr = TransientFailure) \<noteq> (rc_cur (connectivityRecorder bb) = TransientFailure)
             then updatePicker e bb' else Ret bb')
        (\<lambda>bb. Ret (bb_log (UpdateBalancerState
            (GetCurrentState (connectivityRecorder bb)) (bb_picker bb)) bb)))"
  by (cases s; simp add: HandleSubConnStateChange_def recorded_def GetCurrentState_def Let_def)

lemma bb_picker_idem: "bb\<lparr>bb_picker := bb_picker bb\<rparr> = (bb :: baseBalancer)"
  by (cases bb) simp

lemma HandleSubConnStateChange_result:
  assumes "bal_inv bb" and "env_ok e" and "mget (scToSt bb) sc = Some old"
  shows "\<exists>p. HandleSubConnStateChange e bb sc s =
      Ret (bb_log (UpdateBalancerState (aggregate (vals (scToSt (recorded bb sc old s)))) p)
             (recorded bb sc old s\<lparr>bb_picker := p\<rparr>)) \<and>
    bal_inv (recorded bb sc old s\<lparr>bb_picker := p\<rparr>)"
proof -
  let ?bb = "recorded bb sc old s"
  let ?up = "(s = Ready) \<noteq> (old = Ready) \<or>
    (rc_cur (connectivityRecorder ?bb) = TransientFailure) \<noteq>
      (rc_cur (connectivityRecorder bb) = TransientFailure)"
  have tr: "tracked_inv bb" and rc: "recorder_inv bb" and pk: "picker_inv bb"
    and pol: "bb_policy bb = RoundrobinBalanced"
    using assms(1) by (auto simp: bal_inv_def)
  note tr' = recorded_tracked [OF tr assms(3), of s]
    and rc' = recorded_recorder [OF tr rc assms(3), of s]
  obtain p where p: "(if ?up then updatePicker e ?bb else Ret ?bb) = Ret (?bb\<lparr>bb_picker := p\<rparr>)"
      and pk': "picker_inv (?bb\<lparr>bb_picker := p\<rparr>)"
  proof (cases ?up)
    case True
    moreover obtain p where "updatePicker e ?bb = Ret (?bb\<lparr>bb_picker := p\<rparr>)"
        "picker_inv (?bb\<lparr>bb_picker := p\<rparr>)"
      using updatePicker_inv [OF assms(2) _ tr' rc'(2)] pol by auto
    ultimately show ?thesis using that by simp
  next
    case False
    then have "picker_inv ?bb"
      by (intro recorded_picker [OF pk assms(3)]) auto
    with False that [of "bb_picker ?bb"] show ?thesis
      by (simp add: bb_picker_idem del: recorded_simps)
  qed
  have "bal_inv (?bb\<lparr>bb_picker := p\<rparr>)"
    using tr' rc'(1) pk' pol by (simp add: bal_inv_def tracked_inv_def recorder_inv_def)
  moreover have "HandleSubConnStateChange e bb sc s = Ret (bb_log (UpdateBalancerState
      (rc_cur (connectivityRecorder ?bb)) p) (?bb\<lparr>bb_picker := p\<rparr>))"
    unfolding HandleSubConnStateChange_recorded [OF assms(3)] Let_def p
    by (simp add: GetCurrentState_def)
  ultimately show ?thesis unfolding rc'(2) by blast
qed

lemma HandleSubConnStateChange_inv:
  assumes "bal_inv bb" and "env_ok e"
  shows "\<exists>bb'. HandleSubConnStateChange e bb sc s = Ret bb' \<and> bal_inv bb'"
proof (cases "mget (scToSt bb) sc")
  case None
  with assms(1) show ?thesis by (simp add: HandleSubConnStateChange_def)
next
  case (Some old)
  from HandleSubConnStateChange_result [OF assms Some, of s] show ?thesis
    by (metis bb_log_inv issued_simps(6))
qed

lemma picked_inv: "bal_inv bb \<Longrightarrow> Pick (bb_picker bb) = Ret (r, p) \<Longrightarrow> bal_inv (bb\<lparr>bb_picker := p\<rparr>)"
  using pk.pick_returns [of "bb_picker bb"] by (auto simp: bal_inv_defs)

lemma bal_step_inv: "bal_step e bb bb' \<Longrightarrow> env_ok e \<Longrightarrow> bal_inv bb \<Longrightarrow> bal_inv bb'"
proof (induction rule: bal_step.induct)
  case (changed bb sc s bb')
  with HandleSubConnStateChange_inv [of bb e sc s] show ?case by simp
qed (auto intro: HandleResolvedAddrs_inv picked_inv)

lemma bal_reach_inv:
  "bal_reach e cfg bb \<Longrightarrow> env_ok e \<Longrightarrow> Policy cfg = RoundrobinBalanced \<Longrightarrow> bal_inv bb"
  by (induction rule: bal_reach.induct) (auto intro: Build_inv bal_step_inv)

section \<open>What a resolver update does\<close>

lemma resolve_addr_resolved:
  "resolve_addr e (bb, r) addr = (bb', r') \<Longrightarrow> r' = mput addr () r"
  by (erule resolve_addr_cases) auto

lemma resolve_addr_keeps:
  "resolve_addr e (bb, r) addr = (bb', r') \<Longrightarrow> mget (addrToSc bb) a = Some sc \<Longrightarrow>
    mget (addrToSc bb') a = Some sc"
  by (erule resolve_addr_cases) (auto simp: go_map_simps)

lemma resolve_addr_only:
  "resolve_addr e (bb, r) addr = (bb', r') \<Longrightarrow> mget (addrToSc bb') a \<noteq> None \<Longrightarrow>
    mget (addrToSc bb) a \<noteq> None \<or> a = addr"
  by (erule resolve_addr_cases) (auto simp: go_map_simps)

lemma resolve_addr_calls:
  "resolve_addr e (bb, r) addr = (bb', r') \<Longrightarrow>
    \<exists>new. bb_calls bb' = bb_calls bb @ new \<and> (\<forall>sc. RemoveSubConn sc \<notin> set new) \<and>
      (mget (addrToSc bb') addr = None \<longrightarrow> NewSubConn addr None \<in> set new)"
  by (erule resolve_addr_cases) (auto simp: go_map_simps)

lemma tracked_issued:
  assumes "tracked_inv bb" and "mget (scToSt bb) sc = Some s"
  shows "sc \<in> issued (bb_calls bb)"
proof -
  have "sc \<in> fst ` set (scToSt bb)"
    using map_of_SomeD [OF assms(2)] by (rule image_eqI [rotated]) simp
  with assms(1) show ?thesis unfolding tracked_inv_def by blast
qed

lemma resolve_addr_states:
  assumes "resolve_addr e (bb, r) addr = (bb', r')" and "bal_inv bb" and "env_ok e"
    and "mget (scToSt bb) sc = Some s"
  shows "mget (scToSt bb') sc = Some s"
proof -
  have "sc \<in> issued (bb_calls bb)"
    using assms(2,4) by (simp add: bal_inv_def tracked_issued)
  with assms(3) have "newsc e (bb_calls bb) addr \<noteq> Some sc"
    by (auto simp: env_ok_def)
  with assms(4) show ?thesis
    by (cases rule: resolve_addr_cases [OF assms(1)]) (simp_all add: go_map_simps)
qed

lemma resolve_all_resolved:
  "foldl (resolve_addr e) (bb, r) addrs = (bb', r') \<Longrightarrow>
    mget r' a \<noteq> None \<longleftrightarrow> mget r a \<noteq> None \<or> a \<in> set addrs"
proof (induction addrs arbitrary: bb r)
  case (Cons addr addrs)
  obtain bb1 r1 where one: "resolve_addr e (bb, r) addr = (bb1, r1)" by fastforce
  with Cons show ?case
    using resolve_addr_resolved [OF one] by (auto simp: go_map_simps)
qed simp

lemma resolve_all_keeps:
  "foldl (resolve_addr e) (bb, r) addrs = (bb', r') \<Longrightarrow> mget (addrToSc bb) a = Some sc \<Longrightarrow>
    mget (addrToSc bb') a = Some sc"
proof (induction addrs arbitrary: bb r)
  case (Cons addr addrs)
  obtain bb1 r1 where one: "resolve_addr e (bb, r) addr = (bb1, r1)" by fastforce
  with Cons show ?case using resolve_addr_keeps [OF one] by simp
qed simp

lemma resolve_all_only:
  "foldl (resolve_addr e) (bb, r) addrs = (bb', r') \<Longrightarrow> mget (addrToSc bb') a \<noteq> None \<Longrightarrow>
    mget (addrToSc bb) a \<noteq> None \<or> a \<in> set addrs"
proof (induction addrs arbitrary: bb r)
  case (Cons addr addrs)
  obtain bb1 r1 where one: "resolve_addr e (bb, r) addr = (bb1, r1)" by fastforce
  from Cons.prems(1) one have "foldl (resolve_addr e) (bb1, r1) addrs = (bb', r')" by simp
  from Cons.IH [OF this Cons.prems(2)] resolve_addr_only [OF one, of a] show ?case by auto
qed simp

lemma resolve_all_calls:
  "foldl (resolve_addr e) (bb, r) addrs = (bb', r') \<Longrightarrow>
    \<exists>new. bb_calls bb' = bb_calls bb @ new \<and> (\<forall>sc. RemoveSubConn sc \<notin> set new) \<and>
      (\<forall>a \<in> set addrs. mget (addrToSc bb') a = None \<longrightarrow> NewSubConn a None \<in> set new)"
proof (induction addrs arbitrary: bb r)
  case (Cons addr addrs)
  obtain bb1 r1 where one: "resolve_addr e (bb, r) addr = (bb1, r1)" by fastforce
  with Cons.prems have rest: "foldl (resolve_addr e) (bb1, r1) addrs = (bb', r')" by simp
  obtain n1 where n1: "bb_calls bb1 = bb_calls bb @ n1" "\<forall>sc. RemoveSubConn sc \<notin> set n1"
      "mget (addrToSc bb1) addr = None \<longrightarrow> NewSubConn addr None \<in> set n1"
    using resolve_addr_calls [OF one] by (elim exE conjE)
  obtain n2 where n2: "bb_calls bb' = bb_calls bb1 @ n2" "\<forall>sc. RemoveSubConn sc \<notin> set n2"
      "\<forall>a \<in> set addrs. mget (addrToSc bb') a = None \<longrightarrow> NewSubConn a None \<in> set n2"
    using Cons.IH [OF rest] by (elim exE conjE)
  have "mget (addrToSc bb') addr = None \<Longrightarrow> mget (addrToSc bb1) addr = None"
    using resolve_all_keeps [OF rest, of addr] by (cases "mget (addrToSc bb1) addr") auto
  with n1 n2 show ?case
    by (intro exI [of _ "n1 @ n2"]) simp
qed simp

lemma resolve_all_states:
  assumes "foldl (resolve_addr e) (bb, r) addrs = (bb', r')" and "bal_inv bb" and "env_ok e"
    and "mget (scToSt bb) sc = Some s"
  shows "mget (scToSt bb') sc = Some s"
  using assms
proof (induction addrs arbitrary: bb r)
  case (Cons addr addrs)
  obtain bb1 r1 where "resolve_addr e (bb, r) addr = (bb1, r1)" by fastforce
  with Cons resolve_addr_inv resolve_addr_states show ?case by (metis foldl_Cons)
qed simp

lemma drop_all_effect:
  fixes entries resolved
  defines "gone \<equiv> filter (\<lambda>(addr, sc). mget resolved addr = None) entries"
  shows "bb_calls (foldl (drop_unresolved resolved) bb entries) =
      bb_calls bb @ map (\<lambda>(addr, sc). RemoveSubConn sc) gone"
    and "mget (addrToSc (foldl (drop_unresolved resolved) bb entries)) a =
      (if a \<in> fst ` set gone then None else mget (addrToSc bb) a)"
    and "scToSt (foldl (drop_unresolved resolved) bb entries) = scToSt bb"
  unfolding gone_def
  by (induction entries arbitrary: bb)
    (auto simp: drop_unresolved_def delete_conv' split: if_splits)

lemma HandleResolvedAddrs_effect:
  assumes "bal_inv bb" and "env_ok e" and "bb' = HandleResolvedAddrs e bb addrs None"
  shows "mget (addrToSc bb') a \<noteq> None \<Longrightarrow> a \<in> set addrs"
    and "a \<in> set addrs \<Longrightarrow> mget (addrToSc bb) a = Some sc \<Longrightarrow> mget (addrToSc bb') a = Some sc"
    and "mget (scToSt bb) sc = Some s \<Longrightarrow> mget (scToSt bb') sc = Some s"
    and "\<exists>new. bb_calls bb' = bb_calls bb @ new \<and>
      (\<forall>a \<in> set addrs. mget (addrToSc bb') a = None \<longrightarrow> NewSubConn a None \<in> set new) \<and>
      (\<forall>sc. RemoveSubConn sc \<in> set new \<longleftrightarrow> (\<exists>a. a \<notin> set addrs \<and> mget (addrToSc bb) a = Some sc))"
proof -
  obtain bb1 r where all: "foldl (resolve_addr e) (bb, []) addrs = (bb1, r)" by fastforce
  let ?es = "rangeA e (addrToSc bb1)"
  let ?gone = "filter (\<lambda>(addr, sc). mget r addr = None) ?es"
  have bb': "bb' = foldl (drop_unresolved r) bb1 ?es"
    using assms(3) all by (simp add: HandleResolvedAddrs_def)
  have inv1: "bal_inv bb1"
    using assms(1,2) all by (rule resolve_all_inv)
  then have ok: "gomap_ok (addrToSc bb1)"
    by (simp add: bal_inv_defs)
  have es: "set ?es = set (addrToSc bb1)"
    using assms(2) by (metis env_ok_def set_mset_mset)
  have r: "mget r a = None \<longleftrightarrow> a \<notin> set addrs" for a
    using resolve_all_resolved [OF all, of a] by (cases "mget r a") auto
  have same: "a \<notin> set addrs \<Longrightarrow> mget (addrToSc bb1) a = mget (addrToSc bb) a" for a
    using resolve_all_keeps [OF all, of a] resolve_all_only [OF all, of a]
    by (cases "mget (addrToSc bb) a"; cases "mget (addrToSc bb1) a") auto
  have gone: "(a, sc) \<in> set ?gone \<longleftrightarrow> a \<notin> set addrs \<and> mget (addrToSc bb) a = Some sc" for a sc
    using am.get_items [OF ok, of a sc] same [of a] by (simp add: es r) metis
  then have dropped: "a \<in> fst ` set ?gone \<longleftrightarrow> a \<notin> set addrs \<and> mget (addrToSc bb) a \<noteq> None" for a
    by force
  note eff = drop_all_effect [of r bb1 ?es, folded bb']
  show "mget (addrToSc bb') a \<noteq> None \<Longrightarrow> a \<in> set addrs"
    using eff(2) [of a] dropped [of a] resolve_all_only [OF all, of a] by (auto split: if_splits)
  show "a \<in> set addrs \<Longrightarrow> mget (addrToSc bb) a = Some sc \<Longrightarrow> mget (addrToSc bb') a = Some sc"
    using eff(2) [of a] dropped [of a] resolve_all_keeps [OF all] by simp
  show "mget (scToSt bb) sc = Some s \<Longrightarrow> mget (scToSt bb') sc = Some s"
    using eff(3) resolve_all_states [OF all assms(1,2)] by simp
  obtain new where new: "bb_calls bb1 = bb_calls bb @ new" "\<forall>sc. RemoveSubConn sc \<notin> set new"
      "\<forall>a \<in> set addrs. mget (addrToSc bb1) a = None \<longrightarrow> NewSubConn a None \<in> set new"
    using resolve_all_calls [OF all] by (elim exE conjE)
  have "RemoveSubConn sc \<in> set (new @ map (\<lambda>(addr, sc). RemoveSubConn sc) ?gone) \<longleftrightarrow>
      (\<exists>a. a \<notin> set addrs \<and> mget (addrToSc bb) a = Some sc)" for sc
    using new(2) gone [of _ sc] by (auto simp: image_iff)
  moreover have "mget (addrToSc bb') a = None \<Longrightarrow> mget (addrToSc bb1) a = None"
      if "a \<in> set addrs" for a
    using eff(2) [of a] dropped [of a] that by simp
  ultimately show "\<exists>new. bb_calls bb' = bb_calls bb @ new \<and>
      (\<forall>a \<in> set addrs. mget (addrToSc bb') a = None \<longrightarrow> NewSubConn a None \<in> set new) \<and>
      (\<forall>sc. RemoveSubConn sc \<in> set new \<longleftrightarrow> (\<exists>a. a \<notin> set addrs \<and> mget (addrToSc bb) a = Some sc))"
    using new eff(1)
    by (intro exI [of _ "new @ map (\<lambda>(addr, sc). RemoveSubConn sc) ?gone"]) auto
qed

section \<open>A concrete environment\<close>

fun issued_list :: "cc_call list \<Rightarrow> SubConn list" where
  "issued_list [] = []"
| "issued_list (NewSubConn a (Some sc) # log) = sc # issued_list log"
| "issued_list (c # log) = issued_list log"

text \<open>gRPC with room for three sub-connections; every later \<^verbatim>\<open>NewSubConn\<close> fails.\<close>

definition demo_env :: bal_env where
  "demo_env =
     \<lparr>newsc = (\<lambda>log _. List.find (\<lambda>sc. sc \<notin> set (issued_list log)) [1, 2, 3]),
      rangeA = rev, rangeS = (\<lambda>xs. xs)\<rparr>"

lemma issued_list_set: "set (issued_list log) = issued log"
  by (induction log rule: issued_list.induct) (auto simp: issued_def)

lemma demo_env_ok: "env_ok demo_env"
  by (auto simp: env_ok_def demo_env_def issued_list_set split: if_splits)

section \<open>Properties\<close>

text \<open>
  C6 (safety).  In every state the balancer can reach, whatever gRPC and the clients do, a
  pick on its current picker neither panics nor blocks.  It returns only a sub-connection
  whose last reported state is Ready, and it returns an error only when no resolved address
  has a Ready sub-connection; that error is the transient-failure error exactly when the
  aggregated state is TransientFailure.
\<close>

theorem balancer_pick_correct:
  assumes "env_ok e" and "Policy cfg = RoundrobinBalanced" and "bal_reach e cfg bb"
  shows "\<exists>r p. Pick (bb_picker bb) = Ret (r, p) \<and>
    (case r of
       Inr sc \<Rightarrow> mget (scToSt bb) sc = Some Ready
     | Inl err \<Rightarrow>
         (\<forall>addr sc. mget (addrToSc bb) addr = Some sc \<longrightarrow> mget (scToSt bb) sc \<noteq> Some Ready) \<and>
         (err = ErrTransientFailure \<longleftrightarrow>
            GetCurrentState (connectivityRecorder bb) = TransientFailure))"
proof -
  have inv: "picker_inv bb"
    using bal_reach_inv [OF assms(3,1,2)] by (simp add: bal_inv_def)
  then have "picker_ok (bb_picker bb)" by (simp add: picker_inv_def)
  then show ?thesis
  proof (cases rule: pk.pick_cases)
    case (err p')
    with inv show ?thesis by (auto simp: picker_inv_def GetCurrentState_def)
  next
    case (sc sc p')
    with inv show ?thesis by (auto simp: picker_inv_def)
  qed
qed

definition demo_addr :: Address where
  "demo_addr = \<lparr>Addr = ''127.0.0.1:5853'', AType = Backend\<rparr>"

definition demo_cfg :: balConfig where
  "demo_cfg = \<lparr>Policy = RoundrobinBalanced, Name = ''grpc-picker-roundrobin-balanced''\<rparr>"

definition demo_resolved :: baseBalancer where
  "demo_resolved = HandleResolvedAddrs demo_env (Build demo_cfg ''0'') [demo_addr] None"

lemmas demo_defs = demo_resolved_def demo_env_def demo_cfg_def demo_addr_def Build_def NewErr_def
  NewRecorder_def HandleResolvedAddrs_def resolve_addr_def drop_unresolved_def bb_log_def
  HandleSubConnStateChange_def updatePicker_def RecordTransition_def GetCurrentState_def
  NewPicker_def newRoundrobinBalanced_def ready_subconns_def policy_defs

definition demo_ready :: baseBalancer where
  "demo_ready = (case HandleSubConnStateChange demo_env demo_resolved 1 Ready of Ret bb \<Rightarrow> bb)"

lemma demo_ready_step: "HandleSubConnStateChange demo_env demo_resolved 1 Ready = Ret demo_ready"
  unfolding demo_ready_def by (simp add: demo_defs Let_def)

lemma demo_resolved_reach: "bal_reach demo_env demo_cfg demo_resolved"
  unfolding demo_resolved_def by (rule bal_reach.stepped [OF bal_reach.built bal_step.resolved])

lemma demo_reach: "bal_reach demo_env demo_cfg demo_ready"
  by (rule bal_reach.stepped [OF demo_resolved_reach bal_step.changed [OF demo_ready_step]])

theorem balancer_pick_correct_witness:
  "\<exists>sc p. Pick (bb_picker demo_ready) = Ret (Inr sc, p) \<and> mget (scToSt demo_ready) sc = Some Ready"
proof -
  have ready: "mget (addrToSc demo_ready) demo_addr = Some 1" "mget (scToSt demo_ready) 1 = Some Ready"
    by (simp_all add: demo_ready_def demo_defs Let_def)
  have pol: "Policy demo_cfg = RoundrobinBalanced"
    by (simp add: demo_cfg_def)
  obtain r p where "Pick (bb_picker demo_ready) = Ret (r, p)"
    and "case r of Inr sc \<Rightarrow> mget (scToSt demo_ready) sc = Some Ready
       | Inl err \<Rightarrow> \<forall>addr sc. mget (addrToSc demo_ready) addr = Some sc \<longrightarrow>
           mget (scToSt demo_ready) sc \<noteq> Some Ready"
    using balancer_pick_correct [OF demo_env_ok pol demo_reach] by (fastforce split: sum.splits)
  with ready show ?thesis by (cases r) auto
qed

text \<open>
  C25 (refinement).  No state report panics.  A report for a sub-connection the balancer does not
  track, one that was Shutdown before, is ignored: the balancer stays as it is and gRPC is told
  nothing.  A report for a tracked one leaves the balancer with the reported state recorded
  (or the sub-connection forgotten after Shutdown), reconnects an idle one, and ends by
  telling gRPC, once, the aggregated state of all tracked sub-connections, as the comment of
  \<^verbatim>\<open>RecordTransition\<close> defines it, together with the current picker.
\<close>

theorem state_change_reported:
  assumes "env_ok e" and "Policy cfg = RoundrobinBalanced" and "bal_reach e cfg bb"
  shows "case mget (scToSt bb) sc of
      None \<Rightarrow> HandleSubConnStateChange e bb sc s = Ret bb
    | Some old \<Rightarrow> (\<exists>bb'. HandleSubConnStateChange e bb sc s = Ret bb' \<and>
        scToSt bb' = (if s = Shutdown then mdel sc (scToSt bb) else mput sc s (scToSt bb)) \<and>
        addrToSc bb' = addrToSc bb \<and>
        bb_calls bb' = bb_calls bb @ (if s = Idle then [Connect sc] else []) @
          [UpdateBalancerState (aggregate (vals (scToSt bb'))) (bb_picker bb')])"
proof (cases "mget (scToSt bb) sc")
  case None
  then show ?thesis by (simp add: HandleSubConnStateChange_def)
next
  case (Some old)
  obtain p where "HandleSubConnStateChange e bb sc s =
      Ret (bb_log (UpdateBalancerState (aggregate (vals (scToSt (recorded bb sc old s)))) p)
             (recorded bb sc old s\<lparr>bb_picker := p\<rparr>))"
    using HandleSubConnStateChange_result [OF bal_reach_inv [OF assms(3,1,2)] assms(1) Some] by blast
  with Some show ?thesis by (simp add: recorded_connects)
qed

theorem state_change_reported_witness:
  "(\<exists>bb'. HandleSubConnStateChange demo_env demo_ready 1 Shutdown = Ret bb' \<and>
     last (bb_calls bb') = UpdateBalancerState TransientFailure (bb_picker bb')) \<and>
   HandleSubConnStateChange demo_env demo_ready 9 Ready = Ret demo_ready"
proof -
  have pol: "Policy demo_cfg = RoundrobinBalanced"
    by (simp add: demo_cfg_def)
  have old: "mget (scToSt demo_ready) 1 = Some Ready" "mget (scToSt demo_ready) 9 = None"
    and gone: "mdel 1 (scToSt demo_ready) = []"
    by (simp_all add: demo_ready_def demo_defs Let_def)
  note reported = state_change_reported [OF demo_env_ok pol demo_reach]
  show ?thesis
    using reported [of 1 Shutdown] reported [of 9 Ready] old gone by (auto simp: aggregate_def)
qed

text \<open>
  A resolver update without an error leaves exactly resolved addresses
  connected: connections of addresses that stay are kept, an address without a connection
  had its \<^verbatim>\<open>NewSubConn\<close> fail, and \<^verbatim>\<open>RemoveSubConn\<close> is called for the connections of
  unresolved addresses and for no other; no tracked state is lost, since the entry of a
  removed connection stays until gRPC reports Shutdown.
\<close>

theorem resolved_addrs_followed:
  assumes "env_ok e" and "Policy cfg = RoundrobinBalanced" and "bal_reach e cfg bb"
    and "bb' = HandleResolvedAddrs e bb addrs None"
  shows "(\<forall>a. mget (addrToSc bb') a \<noteq> None \<longrightarrow> a \<in> set addrs) \<and>
    (\<forall>a sc. a \<in> set addrs \<and> mget (addrToSc bb) a = Some sc \<longrightarrow> mget (addrToSc bb') a = Some sc) \<and>
    (\<forall>sc s. mget (scToSt bb) sc = Some s \<longrightarrow> mget (scToSt bb') sc = Some s) \<and>
    (\<exists>new. bb_calls bb' = bb_calls bb @ new \<and>
      (\<forall>a \<in> set addrs. mget (addrToSc bb') a = None \<longrightarrow> NewSubConn a None \<in> set new) \<and>
      (\<forall>sc. RemoveSubConn sc \<in> set new \<longleftrightarrow> (\<exists>a. a \<notin> set addrs \<and> mget (addrToSc bb) a = Some sc)))"
proof -
  have inv: "bal_inv bb"
    using bal_reach_inv [OF assms(3,1,2)] .
  note eff = HandleResolvedAddrs_effect [OF inv assms(1,4)]
  show ?thesis
    using eff(1-3) by (intro conjI eff(4)) blast+
qed

theorem resolved_addrs_followed_witness:
  "mget (addrToSc (HandleResolvedAddrs demo_env demo_ready [] None)) demo_addr = None \<and>
   (\<exists>new. bb_calls (HandleResolvedAddrs demo_env demo_ready [] None) = bb_calls demo_ready @ new \<and>
      RemoveSubConn 1 \<in> set new)"
proof -
  have pol: "Policy demo_cfg = RoundrobinBalanced"
    by (simp add: demo_cfg_def)
  have conn: "mget (addrToSc demo_ready) demo_addr = Some 1"
    by (simp add: demo_ready_def demo_defs Let_def)
  note eff = resolved_addrs_followed [OF demo_env_ok pol demo_reach refl, of "[]"]
  from eff have "mget (addrToSc (HandleResolvedAddrs demo_env demo_ready [] None)) demo_addr = None"
    by (metis empty_iff empty_set)
  moreover from eff conn have "\<exists>new. bb_calls (HandleResolvedAddrs demo_env demo_ready [] None) =
      bb_calls demo_ready @ new \<and> RemoveSubConn 1 \<in> set new"
    by (metis empty_iff empty_set)
  ultimately show ?thesis by blast
qed

end
