(* ===== verification/GoStrings.thy ===== *)
theory GoStrings
  imports Prelude "HOL-Library.Sublist" "HOL-Library.Char_ord"
begin

text \<open>
  The functions of Go's packages \<^verbatim>\<open>strings\<close> and \<^verbatim>\<open>fmt\<close> that the code uses, on strings as
  lists of bytes.
\<close>

section \<open>Prefixes and suffixes\<close>

definition HasPrefix :: "string \<Rightarrow> string \<Rightarrow> bool" where
  "HasPrefix s p \<longleftrightarrow> length p \<le> length s \<and> take (length p) s = p"

definition HasSuffix :: "string \<Rightarrow> string \<Rightarrow> bool" where
  "HasSuffix s p \<longleftrightarrow> length p \<le> length s \<and> drop (length s - length p) s = p"

definition TrimPrefix :: "string \<Rightarrow> string \<Rightarrow> string" where
  "TrimPrefix s p = (if HasPrefix s p then drop (length p) s else s)"

lemma HasPrefix_iff: "HasPrefix s p \<longleftrightarrow> (\<exists>t. s = p @ t)"
  unfolding HasPrefix_def by (metis append_eq_conv_conj append_take_drop_id length_append le_add1)

lemma HasSuffix_iff: "HasSuffix s p \<longleftrightarrow> (\<exists>t. s = t @ p)"
proof
  assume "HasSuffix s p"
  then have "s = take (length s - length p) s @ p" unfolding HasSuffix_def by (metis append_take_drop_id)
  then show "\<exists>t. s = t @ p" by blast
qed (auto simp: HasSuffix_def)

lemma HasPrefix_append [simp]: "HasPrefix (p @ t) p"
  by (simp add: HasPrefix_iff)

lemma TrimPrefix_append [simp]: "TrimPrefix (p @ t) p = t"
  by (simp add: TrimPrefix_def)

section \<open>Splitting at the first separator\<close>

text \<open>\<^verbatim>\<open>strings.SplitN(s, sep, 2)\<close> for a separator that is not empty.\<close>

fun split_first :: "string \<Rightarrow> string \<Rightarrow> (string \<times> string) option" where
  "split_first sep [] = None"
| "split_first sep (c # cs) =
     (if HasPrefix (c # cs) sep then Some ([], drop (length sep) (c # cs))
      else map_option (\<lambda>(a, b). (c # a, b)) (split_first sep cs))"

definition SplitN2 :: "string \<Rightarrow> string \<Rightarrow> string list" where
  "SplitN2 s sep = (case split_first sep s of None \<Rightarrow> [s] | Some (a, b) \<Rightarrow> [a, b])"

lemma split_first_Some: "split_first sep s = Some (a, b) \<Longrightarrow> s = a @ sep @ b"
proof (induction s arbitrary: a)
  case (Cons c cs)
  show ?case
  proof (cases "HasPrefix (c # cs) sep")
    case True
    with Cons.prems have "a = []" "b = drop (length sep) (c # cs)" by auto
    with True show ?thesis by (auto simp: HasPrefix_iff)
  qed (use Cons in auto)
qed simp

text \<open>A text without the separator's first byte is the first part.\<close>

lemma split_first_at:
  assumes "sep \<noteq> []" and "hd sep \<notin> set a"
  shows "split_first sep (a @ sep @ b) = Some (a, b)"
  using assms(2)
proof (induction a)
  case Nil
  obtain c cs where "sep = c # cs" using assms(1) by (cases sep) auto
  then show ?case by (simp add: HasPrefix_def)
next
  case (Cons c cs)
  have "\<not> HasPrefix (c # cs @ sep @ b) sep"
    using Cons.prems assms(1) by (auto simp: HasPrefix_iff neq_Nil_conv)
  with Cons show ?case by simp
qed

lemma split_first_None:
  "sep \<noteq> [] \<Longrightarrow> hd sep \<notin> set s \<Longrightarrow> split_first sep s = None"
proof (induction s)
  case (Cons c cs)
  then have "\<not> HasPrefix (c # cs) sep" by (auto simp: HasPrefix_iff neq_Nil_conv)
  with Cons show ?case by simp
qed simp

section \<open>Hexadecimal numbers\<close>

text \<open>\<^verbatim>\<open>fmt\<close>'s verb \<open>%x\<close> for an integer: lower-case digits, no leading zeros, a minus sign.\<close>

definition hex_digit :: "nat \<Rightarrow> char" where
  "hex_digit n = ''0123456789abcdef'' ! n"

fun hex_nat :: "nat \<Rightarrow> string" where
  "hex_nat n = (if n < 16 then [hex_digit n] else hex_nat (n div 16) @ [hex_digit (n mod 16)])"

declare hex_nat.simps [simp del]

definition hex_int :: "int \<Rightarrow> string" where
  "hex_int i = (if i < 0 then CHR ''-'' # hex_nat (nat (- i)) else hex_nat (nat i))"

lemma hex_digit_inj: "m < 16 \<Longrightarrow> n < 16 \<Longrightarrow> hex_digit m = hex_digit n \<longleftrightarrow> m = n"
  unfolding hex_digit_def by (rule nth_eq_iff_index_eq) simp_all

lemma hex_digit_mem: "n < 16 \<Longrightarrow> hex_digit n \<in> set ''0123456789abcdef''"
  unfolding hex_digit_def by (rule nth_mem) simp

lemma hex_nat_nonempty [simp]: "hex_nat n \<noteq> []" "[] \<noteq> hex_nat n"
  by (subst hex_nat.simps, simp)+

lemma hex_nat_inj: "hex_nat m = hex_nat n \<Longrightarrow> m = n"
proof (induction m arbitrary: n rule: hex_nat.induct)
  case (1 m)
  show ?case
  proof (cases "m < 16")
    case True
    then have "hex_nat n = [hex_digit m]" using 1(2) by (subst (asm) (1) hex_nat.simps) simp
    then show ?thesis
      using True by (subst (asm) hex_nat.simps) (auto simp: hex_digit_inj split: if_splits)
  next
    case False
    then have e: "hex_nat n = hex_nat (m div 16) @ [hex_digit (m mod 16)]"
      using 1(2) by (subst (asm) (1) hex_nat.simps) simp
    then have n: "\<not> n < 16" by (subst (asm) hex_nat.simps) (auto split: if_splits)
    with e have "hex_nat (n div 16) = hex_nat (m div 16)" "hex_digit (n mod 16) = hex_digit (m mod 16)"
      by (subst (asm) hex_nat.simps, simp)+
    then have "m div 16 = n div 16" "m mod 16 = n mod 16"
      using 1(1) [OF False, of "n div 16"] by (simp_all add: hex_digit_inj)
    then show ?thesis by (metis div_mult_mod_eq)
  qed
qed

lemma hex_nat_no_minus: "CHR ''-'' \<notin> set (hex_nat n)"
proof (induction n rule: hex_nat.induct)
  case (1 n)
  have d: "hex_digit k \<noteq> CHR ''-''" if "k < 16" for k
    using hex_digit_mem [OF that] by auto
  show ?case using 1 d [of n] d [of "n mod 16"] by (subst hex_nat.simps) auto
qed

lemma hex_int_inj: "hex_int i = hex_int j \<Longrightarrow> i = j"
proof -
  have h: "hex_nat m \<noteq> CHR ''-'' # s" for m s
    using hex_nat_no_minus [of m] by (metis list.set_intros(1))
  assume "hex_int i = hex_int j"
  then show "i = j"
    using h h [symmetric]
    by (cases "i < 0"; cases "j < 0") (auto simp: hex_int_def dest!: hex_nat_inj)
qed

end
