(* ===== verification/Resolver.thy ===== *)
theory Resolver
  imports Picker GoStrings
begin

text \<open>
  \<^verbatim>\<open>grpclient/balancer/resolver/resolver.go\<close>: targets and endpoints as strings, and the
  resolver groups, which tell the connections registered with them where the servers are.
  Pointers to groups and resolvers are indices into two heaps.
\<close>

section \<open>Targets\<close>

definition scheme :: string where "scheme = ''grpc-sp-endpoint''"

definition targetPrefix :: string where "targetPrefix = scheme @ ''://''"

definition Target :: "string \<Rightarrow> string \<Rightarrow> string" where
  "Target gid endpoint = scheme @ ''://'' @ gid @ ''/'' @ endpoint"

definition IsTarget :: "string \<Rightarrow> bool" where
  "IsTarget target = HasPrefix target ''endpoint://''"

datatype target_error =
    PrefixRequired string
  | ExpectedIdAndEndpoint string

definition ParseTarget :: "string \<Rightarrow> target_error + string \<times> string" where
  "ParseTarget target =
     (let noPrefix = TrimPrefix target targetPrefix
      in if noPrefix = target then Inl (PrefixRequired target)
         else (case SplitN2 noPrefix ''/'' of
             [gid, endpoint] \<Rightarrow> Inr (gid, endpoint)
           | _ \<Rightarrow> Inl (ExpectedIdAndEndpoint target)))"

lemma Target_prefix: "Target gid endpoint = targetPrefix @ gid @ ''/'' @ endpoint"
  by (simp add: Target_def targetPrefix_def)

lemma TrimPrefix_eq: "TrimPrefix t targetPrefix = t \<longleftrightarrow> \<not> HasPrefix t targetPrefix"
  by (auto simp: TrimPrefix_def HasPrefix_iff targetPrefix_def)

lemma split_first_slash:
  "split_first ''/'' s = Some (a, b) \<longleftrightarrow> s = a @ ''/'' @ b \<and> CHR ''/'' \<notin> set a"
proof
  assume *: "split_first ''/'' s = Some (a, b)"
  moreover have "CHR ''/'' \<notin> set a"
    using * by (induction s arbitrary: a) (auto simp: HasPrefix_def split: if_splits)
  ultimately show "s = a @ ''/'' @ b \<and> CHR ''/'' \<notin> set a" using split_first_Some [OF *] by simp
qed (use split_first_at [of "''/''" a b] in auto)

lemma SplitN2_pair: "SplitN2 s sep = [a, b] \<longleftrightarrow> split_first sep s = Some (a, b)"
  by (auto simp: SplitN2_def split: option.splits)

lemma SplitN2_cases: "(\<exists>a b. SplitN2 s sep = [a, b]) \<or> SplitN2 s sep = [s] \<and> split_first sep s = None"
  by (auto simp: SplitN2_def split: option.splits)

lemma ParseTarget_ok:
  "ParseTarget target = Inr (gid, endpoint) \<longleftrightarrow> target = Target gid endpoint \<and> CHR ''/'' \<notin> set gid"
proof (cases "HasPrefix target targetPrefix")
  case True
  then obtain rest where t: "target = targetPrefix @ rest" by (auto simp: HasPrefix_iff)
  have "ParseTarget target = Inr (gid, endpoint) \<longleftrightarrow> SplitN2 rest ''/'' = [gid, endpoint]"
    using t TrimPrefix_eq [of target] True SplitN2_cases [of rest "''/''"] by (auto simp: ParseTarget_def)
  also have "\<dots> \<longleftrightarrow> rest = gid @ ''/'' @ endpoint \<and> CHR ''/'' \<notin> set gid"
    by (simp only: SplitN2_pair split_first_slash)
  finally show ?thesis by (simp add: t Target_prefix)
next
  case False
  then have "target \<noteq> Target gid endpoint" by (auto simp: HasPrefix_iff Target_prefix)
  with False TrimPrefix_eq [of target] show ?thesis by (simp add: ParseTarget_def)
qed

text \<open>
  C40 (roundtrip).  \<^verbatim>\<open>ParseTarget\<close> inverts \<^verbatim>\<open>Target\<close> for identifiers without a slash: it returns an
  identifier and an endpoint exactly for the text that \<^verbatim>\<open>Target\<close> makes from them, grpc-sp-endpoint://id/endpoint,
  when the identifier holds no slash, and it fails for every other text.  (From an
  identifier with a slash \<^verbatim>\<open>Target\<close> makes a text that parses to another pair; the
  comment of \<^verbatim>\<open>ParseTarget\<close> names the prefix endpoint:// of an older scheme.)
\<close>

theorem ParseTarget_inverse:
  "ParseTarget target = Inr (gid, endpoint) \<longleftrightarrow> target = Target gid endpoint \<and> CHR ''/'' \<notin> set gid"
  by (rule ParseTarget_ok)

theorem ParseTarget_inverse_witness:
  "ParseTarget (Target ''client-u'' ''h1:1'') = Inr (''client-u'', ''h1:1'') \<and>
   ParseTarget (Target ''a/b'' ''c'') = Inr (''a'', ''b/c'') \<and>
   ParseTarget (Target ''a/b'' ''c'') \<noteq> Inr (''a/b'', ''c'') \<and>
   (\<exists>e. ParseTarget ''endpoint://client-u/h1:1'' = Inl e)"
proof (intro conjI)
  have "CHR ''/'' \<notin> set ''client-u''" by simp
  then show "ParseTarget (Target ''client-u'' ''h1:1'') = Inr (''client-u'', ''h1:1'')"
    using ParseTarget_inverse [of "Target ''client-u'' ''h1:1''" "''client-u''" "''h1:1''"] by simp
  have "Target ''a/b'' ''c'' = Target ''a'' ''b/c''" by (simp add: Target_def)
  then show "ParseTarget (Target ''a/b'' ''c'') = Inr (''a'', ''b/c'')"
    using ParseTarget_inverse [of "Target ''a/b'' ''c''" "''a''" "''b/c''"] by simp
  show "ParseTarget (Target ''a/b'' ''c'') \<noteq> Inr (''a/b'', ''c'')"
    using ParseTarget_inverse [of "Target ''a/b'' ''c''" "''a/b''" "''c''"] by simp
  have "\<not> (\<exists>gid ep. ''endpoint://client-u/h1:1'' = Target gid ep)" by (simp add: Target_def scheme_def)
  then show "\<exists>e. ParseTarget ''endpoint://client-u/h1:1'' = Inl e"
    using ParseTarget_inverse [of "''endpoint://client-u/h1:1''"] by (cases "ParseTarget ''endpoint://client-u/h1:1''") auto
qed

text \<open>
  \<^verbatim>\<open>IsTarget\<close> looks for the prefix of another scheme: it rejects every text that
  \<^verbatim>\<open>Target\<close> makes and every text that \<^verbatim>\<open>ParseTarget\<close> accepts.
\<close>

theorem IsTarget_rejects_targets:
  "\<not> IsTarget (Target gid endpoint) \<and> (IsTarget target \<longrightarrow> (\<exists>e. ParseTarget target = Inl e))"
proof -
  have "\<not> IsTarget (Target gid endpoint)" for gid endpoint
    by (simp add: IsTarget_def HasPrefix_def Target_def scheme_def)
  moreover from this have "\<exists>e. ParseTarget target = Inl e" if "IsTarget target"
    using that ParseTarget_ok [of target] by (metis old.prod.exhaust sumE)
  ultimately show ?thesis by blast
qed

section \<open>Endpoints\<close>

text \<open>
  What \<^verbatim>\<open>ParseEndpoint\<close> uses of \<^verbatim>\<open>net/url\<close>: the parser is the parameter \<open>parse\<close>, None standing
  for its error.  \<^verbatim>\<open>Dialer\<close> hands the protocol and the host to \<open>dial\<close>, which stands for
  \<^verbatim>\<open>net.Dialer\<close> with the context's deadline.
\<close>

record url =
  u_Scheme :: string
  u_Host :: string
  u_Path :: string

definition contains :: "string \<Rightarrow> string \<Rightarrow> bool" where
  "contains s sub = sublist sub s"

definition ParseEndpoint :: "(string \<Rightarrow> url option) \<Rightarrow> string \<Rightarrow> string \<times> string \<times> string" where
  "ParseEndpoint parse endpoint =
     (case parse endpoint of
        None \<Rightarrow> (''tcp'', endpoint, '''')
      | Some u \<Rightarrow>
          if \<not> contains endpoint ''://'' then (''tcp'', endpoint, '''')
          else if u_Scheme u \<in> {''http'', ''https''} then (''tcp'', u_Host u, u_Scheme u)
          else if u_Scheme u \<in> {''unix'', ''unixs''} then (''unix'', u_Host u @ u_Path u, u_Scheme u)
          else ('''', '''', u_Scheme u))"

definition Dialer ::
    "(string \<Rightarrow> url option) \<Rightarrow> (string \<Rightarrow> string \<Rightarrow> 'err + 'conn) \<Rightarrow> 'err option \<Rightarrow> string \<Rightarrow> 'err + 'conn" where
  "Dialer parse dial ctxErr dialEp =
     (let (proto, host, _) = ParseEndpoint parse dialEp
      in case ctxErr of Some e \<Rightarrow> Inl e | None \<Rightarrow> dial proto host)"

definition epsToAddrs :: "string list \<Rightarrow> Address list" where
  "epsToAddrs eps = map (\<lambda>ep. \<lparr>Addr = ep, AType = Backend\<rparr>) eps"

section \<open>Resolver groups\<close>

text \<open>
  A resolver's connection \<^verbatim>\<open>cc\<close> is known by the address lists it was given, oldest first.
\<close>

record ResolverGroup =
  g_id :: string
  endpoints :: "string list"
  resolvers :: "nat list"

record Resolver =
  endpointID :: string
  cc_told :: "Address list list"

record rworld =
  resolverGroups :: "(string, nat) gomap"
  groups :: "ResolverGroup list"
  objs :: "Resolver list"

definition rinit :: rworld where
  "rinit = \<lparr>resolverGroups = [], groups = [], objs = []\<rparr>"

definition NewAddress :: "Address list \<Rightarrow> rworld \<Rightarrow> nat \<Rightarrow> rworld" where
  "NewAddress addrs W r = W\<lparr>objs := (objs W)[r := (objs W ! r)\<lparr>cc_told := cc_told (objs W ! r) @ [addrs]\<rparr>]\<rparr>"

text \<open>\<^verbatim>\<open>addResolver\<close> tells the connection after it has let the group's mutex go.\<close>

definition addResolver_locked :: "nat \<Rightarrow> nat \<Rightarrow> rworld \<Rightarrow> Address list \<times> rworld" where
  "addResolver_locked g r W =
     (let e = groups W ! g
      in (epsToAddrs (endpoints e),
          W\<lparr>groups := (groups W)[g := e\<lparr>resolvers := resolvers e @ [r]\<rparr>]\<rparr>))"

definition addResolver :: "nat \<Rightarrow> nat \<Rightarrow> rworld \<Rightarrow> rworld" where
  "addResolver g r W = (let (addrs, W) = addResolver_locked g r W in NewAddress addrs W r)"

definition removeResolver :: "nat \<Rightarrow> nat \<Rightarrow> rworld \<Rightarrow> rworld" where
  "removeResolver g r W =
     (let e = groups W ! g in W\<lparr>groups := (groups W)[g := e\<lparr>resolvers := remove1 r (resolvers e)\<rparr>]\<rparr>)"

definition SetEndpoints :: "nat \<Rightarrow> string list \<Rightarrow> rworld \<Rightarrow> rworld" where
  "SetEndpoints g eps W =
     (let addrs = epsToAddrs eps;
          e = groups W ! g
      in foldl (NewAddress addrs) (W\<lparr>groups := (groups W)[g := e\<lparr>endpoints := eps\<rparr>]\<rparr>) (resolvers e))"

definition Group_Target :: "nat \<Rightarrow> string \<Rightarrow> rworld \<Rightarrow> string" where
  "Group_Target g endpoint W = Target (g_id (groups W ! g)) endpoint"

datatype resolver_error =
    EmptyAuthority
  | AlreadyExists string
  | NotFound string
  | FailedToBuild resolver_error

definition getResolverGroup :: "string \<Rightarrow> rworld \<Rightarrow> resolver_error + nat" where
  "getResolverGroup gid W =
     (case mget (resolverGroups W) gid of None \<Rightarrow> Inl (NotFound gid) | Some g \<Rightarrow> Inr g)"

text \<open>\<^verbatim>\<open>newResolverGroup\<close> looks and stores under the lock separately.\<close>

definition group_exists :: "string \<Rightarrow> rworld \<Rightarrow> bool" where
  "group_exists gid W \<longleftrightarrow> mget (resolverGroups W) gid \<noteq> None"

definition store_group :: "string \<Rightarrow> rworld \<Rightarrow> nat \<times> rworld" where
  "store_group gid W =
     (let g = length (groups W)
      in (g, W\<lparr>groups := groups W @ [\<lparr>g_id = gid, endpoints = [], resolvers = []\<rparr>],
               resolverGroups := mput gid g (resolverGroups W)\<rparr>))"

definition newResolverGroup :: "string \<Rightarrow> rworld \<Rightarrow> (resolver_error + nat) \<times> rworld" where
  "newResolverGroup gid W =
     (if group_exists gid W then (Inl (AlreadyExists gid), W)
      else let (g, W) = store_group gid W in (Inr g, W))"

definition close_group :: "string \<Rightarrow> rworld \<Rightarrow> rworld" where
  "close_group gid W = W\<lparr>resolverGroups := mdel gid (resolverGroups W)\<rparr>"

definition Group_Close :: "nat \<Rightarrow> rworld \<Rightarrow> rworld" where
  "Group_Close g W = close_group (g_id (groups W ! g)) W"

definition Build_resolver :: "string \<Rightarrow> rworld \<Rightarrow> (resolver_error + nat) \<times> rworld" where
  "Build_resolver authority W =
     (if length authority < 1 then (Inl EmptyAuthority, W)
      else case getResolverGroup authority W of
          Inl err \<Rightarrow> (Inl (FailedToBuild err), W)
        | Inr es \<Rightarrow>
            (let r = length (objs W);
                 W = W\<lparr>objs := objs W @ [\<lparr>endpointID = authority, cc_told = []\<rparr>]\<rparr>
             in (Inr r, addResolver es r W)))"

definition Resolver_Close :: "nat \<Rightarrow> rworld \<Rightarrow> rworld" where
  "Resolver_Close r W =
     (case getResolverGroup (endpointID (objs W ! r)) W of
        Inl _ \<Rightarrow> W
      | Inr es \<Rightarrow> removeResolver es r W)"

text \<open>Everything a program can do with the package, one call after the other.\<close>

datatype rop =
    NewGroup string
  | CloseGroup nat
  | SetGroupEndpoints nat "string list"
  | BuildResolver string
  | CloseResolver nat

fun rop_ok :: "rop \<Rightarrow> rworld \<Rightarrow> bool" where
  "rop_ok (CloseGroup g) W = (g < length (groups W))"
| "rop_ok (SetGroupEndpoints g eps) W = (g < length (groups W))"
| "rop_ok (CloseResolver r) W = (r < length (objs W))"
| "rop_ok _ W = True"

fun run_rop :: "rop \<Rightarrow> rworld \<Rightarrow> rworld" where
  "run_rop (NewGroup gid) W = snd (newResolverGroup gid W)"
| "run_rop (CloseGroup g) W = Group_Close g W"
| "run_rop (SetGroupEndpoints g eps) W = SetEndpoints g eps W"
| "run_rop (BuildResolver a) W = snd (Build_resolver a W)"
| "run_rop (CloseResolver r) W = Resolver_Close r W"

inductive rreach :: "rworld \<Rightarrow> bool" where
  rreach_init: "rreach rinit"
| rreach_op: "rreach W \<Longrightarrow> rop_ok p W \<Longrightarrow> rreach (run_rop p W)"

section \<open>Every registered resolver is up to date\<close>

text \<open>
  \<open>follows W r addrs\<close>: the last thing the resolver's connection was told is \<open>addrs\<close>.
\<close>

definition follows :: "rworld \<Rightarrow> nat \<Rightarrow> Address list \<Rightarrow> bool" where
  "follows W r addrs \<longleftrightarrow> cc_told (objs W ! r) \<noteq> [] \<and> last (cc_told (objs W ! r)) = addrs"

definition group_ok :: "rworld \<Rightarrow> ResolverGroup \<Rightarrow> bool" where
  "group_ok W e \<longleftrightarrow> distinct (resolvers e) \<and>
     (\<forall>r \<in> set (resolvers e). r < length (objs W) \<and> endpointID (objs W ! r) = g_id e \<and>
        follows W r (epsToAddrs (endpoints e)))"

definition winv :: "rworld \<Rightarrow> bool" where
  "winv W \<longleftrightarrow>
     (\<forall>gid g. mget (resolverGroups W) gid = Some g \<longrightarrow> g < length (groups W) \<and> g_id (groups W ! g) = gid) \<and>
     (\<forall>g < length (groups W). group_ok W (groups W ! g)) \<and>
     (\<forall>g g' r. g < length (groups W) \<longrightarrow> g' < length (groups W) \<longrightarrow>
        r \<in> set (resolvers (groups W ! g)) \<longrightarrow> r \<in> set (resolvers (groups W ! g')) \<longrightarrow> g = g')"

lemma NewAddress_simps [simp]:
  "resolverGroups (NewAddress addrs W r) = resolverGroups W" "groups (NewAddress addrs W r) = groups W"
  "length (objs (NewAddress addrs W r)) = length (objs W)"
  by (simp_all add: NewAddress_def)

lemma NewAddress_objs:
  "r < length (objs W) \<Longrightarrow> objs (NewAddress addrs W r) ! r' =
    (if r' = r then (objs W ! r)\<lparr>cc_told := cc_told (objs W ! r) @ [addrs]\<rparr> else objs W ! r')"
  by (simp add: NewAddress_def nth_list_update)

lemma tell_all:
  fixes addrs :: "Address list"
  assumes "\<forall>r \<in> set rs. r < length (objs W)" and "distinct rs"
  defines "W' \<equiv> foldl (NewAddress addrs) W rs"
  shows "resolverGroups W' = resolverGroups W \<and> groups W' = groups W \<and> length (objs W') = length (objs W) \<and>
    (\<forall>r. objs W' ! r = (if r \<in> set rs then (objs W ! r)\<lparr>cc_told := cc_told (objs W ! r) @ [addrs]\<rparr> else objs W ! r))"
  unfolding W'_def using assms(1,2)
proof (induction rs arbitrary: W)
  case (Cons r rs)
  from Cons.IH [of "NewAddress addrs W r"] Cons.prems show ?case
    by (auto simp: NewAddress_objs)
qed simp

lemma winvD:
  assumes "winv W"
  shows "mget (resolverGroups W) gid = Some g \<Longrightarrow> g < length (groups W) \<and> g_id (groups W ! g) = gid"
    and "g < length (groups W) \<Longrightarrow> group_ok W (groups W ! g)"
    and "g < length (groups W) \<Longrightarrow> g' < length (groups W) \<Longrightarrow> r \<in> set (resolvers (groups W ! g)) \<Longrightarrow>
      r \<in> set (resolvers (groups W ! g')) \<Longrightarrow> g = g'"
  using assms unfolding winv_def by blast+

lemma SetEndpoints_spec:
  assumes "winv W" and "g < length (groups W)"
  shows "resolverGroups (SetEndpoints g eps W) = resolverGroups W"
    and "groups (SetEndpoints g eps W) = (groups W)[g := (groups W ! g)\<lparr>endpoints := eps\<rparr>]"
    and "length (objs (SetEndpoints g eps W)) = length (objs W)"
    and "objs (SetEndpoints g eps W) ! r =
      (if r \<in> set (resolvers (groups W ! g))
       then (objs W ! r)\<lparr>cc_told := cc_told (objs W ! r) @ [epsToAddrs eps]\<rparr> else objs W ! r)"
proof -
  have "group_ok W (groups W ! g)" using assms by (rule winvD(2))
  then show "resolverGroups (SetEndpoints g eps W) = resolverGroups W"
    and "groups (SetEndpoints g eps W) = (groups W)[g := (groups W ! g)\<lparr>endpoints := eps\<rparr>]"
    and "length (objs (SetEndpoints g eps W)) = length (objs W)"
    and "objs (SetEndpoints g eps W) ! r =
      (if r \<in> set (resolvers (groups W ! g))
       then (objs W ! r)\<lparr>cc_told := cc_told (objs W ! r) @ [epsToAddrs eps]\<rparr> else objs W ! r)"
    using tell_all [of "resolvers (groups W ! g)" "W\<lparr>groups := (groups W)[g := (groups W ! g)\<lparr>endpoints := eps\<rparr>]\<rparr>"
        "epsToAddrs eps"]
    by (simp_all add: SetEndpoints_def Let_def group_ok_def)
qed

lemma winv_SetEndpoints:
  assumes "winv W" and "g < length (groups W)"
  shows "winv (SetEndpoints g eps W)"
proof -
  let ?W = "SetEndpoints g eps W"
  note spec = SetEndpoints_spec [OF assms]
  have "group_ok ?W (groups ?W ! g')" if g': "g' < length (groups W)" for g'
  proof (cases "g' = g")
    case True
    with winvD(2) [OF assms] g' show ?thesis
      by (auto simp: spec group_ok_def follows_def)
  next
    case False
    then have "r \<notin> set (resolvers (groups W ! g))" if "r \<in> set (resolvers (groups W ! g'))" for r
      using winvD(3) [OF assms(1) g' assms(2) that] by blast
    with winvD(2) [OF assms(1) g'] False show ?thesis
      by (auto simp: spec group_ok_def follows_def)
  qed
  moreover have "resolvers (groups ?W ! j) = resolvers (groups W ! j)" "g_id (groups ?W ! j) = g_id (groups W ! j)" for j
    by (cases "j < length (groups W)"; cases "j = g"; simp add: spec assms(2))+
  ultimately show ?thesis
    using assms(1) unfolding winv_def by (simp add: spec)
qed

lemma winv_Group_Close: "winv W \<Longrightarrow> winv (Group_Close g W)"
  unfolding winv_def by (auto simp: Group_Close_def close_group_def go_map_simps group_ok_def follows_def)

lemma winv_store_group:
  assumes "winv W"
  shows "winv (snd (store_group gid W))"
  using assms unfolding winv_def
  by (auto simp: store_group_def Let_def go_map_simps group_ok_def follows_def nth_append less_Suc_eq)

lemma winv_newResolverGroup: "winv W \<Longrightarrow> winv (snd (newResolverGroup gid W))"
  using winv_store_group [of W gid] by (auto simp: newResolverGroup_def split: prod.splits)

lemma winv_removeResolver:
  assumes "winv W" and g: "g < length (groups W)"
  shows "winv (removeResolver g r W)"
proof -
  have "distinct (resolvers (groups W ! g))" using winvD(2) [OF assms] by (simp add: group_ok_def)
  then have "set (remove1 r (resolvers (groups W ! g))) \<subseteq> set (resolvers (groups W ! g))"
    by (simp add: set_remove1_subset)
  with assms \<open>distinct _\<close> show ?thesis
    unfolding winv_def
    by (auto simp: removeResolver_def Let_def group_ok_def follows_def nth_list_update distinct_remove1)
qed

lemma winv_Resolver_Close: "winv W \<Longrightarrow> winv (Resolver_Close r W)"
  using winvD(1) [of W] winv_removeResolver [of W]
  by (auto simp: Resolver_Close_def getResolverGroup_def split: option.splits)

lemma Build_resolver_spec:
  assumes "winv W" and "a \<noteq> ''''" and m: "mget (resolverGroups W) a = Some g"
  defines "r \<equiv> length (objs W)"
  shows "Build_resolver a W = (Inr r, W\<lparr>groups := (groups W)[g := (groups W ! g)\<lparr>resolvers := resolvers (groups W ! g) @ [r]\<rparr>],
    objs := objs W @ [\<lparr>endpointID = a, cc_told = [epsToAddrs (endpoints (groups W ! g))]\<rparr>]\<rparr>)"
  using assms(2) m
  by (simp add: Build_resolver_def getResolverGroup_def addResolver_def addResolver_locked_def Let_def
      NewAddress_def r_def)

lemma winv_Build_resolver:
  assumes "winv W"
  shows "winv (snd (Build_resolver a W))"
proof (cases "a \<noteq> '''' \<and> mget (resolverGroups W) a \<noteq> None")
  case True
  then obtain g where a: "a \<noteq> ''''" and m: "mget (resolverGroups W) a = Some g" by blast
  note g = winvD(1) [OF assms m]
  have fresh: "length (objs W) \<notin> set (resolvers (groups W ! j))" if "j < length (groups W)" for j
    using winvD(2) [OF assms that] by (auto simp: group_ok_def)
  show ?thesis
    unfolding Build_resolver_spec [OF assms a m] snd_conv
    using assms g fresh unfolding winv_def
    by (auto simp: group_ok_def follows_def nth_append nth_list_update intro: less_SucI)
next
  case False
  with assms show ?thesis by (auto simp: Build_resolver_def getResolverGroup_def)
qed

lemma rreach_winv: "rreach W \<Longrightarrow> winv W"
proof (induction rule: rreach.induct)
  case rreach_init
  show ?case by (simp add: winv_def rinit_def)
next
  case (rreach_op W p)
  then show ?case
    by (cases p) (auto intro: winv_newResolverGroup winv_Group_Close winv_SetEndpoints winv_Build_resolver
        winv_Resolver_Close)
qed

text \<open>
  C13 (invariant).  Whatever sequence of calls a program makes, every resolver registered with
  a group was last told exactly the group's current endpoints, carries the group's
  identifier, and is registered with no other group.
\<close>

theorem registered_resolvers_current:
  assumes "rreach W" and "g < length (groups W)" and "r \<in> set (resolvers (groups W ! g))"
  shows "follows W r (epsToAddrs (endpoints (groups W ! g))) \<and>
    endpointID (objs W ! r) = g_id (groups W ! g) \<and>
    (\<forall>g' < length (groups W). r \<in> set (resolvers (groups W ! g')) \<longrightarrow> g' = g)"
  using winvD [OF rreach_winv [OF assms(1)]] assms(2,3) unfolding group_ok_def by blast

definition demo_rops :: "rop list" where
  "demo_rops = [NewGroup ''c'', SetGroupEndpoints 0 [''h1''], BuildResolver ''c'', SetGroupEndpoints 0 [''h2'', ''h3'']]"

definition demo_world :: rworld where
  "demo_world = fold run_rop demo_rops rinit"

lemma demo_world_reach: "rreach demo_world"
proof -
  have "rop_ok (SetGroupEndpoints 0 [''h1'']) (run_rop (NewGroup ''c'') rinit)"
    "rop_ok (SetGroupEndpoints 0 [''h2'', ''h3'']) (run_rop (BuildResolver ''c'')
      (run_rop (SetGroupEndpoints 0 [''h1'']) (run_rop (NewGroup ''c'') rinit)))" by code_simp+
  then show ?thesis
    by (simp add: demo_world_def demo_rops_def rreach.intros del: run_rop.simps rop_ok.simps(2))
qed

lemma registered_resolvers_current_witness:
  "follows demo_world 0 (epsToAddrs [''h2'', ''h3'']) \<and> endpointID (objs demo_world ! 0) = ''c''"
proof -
  have 1: "0 < length (groups demo_world)" "0 \<in> set (resolvers (groups demo_world ! 0))" by code_simp+
  have 2: "endpoints (groups demo_world ! 0) = [''h2'', ''h3'']" "g_id (groups demo_world ! 0) = ''c''" by code_simp+
  from registered_resolvers_current [OF demo_world_reach 1] 2 show ?thesis by simp
qed

text \<open>
  The life of a resolver: building one for a registered group tells its
  connection the group's endpoints, every later \<^verbatim>\<open>SetEndpoints\<close> tells it the new ones, and
  after its \<^verbatim>\<open>Close\<close> it is told nothing more.
\<close>

theorem resolver_life:
  assumes "rreach W" and "a \<noteq> ''''" and "getResolverGroup a W = Inr g"
  shows "\<exists>r W'. Build_resolver a W = (Inr r, W') \<and>
    cc_told (objs W' ! r) = [epsToAddrs (endpoints (groups W ! g))] \<and>
    cc_told (objs (SetEndpoints g eps W') ! r) = [epsToAddrs (endpoints (groups W ! g)), epsToAddrs eps] \<and>
    cc_told (objs (SetEndpoints g eps (Resolver_Close r W')) ! r) = [epsToAddrs (endpoints (groups W ! g))]"
proof -
  have m: "mget (resolverGroups W) a = Some g"
    using assms(3) by (simp add: getResolverGroup_def split: option.splits)
  have inv: "winv W" using assms(1) by (rule rreach_winv)
  note g = winvD(1) [OF inv m]
  let ?r = "length (objs W)"
  obtain W' where b: "Build_resolver a W = (Inr ?r, W')"
    and W': "W' = W\<lparr>groups := (groups W)[g := (groups W ! g)\<lparr>resolvers := resolvers (groups W ! g) @ [?r]\<rparr>],
      objs := objs W @ [\<lparr>endpointID = a, cc_told = [epsToAddrs (endpoints (groups W ! g))]\<rparr>]\<rparr>"
    using Build_resolver_spec [OF inv assms(2) m] by blast
  have inv': "winv W'" using winv_Build_resolver [OF inv, of a] b by simp
  have close: "Resolver_Close ?r W' = removeResolver g ?r W'"
    using m by (simp add: W' Resolver_Close_def getResolverGroup_def)
  have "distinct (resolvers (groups W' ! g))" using winvD(2) [OF inv', of g] g by (simp add: W' group_ok_def)
  then have "?r \<notin> set (resolvers (groups (removeResolver g ?r W') ! g))"
    using g by (simp add: removeResolver_def Let_def W')
  moreover have "winv (removeResolver g ?r W')" using winv_removeResolver [OF inv', of g] g by (simp add: W')
  ultimately have "cc_told (objs (SetEndpoints g eps (Resolver_Close ?r W')) ! ?r) = cc_told (objs W' ! ?r)"
    using g by (simp add: close SetEndpoints_spec(4)) (simp add: removeResolver_def Let_def W' SetEndpoints_spec(4))
  moreover have "cc_told (objs (SetEndpoints g eps W') ! ?r) = cc_told (objs W' ! ?r) @ [epsToAddrs eps]"
    using SetEndpoints_spec(4) [OF inv', of g eps ?r] g by (simp add: W')
  ultimately show ?thesis using b by (simp add: W')
qed

lemma resolver_life_witness:
  "\<exists>r W'. Build_resolver ''c'' demo_world = (Inr r, W') \<and>
    cc_told (objs (SetEndpoints 0 [''h4''] W') ! r) = [epsToAddrs [''h2'', ''h3''], epsToAddrs [''h4'']]"
proof -
  have "getResolverGroup ''c'' demo_world = Inr 0" "endpoints (groups demo_world ! 0) = [''h2'', ''h3'']" by code_simp+
  with resolver_life [OF demo_world_reach _ this(1), of "[''h4'']"] show ?thesis by fastforce
qed

section \<open>A race\<close>

text \<open>
  A \<^verbatim>\<open>SetEndpoints\<close> that runs between the critical section of \<^verbatim>\<open>addResolver\<close> and
  its notification is overwritten: the new resolver stays registered, but the last thing its
  connection was told is the old list.
\<close>

theorem concurrent_build_keeps_old_endpoints:
  assumes "g < length (groups W)" and "r < length (objs W)"
    and "addResolver_locked g r W = (addrs, W1)" and "W2 = NewAddress addrs (SetEndpoints g eps W1) r"
  shows "r \<in> set (resolvers (groups W2 ! g)) \<and> endpoints (groups W2 ! g) = eps \<and>
    follows W2 r (epsToAddrs (endpoints (groups W ! g)))"
proof -
  have keep: "groups (foldl (NewAddress as) V rs) = groups V \<and> length (objs (foldl (NewAddress as) V rs)) = length (objs V)"
    for as V rs by (induction rs arbitrary: V) simp_all
  have len: "r < length (objs (SetEndpoints g eps W1))" "addrs = epsToAddrs (endpoints (groups W ! g))"
    using assms(2,3) by (auto simp: SetEndpoints_def Let_def keep addResolver_locked_def)
  have "groups W2 ! g = (groups W1 ! g)\<lparr>endpoints := eps\<rparr>"
    using assms(1,3,4) by (auto simp: SetEndpoints_def Let_def keep addResolver_locked_def)
  moreover have "r \<in> set (resolvers (groups W1 ! g))"
    using assms(1,3) by (auto simp: addResolver_locked_def Let_def)
  ultimately show ?thesis using len assms(4) by (simp add: follows_def NewAddress_objs)
qed

lemma concurrent_build_keeps_old_endpoints_witness:
  "\<exists>W. 1 \<in> set (resolvers (groups W ! 0)) \<and> endpoints (groups W ! 0) = [''h4''] \<and> follows W 1 (epsToAddrs [''h2'', ''h3''])"
proof -
  let ?W = "demo_world\<lparr>objs := objs demo_world @ [\<lparr>endpointID = ''c'', cc_told = []\<rparr>]\<rparr>"
  have "0 < length (groups ?W)" "1 < length (objs ?W)" "endpoints (groups ?W ! 0) = [''h2'', ''h3'']" by code_simp+
  with concurrent_build_keeps_old_endpoints [of 0 ?W 1 _ _ _ "[''h4'']"] show ?thesis
    by (cases "addResolver_locked 0 1 ?W") metis
qed

end
