(* ===== verification/BalancerText.thy ===== *)
theory BalancerText
  imports Balancer Resolver "HOL-Library.List_Lexorder"
begin

text \<open>
  The remaining functions of \<^verbatim>\<open>grpclient/balancer/balancer.go\<close>: the printing of addresses and
  sub-connections, the balancer's variant of \<^verbatim>\<open>epsToAddrs\<close>, and the generated names.
\<close>

section \<open>Printing\<close>

text \<open>A sub-connection is printed as its pointer.\<close>

definition scToString :: "SubConn \<Rightarrow> string" where
  "scToString sc = ''0x'' @ hex_nat (unat sc)"

text \<open>The map is read in the order \<open>range\<close> gives.\<close>

definition scsToStrings ::
    "((SubConn \<times> Address) list \<Rightarrow> (SubConn \<times> Address) list) \<Rightarrow> (SubConn, Address) gomap \<Rightarrow> string list" where
  "scsToStrings rng scs = sort (map (\<lambda>(sc, a). Addr a @ '' ('' @ scToString sc @ '')'') (rng scs))"

definition addrsToStrings :: "Address list \<Rightarrow> string list" where
  "addrsToStrings addrs = sort (map Addr addrs)"

section \<open>Endpoints and names\<close>

definition balancer_epsToAddrs :: "(string \<Rightarrow> url option) \<Rightarrow> string list \<Rightarrow> Address list" where
  "balancer_epsToAddrs parse eps =
     map (\<lambda>ep. case parse ep of
         None \<Rightarrow> \<lparr>Addr = ep, AType = Backend\<rparr>
       | Some u \<Rightarrow> \<lparr>Addr = u_Host u, AType = Backend\<rparr>) eps"

text \<open>\<^verbatim>\<open>fmt\<close>'s verb \<open>%X\<close>; the counter is a 32-bit number that is incremented atomically.\<close>

definition upper :: "char \<Rightarrow> char" where
  "upper c = (if c \<in> set ''abcdef'' then char_of (of_char c - 32 :: nat) else c)"

definition hex_upper :: "nat \<Rightarrow> string" where
  "hex_upper n = map upper (hex_nat n)"

definition genName :: "nat \<Rightarrow> 32 word \<Rightarrow> string \<times> 32 word" where
  "genName now genN = (let genN = genN + 1 in (hex_upper now @ hex_upper (unat genN), genN))"

definition builder_Name :: "balConfig \<Rightarrow> string" where
  "builder_Name cfg = Name cfg"

section \<open>What is printed\<close>

lemma last_part:
  "c \<notin> set y \<Longrightarrow> c \<notin> set y' \<Longrightarrow> x @ c # y = x' @ c # y' \<Longrightarrow> y = y'"
  by (induction x arbitrary: x') (auto simp: append_eq_Cons_conv Cons_eq_append_conv)

lemma hex_nat_plain: "CHR ''('' \<notin> set (hex_nat n)"
proof (induction n rule: hex_nat.induct)
  case (1 n)
  have d: "hex_digit k \<noteq> CHR ''(''" if "k < 16" for k
    using hex_digit_mem [OF that] by auto
  show ?case using 1 d [of n] d [of "n mod 16"] by (subst hex_nat.simps) auto
qed

lemma printed_inj:
  assumes "a @ '' ('' @ scToString sc @ '')'' = a' @ '' ('' @ scToString sc' @ '')''"
  shows "sc = sc'"
proof -
  have "scToString sc @ '')'' = scToString sc' @ '')''"
    using assms last_part [of "CHR ''(''" "scToString sc @ '')''" "scToString sc' @ '')''" "a @ '' ''" "a' @ '' ''"]
    by (simp add: scToString_def hex_nat_plain)
  then have "hex_nat (unat sc) = hex_nat (unat sc')" by (simp add: scToString_def)
  then have "unat sc = unat sc'" by (rule hex_nat_inj)
  then show ?thesis by (rule word_unat_eq_iff [THEN iffD2])
qed

text \<open>
  The printed sub-connections do not depend on the order in which the runtime
  ranges over the map, they are sorted, and there is one line for every sub-connection, with
  no two equal.
\<close>

theorem scsToStrings_canonical:
  assumes "gomap_ok scs" and "mset (rng scs) = mset scs"
  shows "scsToStrings rng scs = scsToStrings (\<lambda>m. m) scs \<and> sorted (scsToStrings rng scs) \<and>
    distinct (scsToStrings rng scs) \<and> length (scsToStrings rng scs) = length scs"
proof -
  let ?f = "\<lambda>(sc, a). Addr a @ '' ('' @ scToString sc @ '')''"
  have perm: "mset (map ?f (rng scs)) = mset (map ?f scs)" using assms(2) by simp
  then have "sort (map ?f (rng scs)) = sort (map ?f scs)"
    by (intro properties_for_sort) simp_all
  moreover have "inj_on ?f (set scs)"
    using assms(1) printed_inj by (auto simp: inj_on_def) (metis eq_key_imp_eq_value)+
  then have "distinct (map ?f scs)"
    using assms(1) by (simp add: distinct_map)
  ultimately show ?thesis by (simp add: scsToStrings_def)
qed

lemma scsToStrings_canonical_witness:
  "scsToStrings List.rev [(1, \<lparr>Addr = ''b'', AType = Backend\<rparr>), (2, \<lparr>Addr = ''a'', AType = Backend\<rparr>)] =
    scsToStrings (\<lambda>m. m) [(1, \<lparr>Addr = ''b'', AType = Backend\<rparr>), (2, \<lparr>Addr = ''a'', AType = Backend\<rparr>)]"
  by (rule scsToStrings_canonical [THEN conjunct1]) simp_all

end
