(* ===== verification/WatchPB.thy ===== *)
theory WatchPB
  imports Prelude
begin

text \<open>
  The messages of \<^verbatim>\<open>watchpb/watchpb.proto\<close> as the generated Go code declares them
  (\<^verbatim>\<open>watchpb/watchpb.pb.go\<close>), and the errors of the gRPC layer.  A pointer field that may
  be nil is an option.  The serialisation code that the protobuf compiler generates is not
  modelled.
\<close>

section \<open>Messages\<close>

datatype EventType = CREATE | UPDATE | DELETE

record App =
  app_name :: string
  app_env :: string

record AppServer =
  ip :: string
  port :: string

record GetAppResponse =
  ga_app :: "App option"
  ga_servers :: "AppServer list"

record WatchCreateRequest =
  create_watch_id :: string
  create_app :: "App option"

record WatchCancelRequest =
  cancel_watch_id :: string

text \<open>The oneof: no case set, or a case whose message pointer may be nil.\<close>

datatype request_union =
    CreateRequest "WatchCreateRequest option"
  | CancelRequest "WatchCancelRequest option"

type_synonym WatchRequest = "request_union option"

record WatchResponse =
  event :: EventType
  resp_app :: "App option"
  created :: bool
  canceled :: bool
  cancel_reason :: string
  servers :: "AppServer list"

text \<open>The zero message: what a composite literal leaves out.\<close>

definition empty_response :: WatchResponse where
  "empty_response = \<lparr>event = CREATE, resp_app = None, created = False, canceled = False,
     cancel_reason = '''', servers = []\<rparr>"

text \<open>The enumeration is ordered by its wire numbers.\<close>

fun EventType_number :: "EventType \<Rightarrow> nat" where
  "EventType_number CREATE = 0"
| "EventType_number UPDATE = 1"
| "EventType_number DELETE = 2"

instantiation EventType :: linorder
begin

definition less_eq_EventType :: "EventType \<Rightarrow> EventType \<Rightarrow> bool" where
  "x \<le> y \<longleftrightarrow> EventType_number x \<le> EventType_number y"

definition less_EventType :: "EventType \<Rightarrow> EventType \<Rightarrow> bool" where
  "x < y \<longleftrightarrow> EventType_number x < EventType_number y"

instance
proof
  fix x y :: EventType
  show "x \<le> y \<Longrightarrow> y \<le> x \<Longrightarrow> x = y"
    by (cases x; cases y) (simp_all add: less_eq_EventType_def)
qed (auto simp: less_eq_EventType_def less_EventType_def)

end

section \<open>Errors of the gRPC layer\<close>

text \<open>The codes of gRPC's \<^verbatim>\<open>codes\<close> package, listed with their meaning in \<^verbatim>\<open>grpcodes.md\<close>.\<close>

datatype Code =
    OK | Canceled | Unknown | InvalidArgument | DeadlineExceeded | NotFound | AlreadyExists
  | PermissionDenied | ResourceExhausted | FailedPrecondition | Aborted | OutOfRange
  | Unimplemented | Internal | Unavailable | DataLoss | Unauthenticated

text \<open>
  An error value is opaque to the repository: all it uses of one is what \<^verbatim>\<open>status.FromError\<close>
  makes of it (a code, a message, and whether it is a gRPC status at all) and its text.
  Both belong to gRPC and are parameters, collected in one record.
\<close>

record 'err grpc_errors =
  FromError :: "'err \<Rightarrow> (Code \<times> string) \<times> bool"
  ErrorText :: "'err \<Rightarrow> string"

text \<open>
  gRPC documents that \<^verbatim>\<open>FromError\<close> reports the code Unknown for an error that is not a
  status.
\<close>

definition FromError_ok :: "'err grpc_errors \<Rightarrow> bool" where
  "FromError_ok g \<longleftrightarrow> (\<forall>err. \<not> snd (FromError g err) \<longrightarrow> fst (fst (FromError g err)) = Unknown)"

abbreviation errCode :: "'err grpc_errors \<Rightarrow> 'err \<Rightarrow> Code" where
  "errCode g err \<equiv> fst (fst (FromError g err))"

text \<open>A concrete error type and its classification, used to evaluate the models.\<close>

datatype demo_err = StatusErr Code string | PlainErr string

definition demo_app :: "App option" where
  "demo_app = Some \<lparr>app_name = ''a'', app_env = ''qa''\<rparr>"

definition demo_errors :: "demo_err grpc_errors" where
  "demo_errors =
     \<lparr>FromError = (\<lambda>e. case e of StatusErr c m \<Rightarrow> ((c, m), True) | PlainErr m \<Rightarrow> ((Unknown, m), False)),
      ErrorText = (\<lambda>e. case e of StatusErr c m \<Rightarrow> ''rpc error: '' @ m | PlainErr m \<Rightarrow> m)\<rparr>"

lemma demo_errors_ok: "FromError_ok demo_errors"
  by (simp add: FromError_ok_def demo_errors_def split: demo_err.splits)

end
