(* ===== verification/GrpcClient.thy ===== *)
theory GrpcClient
  imports Resolver WatchPB
begin

text \<open>
  \<^verbatim>\<open>grpclient/client.go\<close> and \<^verbatim>\<open>config.go\<close>: the options a client is configured with, how it is
  created on a resolver group of its own, and how its endpoints change.  \<^verbatim>\<open>grpc.DialContext\<close>,
  \<^verbatim>\<open>uuid.New\<close> and \<^verbatim>\<open>url.Parse\<close> are parameters.
\<close>

section \<open>Configuration\<close>

text \<open>The values of gRPC's option types that the code builds; durations are in nanoseconds.\<close>

datatype CallOption =
    FailFast bool
  | MaxCallSendMsgSize int
  | MaxCallRecvMsgSize int

datatype DialOption =
    WithKeepaliveParams int int bool
  | WithInsecure
  | WithInitialWindowSize int
  | WithContextDialer
  | WithUnaryRetry nat int "Code list"
  | WithBalancerName string
  | WithBlock
  | UserOption nat

definition MaxInt32 :: int where "MaxInt32 = 2 ^ 31 - 1"

definition Millisecond :: int where "Millisecond = 1000000"

definition roundRobinBalancerName :: "string outcome" where
  "roundRobinBalancerName = obind (Policy_String RoundrobinBalanced) (\<lambda>s. Ret (''grpc-'' @ s))"

definition defaultFailFast :: CallOption where "defaultFailFast = FailFast False"

definition defaultMaxCallSendMsgSize :: CallOption where
  "defaultMaxCallSendMsgSize = MaxCallSendMsgSize (2 * 1024 * 1024)"

definition defaultMaxCallRecvMsgSize :: CallOption where
  "defaultMaxCallRecvMsgSize = MaxCallRecvMsgSize MaxInt32"

definition defaultCallOpts :: "CallOption list" where
  "defaultCallOpts = [defaultFailFast, defaultMaxCallSendMsgSize, defaultMaxCallRecvMsgSize]"

text \<open>The defaults for retries, which nothing reads: \<open>dialSetupOpts\<close> below has its own.  Unsigned
  integers are 64 bits wide.\<close>

definition defaultUnaryMaxRetries :: nat where "defaultUnaryMaxRetries = 100"

definition defaultStreamMaxRetries :: "64 word" where "defaultStreamMaxRetries = not 0"

definition defaultBackoffWaitBetween :: int where "defaultBackoffWaitBetween = 25 * Millisecond"

record GrpcClientConfig =
  Endpoints :: "string list"
  AutoSyncInterval :: int
  DialTimeout :: int
  DialKeepAliveTime :: int
  DialKeepAliveTimeout :: int
  cfg_MaxCallSendMsgSize :: int
  cfg_MaxCallRecvMsgSize :: int
  DialOptions :: "DialOption list"
  PermitWithoutStream :: bool

text \<open>
  A client: its connection, its configuration, its group, its context and its call options.
  The configuration is a pointer that the caller keeps, an index into the configurations of
  the program; a context is an index into the list of who has been cancelled.
\<close>

record 'conn client =
  Conn :: "'conn option"
  cfg :: nat
  resolverGroup :: "nat option"
  cl_ctx :: nat
  callOpts :: "CallOption list"

record cworld =
  rw :: rworld
  ctxs :: "bool list"
  cfgs :: "GrpcClientConfig list"

definition cancel :: "nat \<Rightarrow> cworld \<Rightarrow> cworld" where
  "cancel c W = W\<lparr>ctxs := (ctxs W)[c := True]\<rparr>"

section \<open>Dialling\<close>

definition dialSetupOpts :: "GrpcClientConfig \<Rightarrow> DialOption list \<Rightarrow> DialOption list" where
  "dialSetupOpts c dopts =
     (if 0 < DialKeepAliveTime c
      then [WithKeepaliveParams (DialKeepAliveTime c) (DialKeepAliveTimeout c) (PermitWithoutStream c)]
      else []) @ dopts @
     [WithInsecure, WithInitialWindowSize (65536 * 100), WithContextDialer,
      WithUnaryRetry 3 (100 * Millisecond) [NotFound, Aborted]]"

lemma retry_defaults_unused:
  "WithUnaryRetry n d cs \<in> set (dialSetupOpts c []) \<Longrightarrow> n < defaultUnaryMaxRetries \<and> d = 4 * defaultBackoffWaitBetween"
  by (auto simp: dialSetupOpts_def defaultUnaryMaxRetries_def defaultBackoffWaitBetween_def Millisecond_def split: if_splits)

text \<open>The dialler gets the timeout, if there is one, the target and the options.\<close>

type_synonym ('conn, 'err) dialer =
  "int option \<Rightarrow> string \<Rightarrow> DialOption list \<Rightarrow> rworld \<Rightarrow> ('err + 'conn) \<times> rworld"

definition dial ::
    "('conn, 'err) dialer \<Rightarrow> GrpcClientConfig \<Rightarrow> string \<Rightarrow> DialOption list \<Rightarrow> rworld \<Rightarrow> ('err + 'conn) \<times> rworld" where
  "dial DialContext c target dopts W =
     (let opts = dialSetupOpts c dopts @ DialOptions c
      in if 0 < DialTimeout c then DialContext (Some (DialTimeout c)) target (opts @ [WithBlock]) W
         else DialContext None target opts W)"

definition dialWithBalancer ::
    "(string \<Rightarrow> url option) \<Rightarrow> ('conn, 'err) dialer \<Rightarrow> GrpcClientConfig \<Rightarrow> nat \<Rightarrow> string \<Rightarrow> DialOption list \<Rightarrow>
     rworld \<Rightarrow> ('err + 'conn) \<times> rworld" where
  "dialWithBalancer parse DialContext c g ep dopts W =
     (let (_, host, _) = ParseEndpoint parse ep;
          target = Group_Target g host W
      in dial DialContext c target dopts W)"

section \<open>Creating and using a client\<close>

datatype 'err client_error =
    RecvLimitTooSmall int int
  | GroupError resolver_error
  | DialError 'err

definition call_options :: "GrpcClientConfig \<Rightarrow> 'err client_error + CallOption list" where
  "call_options c =
     (if 0 < cfg_MaxCallSendMsgSize c \<or> 0 < cfg_MaxCallRecvMsgSize c
      then if 0 < cfg_MaxCallRecvMsgSize c \<and> cfg_MaxCallRecvMsgSize c < cfg_MaxCallSendMsgSize c
        then Inl (RecvLimitTooSmall (cfg_MaxCallRecvMsgSize c) (cfg_MaxCallSendMsgSize c))
        else
          (let opts = [defaultFailFast, defaultMaxCallSendMsgSize, defaultMaxCallRecvMsgSize];
               opts = (if 0 < cfg_MaxCallSendMsgSize c
                       then opts[1 := MaxCallSendMsgSize (cfg_MaxCallSendMsgSize c)] else opts);
               opts = (if 0 < cfg_MaxCallRecvMsgSize c
                       then opts[2 := MaxCallRecvMsgSize (cfg_MaxCallRecvMsgSize c)] else opts)
           in Inr opts)
      else Inr defaultCallOpts)"

definition group_name :: "string \<Rightarrow> string" where
  "group_name uuid = ''client-'' @ uuid"

lemma group_name_simps [simp]: "group_name uuid \<noteq> []" "[] \<noteq> group_name uuid"
  "CHR ''/'' \<in> set (group_name uuid) \<longleftrightarrow> CHR ''/'' \<in> set uuid"
  by (simp_all add: group_name_def)

definition NewGRPCClient ::
    "(string \<Rightarrow> url option) \<Rightarrow> string \<Rightarrow> ('conn, 'err) dialer \<Rightarrow> nat \<Rightarrow> cworld \<Rightarrow>
     (('err client_error + 'conn client) \<times> cworld) outcome" where
  "NewGRPCClient parse uuid DialContext p W =
     (let c = cfgs W ! p;
          ctx = length (ctxs W);
          W = W\<lparr>ctxs := ctxs W @ [False]\<rparr>
      in case call_options c of
           Inl err \<Rightarrow> Ret (Inl err, W)
         | Inr opts \<Rightarrow>
             (case newResolverGroup (group_name uuid) (rw W) of
                (Inl err, R) \<Rightarrow> Ret (Inl (GroupError err), cancel ctx (W\<lparr>rw := R\<rparr>))
              | (Inr g, R) \<Rightarrow>
                  (case Endpoints c of
                     [] \<Rightarrow> Panic IndexOutOfRange
                   | dialEndpoint # _ \<Rightarrow>
                       obind roundRobinBalancerName (\<lambda>name.
                         let R = SetEndpoints g (Endpoints c) R
                         in case dialWithBalancer parse DialContext c g dialEndpoint [WithBalancerName name] R of
                              (Inl err, R) \<Rightarrow>
                                Ret (Inl (DialError err), cancel ctx (W\<lparr>rw := Group_Close g R\<rparr>))
                            | (Inr conn, R) \<Rightarrow>
                                Ret (Inr \<lparr>Conn = Some conn, cfg = p, resolverGroup = Some g, cl_ctx = ctx, callOpts = opts\<rparr>,
                                     W\<lparr>rw := R\<rparr>)))))"

definition GetCallOpts :: "'conn client \<Rightarrow> CallOption list" where
  "GetCallOpts c = callOpts c"

definition client_Endpoints :: "'conn client \<Rightarrow> cworld \<Rightarrow> string list" where
  "client_Endpoints c W = Endpoints (cfgs W ! cfg c)"

definition client_SetEndpoints :: "string list \<Rightarrow> 'conn client \<Rightarrow> cworld \<Rightarrow> cworld outcome" where
  "client_SetEndpoints eps c W =
     (let W = W\<lparr>cfgs := (cfgs W)[cfg c := (cfgs W ! cfg c)\<lparr>Endpoints := eps\<rparr>]\<rparr>
      in case resolverGroup c of
           None \<Rightarrow> Panic NilDeref
         | Some g \<Rightarrow> Ret (W\<lparr>rw := SetEndpoints g eps (rw W)\<rparr>))"

text \<open>
  \<^verbatim>\<open>Close\<close>: closing the connection is the parameter \<open>closeConn\<close>; without a connection the
  error \<open>ctxErr\<close> of the cancelled context is returned.
\<close>

definition client_Close ::
    "('conn \<Rightarrow> rworld \<Rightarrow> 'err option \<times> rworld) \<Rightarrow> 'err \<Rightarrow> 'conn client \<Rightarrow> cworld \<Rightarrow> 'err option \<times> cworld" where
  "client_Close closeConn ctxErr c W =
     (let W = cancel (cl_ctx c) W;
          W = (case resolverGroup c of Some g \<Rightarrow> W\<lparr>rw := Group_Close g (rw W)\<rparr> | None \<Rightarrow> W)
      in case Conn c of
           Some conn \<Rightarrow> (let (err, R) = closeConn conn (rw W) in (err, W\<lparr>rw := R\<rparr>))
         | None \<Rightarrow> (Some ctxErr, W))"

section \<open>What a client does\<close>

text \<open>
  The limits a client uses: every limit that is configured as a positive
  number is used as it is and every other one is the default; the only configuration that is
  refused sets a positive receive limit below the send limit.
\<close>

theorem call_limits:
  "call_options c =
    (if 0 < cfg_MaxCallRecvMsgSize c \<and> cfg_MaxCallRecvMsgSize c < cfg_MaxCallSendMsgSize c
     then Inl (RecvLimitTooSmall (cfg_MaxCallRecvMsgSize c) (cfg_MaxCallSendMsgSize c))
     else Inr [FailFast False,
       MaxCallSendMsgSize (if 0 < cfg_MaxCallSendMsgSize c then cfg_MaxCallSendMsgSize c else 2097152),
       MaxCallRecvMsgSize (if 0 < cfg_MaxCallRecvMsgSize c then cfg_MaxCallRecvMsgSize c else 2147483647)])"
  by (simp add: call_options_def defaultCallOpts_def defaultFailFast_def defaultMaxCallSendMsgSize_def
      defaultMaxCallRecvMsgSize_def MaxInt32_def Let_def list_update_code eval_nat_numeral)

text \<open>
  gRPC's dial uses the resolver package only to build resolvers, for the target's
  authority, and to close them.
\<close>

fun dial_op :: "rop \<Rightarrow> bool" where
  "dial_op (BuildResolver a) = True"
| "dial_op (CloseResolver r) = True"
| "dial_op _ = False"

inductive dial_steps :: "rworld \<Rightarrow> rworld \<Rightarrow> bool" for R where
  dial_none: "dial_steps R R"
| dial_step: "dial_steps R R' \<Longrightarrow> dial_op p \<Longrightarrow> rop_ok p R' \<Longrightarrow> dial_steps R (run_rop p R')"

definition dialer_ok :: "('conn, 'err) dialer \<Rightarrow> bool" where
  "dialer_ok D \<longleftrightarrow> (\<forall>t target opts R. dial_steps R (snd (D t target opts R)))"

lemma set_resolvers_keeps:
  "g_id (gs[g := (gs ! g)\<lparr>resolvers := rs\<rparr>] ! j) = g_id (gs ! j)"
  "endpoints (gs[g := (gs ! g)\<lparr>resolvers := rs\<rparr>] ! j) = endpoints (gs ! j)"
  by (cases "g < length gs"; simp add: nth_list_update list_update_beyond)+

lemma dial_op_keeps:
  assumes "dial_op p" and "winv R"
  shows "Resolver.resolverGroups (run_rop p R) = Resolver.resolverGroups R \<and>
    length (groups (run_rop p R)) = length (groups R) \<and>
    (\<forall>g. g_id (groups (run_rop p R) ! g) = g_id (groups R ! g) \<and>
      endpoints (groups (run_rop p R) ! g) = endpoints (groups R ! g))"
proof (cases p)
  case (BuildResolver a)
  then show ?thesis
    by (auto simp: set_resolvers_keeps BuildResolver Build_resolver_def getResolverGroup_def addResolver_def addResolver_locked_def
        Let_def split: option.splits)
next
  case (CloseResolver r)
  then show ?thesis
    by (auto simp: set_resolvers_keeps CloseResolver Resolver_Close_def getResolverGroup_def removeResolver_def Let_def split: option.splits)
qed (use assms in auto)

lemma dial_steps_keeps:
  assumes "dial_steps R R'" and "rreach R"
  shows "rreach R' \<and> Resolver.resolverGroups R' = Resolver.resolverGroups R \<and>
    length (groups R') = length (groups R) \<and>
    (\<forall>g. g_id (groups R' ! g) = g_id (groups R ! g) \<and> endpoints (groups R' ! g) = endpoints (groups R ! g))"
  using assms
proof (induction rule: dial_steps.induct)
  case (dial_step R' p)
  then have R': "rreach R'" by blast
  with dial_op_keeps [OF dial_step(2) rreach_winv [OF this]] dial_step show ?case by (auto intro: rreach_op)
qed simp

text \<open>What happens up to the dial.\<close>

lemma new_group_ready:
  assumes "rreach R" and "newResolverGroup gid R = (Inr g, R1)"
  shows "rreach (SetEndpoints g eps R1) \<and> getResolverGroup gid (SetEndpoints g eps R1) = Inr g \<and>
    endpoints (groups (SetEndpoints g eps R1) ! g) = eps \<and> g_id (groups (SetEndpoints g eps R1) ! g) = gid \<and>
    g < length (groups (SetEndpoints g eps R1))"
proof -
  have R1: "rreach R1" using rreach_op [OF assms(1), of "NewGroup gid"] assms(2) by simp
  have g: "g < length (groups R1)" "g_id (groups R1 ! g) = gid" "mget (Resolver.resolverGroups R1) gid = Some g"
    using assms(2) by (auto simp: newResolverGroup_def store_group_def Let_def go_map_simps split: if_splits)
  note spec = SetEndpoints_spec [OF rreach_winv [OF R1] g(1), of eps]
  show ?thesis
    using rreach_op [OF R1, of "SetGroupEndpoints g eps"] g by (simp add: getResolverGroup_def spec)
qed

lemma built_told:
  assumes "rreach R" and "a \<noteq> ''''" and "getResolverGroup a R = Inr g"
  obtains r R' where "Build_resolver a R = (Inr r, R')"
    and "cc_told (objs R' ! r) = [epsToAddrs (endpoints (groups R ! g))]"
proof -
  have "mget (Resolver.resolverGroups R) a = Some g"
    using assms(3) by (simp add: getResolverGroup_def split: option.splits)
  from Build_resolver_spec [OF rreach_winv [OF assms(1)] assms(2) this] that show ?thesis by simp
qed

lemma call_options_error [simp]: "call_options c \<noteq> Inl (DialError e)" "call_options c \<noteq> Inl (GroupError e')"
  by (simp_all add: call_options_def Let_def)

lemma rr_name: "roundRobinBalancerName = Ret ''grpc-picker-roundrobin-balanced''"
  by (simp add: roundRobinBalancerName_def Policy_String_def RoundrobinBalanced_def Error_def)

text \<open>A client that was returned has a connection, and the call options of its configuration.\<close>

lemma new_client_opts:
  fixes D :: "('conn, 'err) dialer"
  assumes "NewGRPCClient parse uuid D p W = Ret (Inr cl, W')"
  shows "\<exists>conn. Conn cl = Some conn \<and> call_options (cfgs W ! p) = (Inr (callOpts cl) :: 'err client_error + _)"
proof -
  from assms obtain opts g R1 ep eps where "call_options (cfgs W ! p) = (Inr opts :: 'err client_error + _)"
    and "newResolverGroup (group_name uuid) (rw W) = (Inr g, R1)" and "Endpoints (cfgs W ! p) = ep # eps"
    by (auto simp: NewGRPCClient_def Let_def split: sum.splits prod.splits list.splits)
  with assms show ?thesis
    by (auto simp: NewGRPCClient_def Let_def rr_name split: sum.splits prod.splits)
qed

text \<open>
  A client dials its own group: the target it dials parses back to the
  identifier of the group it has just registered, gRPC finds that group with the configured
  endpoints in it, so that the resolver built for the target tells its connection exactly
  those, and the returned client lists them.
\<close>

theorem new_client_dials_own_group:
  assumes "rreach (rw W)" and "CHR ''/'' \<notin> set uuid"
    and "NewGRPCClient parse uuid D p W = Ret (Inr cl, W')"
  defines "c \<equiv> cfgs W ! p"
  shows "\<exists>t target host opts R conn g r R'. D t target opts R = (Inr conn, rw W') \<and> Conn cl = Some conn \<and>
    ParseTarget target = Inr (group_name uuid, host) \<and> getResolverGroup (group_name uuid) R = Inr g \<and>
    resolverGroup cl = Some g \<and> Build_resolver (group_name uuid) R = (Inr r, R') \<and>
    cc_told (objs R' ! r) = [epsToAddrs (Endpoints c)] \<and> client_Endpoints cl W' = Endpoints c"
proof -
  let ?id = "group_name uuid"
  from assms(3) obtain g R1 ep eps where g: "newResolverGroup ?id (rw W) = (Inr g, R1)"
    and eps: "Endpoints c = ep # eps"
    by (auto simp: c_def NewGRPCClient_def Let_def split: sum.splits prod.splits list.splits)
  define R where "R = SetEndpoints g (Endpoints c) R1"
  obtain proto host sch where ep: "ParseEndpoint parse ep = (proto, host, sch)" by (cases "ParseEndpoint parse ep")
  note ready = new_group_ready [OF assms(1) g, of "Endpoints c", folded R_def]
  have target: "Group_Target g host R = Target ?id host" using ready by (simp add: Group_Target_def)
  from assms(3) obtain conn R2 where d: "dialWithBalancer parse D c g ep [WithBalancerName ''grpc-picker-roundrobin-balanced''] R = (Inr conn, R2)"
    and W': "rw W' = R2" "cfgs W' = cfgs W" and cl: "Conn cl = Some conn" "resolverGroup cl = Some g" "cfg cl = p"
    using g eps by (auto simp: c_def NewGRPCClient_def Let_def rr_name R_def split: sum.splits prod.splits)
  then obtain t opts where "D t (Target ?id host) opts R = (Inr conn, rw W')"
    by (auto simp: dialWithBalancer_def dial_def ep target Let_def split: if_splits)
  moreover have "ParseTarget (Target ?id host) = Inr (?id, host)"
    using assms(2) by (simp add: ParseTarget_ok)
  moreover obtain r R' where "Build_resolver ?id R = (Inr r, R')" "cc_told (objs R' ! r) = [epsToAddrs (Endpoints c)]"
    using built_told [of R ?id g] ready by auto
  moreover have "getResolverGroup ?id R = Inr g" "client_Endpoints cl W' = Endpoints c"
    using ready cl(3) W'(2) by (simp_all add: client_Endpoints_def c_def)
  ultimately show ?thesis using cl(1,2) by blast
qed

text \<open>
  C36 (error).  How creating a client fails, and what each failure leaves behind.  Message limits
  that do not fit touch no group, but the context the constructor has made stays alive for ever.  When
  the group's identifier is taken already, the group is left as it is and the context is
  cancelled.  When the dial fails, the context is cancelled and the group's identifier is
  free again.  And the constructor panics exactly when it gets as far as the first endpoint
  and there is none, with an index out of range.
\<close>

theorem new_client_failures:
  fixes p :: nat and D :: "('conn, 'err) dialer"
  assumes "rreach (rw W)" and "dialer_ok D"
  defines "c \<equiv> cfgs W ! p"
  shows "(NewGRPCClient parse uuid D p W = Ret (Inl (RecvLimitTooSmall a b), W') \<longrightarrow>
      rw W' = rw W \<and> ctxs W' = ctxs W @ [False] \<and> cfgs W' = cfgs W) \<and>
    (NewGRPCClient parse uuid D p W = Ret (Inl (GroupError err), W') \<longrightarrow>
      err = resolver_error.AlreadyExists (group_name uuid) \<and> group_exists (group_name uuid) (rw W) \<and>
      rw W' = rw W \<and> ctxs W' = ctxs W @ [True] \<and> cfgs W' = cfgs W) \<and>
    (NewGRPCClient parse uuid D p W = Ret (Inl (DialError e), W') \<longrightarrow>
      ctxs W' = ctxs W @ [True] \<and> cfgs W' = cfgs W \<and> \<not> group_exists (group_name uuid) (rw W')) \<and>
    (\<forall>q. NewGRPCClient parse uuid D p W = Panic q \<longleftrightarrow> q = IndexOutOfRange \<and> Endpoints c = [] \<and>
      (\<exists>opts. call_options c = (Inr opts :: 'err client_error + CallOption list)) \<and>
      \<not> group_exists (group_name uuid) (rw W))"
proof (intro conjI impI allI)
  assume "NewGRPCClient parse uuid D p W = Ret (Inl (RecvLimitTooSmall a b), W')"
  then have "W' = W\<lparr>ctxs := ctxs W @ [False]\<rparr>"
    by (auto simp: c_def NewGRPCClient_def Let_def split: sum.splits prod.splits list.splits) (metis surj_pair sumE)
  then show "rw W' = rw W" "ctxs W' = ctxs W @ [False]" "cfgs W' = cfgs W" by simp_all
next
  let ?id = "group_name uuid"
  assume "NewGRPCClient parse uuid D p W = Ret (Inl (GroupError err), W')"
  then obtain R where "newResolverGroup ?id (rw W) = (Inl err, R)"
    "W' = cancel (length (ctxs W)) (W\<lparr>ctxs := ctxs W @ [False], rw := R\<rparr>)"
    by (auto simp: c_def NewGRPCClient_def Let_def rr_name split: sum.splits prod.splits list.splits)
  then show "err = resolver_error.AlreadyExists ?id" "group_exists ?id (rw W)" "rw W' = rw W" "ctxs W' = ctxs W @ [True]" "cfgs W' = cfgs W"
    by (auto simp: newResolverGroup_def cancel_def store_group_def Let_def split: if_splits)
next
  let ?id = "group_name uuid"
  assume *: "NewGRPCClient parse uuid D p W = Ret (Inl (DialError e), W')"
  then obtain g R1 ep eps where g: "newResolverGroup ?id (rw W) = (Inr g, R1)"
    and eps: "Endpoints c = ep # eps"
    by (auto simp: c_def NewGRPCClient_def Let_def split: sum.splits prod.splits list.splits)
  define R where "R = SetEndpoints g (Endpoints c) R1"
  note ready = new_group_ready [OF assms(1) g, of "Endpoints c", folded R_def]
  from * obtain R2 where
    d: "dialWithBalancer parse D c g ep [WithBalancerName ''grpc-picker-roundrobin-balanced''] R = (Inl e, R2)"
    and W': "W' = cancel (length (ctxs W)) (W\<lparr>ctxs := ctxs W @ [False], rw := Group_Close g R2\<rparr>)"
    using g eps by (auto simp: c_def NewGRPCClient_def Let_def rr_name R_def split: sum.splits prod.splits)
  have "dial_steps R (snd (dialWithBalancer parse D c g ep dopts R))" for dopts
    using assms(2) by (simp add: dialWithBalancer_def dial_def dialer_ok_def Let_def split: prod.split)
  from this [of "[WithBalancerName ''grpc-picker-roundrobin-balanced'']"] have "dial_steps R R2" by (simp add: d)
  from dial_steps_keeps [OF this] ready have "g_id (groups R2 ! g) = ?id" by simp
  with W' show "ctxs W' = ctxs W @ [True]" "cfgs W' = cfgs W" "\<not> group_exists ?id (rw W')"
    by (simp_all add: cancel_def group_exists_def Group_Close_def close_group_def go_map_simps)
next
  fix q
  show "NewGRPCClient parse uuid D p W = Panic q \<longleftrightarrow> q = IndexOutOfRange \<and> Endpoints c = [] \<and>
      (\<exists>opts. call_options c = (Inr opts :: 'err client_error + CallOption list)) \<and>
      \<not> group_exists (group_name uuid) (rw W)"
    by (cases "call_options c :: 'err client_error + CallOption list"; cases "Endpoints c")
      (auto simp: c_def NewGRPCClient_def newResolverGroup_def store_group_def rr_name Let_def
        split: sum.splits prod.splits)
qed

text \<open>
  \<^verbatim>\<open>SetEndpoints\<close> of a client reaches everybody: the client lists the new
  endpoints, and every resolver registered with its group is told exactly those.
\<close>

theorem set_endpoints_reaches_all:
  assumes "rreach (rw W)" and "resolverGroup cl = Some g" and "g < length (groups (rw W))" and "cfg cl < length (cfgs W)"
  shows "\<exists>W'. client_SetEndpoints eps cl W = Ret W' \<and> client_Endpoints cl W' = eps \<and>
    rreach (rw W') \<and> endpoints (groups (rw W') ! g) = eps \<and>
    (\<forall>r \<in> set (resolvers (groups (rw W) ! g)). follows (rw W') r (epsToAddrs eps))"
proof -
  let ?R = "SetEndpoints g eps (rw W)"
  note spec = SetEndpoints_spec [OF rreach_winv [OF assms(1)] assms(3), of eps]
  have "rreach ?R" using rreach_op [OF assms(1), of "SetGroupEndpoints g eps"] assms(3) by simp
  moreover have "follows ?R r (epsToAddrs eps)" if "r \<in> set (resolvers (groups (rw W) ! g))" for r
    using that by (simp add: follows_def spec)
  ultimately show ?thesis
    using assms(2,3,4) by (simp add: client_SetEndpoints_def client_Endpoints_def spec)
qed

text \<open>
  Two clients made from one configuration share it: after \<^verbatim>\<open>SetEndpoints\<close> of the
  first, \<^verbatim>\<open>Endpoints\<close> of the second lists the new endpoints, although its own group keeps the
  old ones and none of the resolvers registered there is told anything.
\<close>

theorem shared_config_diverges:
  assumes "rreach (rw W)" and "resolverGroup cl\<^sub>1 = Some g\<^sub>1" and "resolverGroup cl\<^sub>2 = Some g\<^sub>2" and "g\<^sub>1 \<noteq> g\<^sub>2"
    and "g\<^sub>1 < length (groups (rw W))" and "g\<^sub>2 < length (groups (rw W))"
    and "cfg cl\<^sub>1 = cfg cl\<^sub>2" and "cfg cl\<^sub>1 < length (cfgs W)"
  shows "\<exists>W'. client_SetEndpoints eps cl\<^sub>1 W = Ret W' \<and> client_Endpoints cl\<^sub>2 W' = eps \<and>
    groups (rw W') ! g\<^sub>2 = groups (rw W) ! g\<^sub>2 \<and>
    (\<forall>r \<in> set (resolvers (groups (rw W) ! g\<^sub>2)). objs (rw W') ! r = objs (rw W) ! r)"
proof -
  note inv = rreach_winv [OF assms(1)]
  have "r \<notin> set (resolvers (groups (rw W) ! g\<^sub>1))" if "r \<in> set (resolvers (groups (rw W) ! g\<^sub>2))" for r
    using winvD(3) [OF inv assms(5,6) _ that] assms(4) by blast
  then show ?thesis
    using assms(2,4,7,8) by (simp add: client_SetEndpoints_def client_Endpoints_def SetEndpoints_spec [OF inv assms(5)])
qed

text \<open>A client on a dialler that builds the resolver of its target, and on one that fails.\<close>

definition demo_cfg :: GrpcClientConfig where
  "demo_cfg = \<lparr>Endpoints = [''h1:1'', ''h2:2''], AutoSyncInterval = 0, DialTimeout = 0, DialKeepAliveTime = 0,
     DialKeepAliveTimeout = 0, cfg_MaxCallSendMsgSize = 0, cfg_MaxCallRecvMsgSize = 0, DialOptions = [],
     PermitWithoutStream = False\<rparr>"

definition demo_dialer :: "(string, string) dialer" where
  "demo_dialer t target opts R = (Inr target, snd (Build_resolver ''client-u'' R))"

definition demo_down :: "(string, string) dialer" where
  "demo_down t target opts R = (Inl ''unreachable'', snd (Build_resolver ''client-u'' R))"

definition no_world :: cworld where "no_world = \<lparr>rw = rinit, ctxs = [], cfgs = [demo_cfg]\<rparr>"

lemma no_world_reach: "rreach (rw no_world)"
  by (simp add: no_world_def rreach_init)

lemma demo_down_ok: "dialer_ok demo_down"
  using dial_step [OF dial_none, of "BuildResolver ''client-u''"] by (simp add: dialer_ok_def demo_down_def)

lemma demo_dialer_connects: "\<exists>cl W'. NewGRPCClient (\<lambda>_. None) ''u'' demo_dialer 0 no_world = Ret (Inr cl, W')"
  by (auto simp: NewGRPCClient_def call_options_def demo_cfg_def newResolverGroup_def group_exists_def
        store_group_def no_world_def rinit_def rr_name dialWithBalancer_def dial_def demo_dialer_def
        ParseEndpoint_def Let_def)

lemma new_client_dials_own_group_witness:
  "\<exists>cl W' target host R. NewGRPCClient (\<lambda>_. None) ''u'' demo_dialer 0 no_world = Ret (Inr cl, W') \<and>
     demo_dialer None target [] R = (Inr target, rw W') \<and> ParseTarget target = Inr (''client-u'', host) \<and>
     client_Endpoints cl W' = [''h1:1'', ''h2:2'']"
proof -
  obtain cl W' where n: "NewGRPCClient (\<lambda>_. None) ''u'' demo_dialer 0 no_world = Ret (Inr cl, W')"
    using demo_dialer_connects by blast
  have id: "group_name ''u'' = ''client-u''" by (simp add: group_name_def)
  have "CHR ''/'' \<notin> set ''u''" by simp
  from new_client_dials_own_group [OF no_world_reach this n] obtain t target host opts R conn where
    "demo_dialer t target opts R = (Inr conn, rw W')" "ParseTarget target = Inr (group_name ''u'', host)"
    "client_Endpoints cl W' = Endpoints (cfgs no_world ! 0)" by blast
  then have "demo_dialer None target [] R = (Inr target, rw W')" "ParseTarget target = Inr (''client-u'', host)"
    "client_Endpoints cl W' = [''h1:1'', ''h2:2'']"
    by (simp_all add: demo_dialer_def demo_cfg_def id no_world_def)
  with n show ?thesis by blast
qed

text \<open>The dial fails; the identifier is taken.\<close>

theorem new_client_failures_witness:
  "(\<exists>W'. NewGRPCClient (\<lambda>_. None) ''u'' demo_down 0 no_world = Ret (Inl (DialError ''unreachable''), W') \<and>
     ctxs W' = [True] \<and> \<not> group_exists ''client-u'' (rw W')) \<and>
   (\<exists>W'. NewGRPCClient (\<lambda>_. None) ''u'' demo_down 0 (no_world\<lparr>rw := run_rop (NewGroup ''client-u'') rinit\<rparr>) =
       Ret (Inl (GroupError (resolver_error.AlreadyExists ''client-u'')), W') \<and>
     ctxs W' = [True] \<and> rw W' = run_rop (NewGroup ''client-u'') rinit)"
proof
  obtain W' where "NewGRPCClient (\<lambda>_. None) ''u'' demo_down 0 no_world = Ret (Inl (DialError ''unreachable''), W')"
    by (auto simp: NewGRPCClient_def call_options_def demo_cfg_def newResolverGroup_def group_exists_def
        store_group_def no_world_def rinit_def rr_name dialWithBalancer_def dial_def demo_down_def
        ParseEndpoint_def Let_def)
  with new_client_failures [OF no_world_reach demo_down_ok, of "\<lambda>_. None" "''u''" 0 _ _ W']
  show "\<exists>W'. NewGRPCClient (\<lambda>_. None) ''u'' demo_down 0 no_world = Ret (Inl (DialError ''unreachable''), W') \<and>
     ctxs W' = [True] \<and> \<not> group_exists ''client-u'' (rw W')"
    by (auto simp: group_name_def no_world_def)
  let ?R = "run_rop (NewGroup ''client-u'') rinit"
  let ?W = "no_world\<lparr>rw := ?R\<rparr>"
  have r: "rreach (rw ?W)" using rreach_op [OF rreach_init, of "NewGroup ''client-u''"] by simp
  have "group_exists ''client-u'' ?R"
    by (simp add: newResolverGroup_def group_exists_def store_group_def rinit_def Let_def go_map_simps)
  then obtain W' where "NewGRPCClient (\<lambda>_. None) ''u'' demo_down 0 ?W = Ret (Inl (GroupError (resolver_error.AlreadyExists ''client-u'')), W')"
    by (simp add: NewGRPCClient_def call_options_def demo_cfg_def newResolverGroup_def no_world_def group_name_def
        defaultCallOpts_def Let_def)
  with new_client_failures [OF r demo_down_ok, of "\<lambda>_. None" "''u''" 0 _ _ W']
  show "\<exists>W'. NewGRPCClient (\<lambda>_. None) ''u'' demo_down 0 ?W = Ret (Inl (GroupError (resolver_error.AlreadyExists ''client-u'')), W') \<and>
     ctxs W' = [True] \<and> rw W' = ?R"
    by (auto simp: group_name_def no_world_def)
qed

definition demo_client :: "nat \<Rightarrow> unit client" where
  "demo_client g = \<lparr>Conn = Some (), cfg = 0, resolverGroup = Some g, cl_ctx = 0, callOpts = []\<rparr>"

definition demo_cworld :: cworld where
  "demo_cworld = \<lparr>rw = demo_world, ctxs = [False], cfgs = [demo_cfg]\<rparr>"

lemma set_endpoints_reaches_all_witness:
  "\<exists>W'. client_SetEndpoints [''h4''] (demo_client 0) demo_cworld = Ret W' \<and>
    client_Endpoints (demo_client 0) W' = [''h4''] \<and> follows (rw W') 0 (epsToAddrs [''h4''])"
proof -
  let ?W = demo_cworld
  have 1: "0 < length (groups (rw ?W))" "0 \<in> set (resolvers (groups (rw ?W) ! 0))" by code_simp+
  have 2: "rreach (rw ?W)" "client.resolverGroup (demo_client 0) = Some 0" "cfg (demo_client 0) < length (cfgs ?W)"
    using demo_world_reach by (simp_all add: demo_client_def demo_cworld_def)
  from set_endpoints_reaches_all [OF 2(1,2) 1(1) 2(3), of "[''h4'']"] 1(2) show ?thesis by blast
qed

lemma shared_config_diverges_witness:
  "\<exists>W'. client_SetEndpoints [''h4''] (demo_client 1) (demo_cworld\<lparr>rw := run_rop (NewGroup ''d'') demo_world\<rparr>) = Ret W' \<and>
    client_Endpoints (demo_client 0) W' = [''h4''] \<and> endpoints (groups (rw W') ! 0) = [''h2'', ''h3'']"
proof -
  let ?W = "demo_cworld\<lparr>rw := run_rop (NewGroup ''d'') demo_world\<rparr>"
  have "rreach (rw ?W)" using rreach_op [OF demo_world_reach, of "NewGroup ''d''"] by simp
  moreover have "client.resolverGroup (demo_client 1) = Some 1" "client.resolverGroup (demo_client 0) = Some 0" "(1::nat) \<noteq> 0"
    by (simp_all add: demo_client_def)
  moreover have "1 < length (groups (rw ?W))" "0 < length (groups (rw ?W))" by code_simp+
  moreover have "cfg (demo_client 1) = cfg (demo_client 0)" "cfg (demo_client 1) < length (cfgs ?W)"
    by (simp_all add: demo_client_def demo_cworld_def)
  moreover have "endpoints (groups (rw ?W) ! 0) = [''h2'', ''h3'']" by code_simp
  ultimately show ?thesis
    using shared_config_diverges [of ?W "demo_client 1" 1 "demo_client 0" 0 "[''h4'']"] by auto
qed

end
