(* ===== verification/Discovery.thy ===== *)
theory Discovery
  imports Balancer Resolver "HOL-Library.Sublist"
begin

text \<open>
  From a group's endpoints to the sub-connections of a client connection: the resolver of the
  connection (Resolver) tells gRPC address lists, gRPC hands them to the connection's
  balancer (Balancer), and meanwhile anything else may happen to either.
\<close>

section \<open>The system\<close>

text \<open>
  One connection: its balancer, and how many of the updates of its resolver gRPC is through
  with.  gRPC documents that it hands updates on in order and may leave out one that a newer
  one has replaced.  The groups and resolvers belong to the whole program.
\<close>

record disc =
  world :: rworld
  bal :: baseBalancer
  seen :: nat

definition told :: "nat \<Rightarrow> disc \<Rightarrow> Address list list" where
  "told r d = cc_told (objs (world d) ! r)"

inductive dact :: "bal_env \<Rightarrow> nat \<Rightarrow> disc \<Rightarrow> disc \<Rightarrow> bool" for e r d where
  call: "rop_ok p (world d) \<Longrightarrow> dact e r d (d\<lparr>world := run_rop p (world d)\<rparr>)"
| update: "seen d \<le> j \<Longrightarrow> j < length (told r d) \<Longrightarrow>
    dact e r d (d\<lparr>bal := HandleResolvedAddrs e (bal d) (told r d ! j) None, seen := Suc j\<rparr>)"
| failed: "dact e r d (d\<lparr>bal := HandleResolvedAddrs e (bal d) addrs (Some err)\<rparr>)"
| changed: "HandleSubConnStateChange e (bal d) sc s = Ret bb' \<Longrightarrow> dact e r d (d\<lparr>bal := bb'\<rparr>)"
| picked: "Pick (bb_picker (bal d)) = Ret (x, p) \<Longrightarrow> dact e r d (d\<lparr>bal := (bal d)\<lparr>bb_picker := p\<rparr>\<rparr>)"

inductive dreach :: "bal_env \<Rightarrow> balConfig \<Rightarrow> nat \<Rightarrow> disc \<Rightarrow> bool" for e cfg r where
  disc_start: "rreach W \<Longrightarrow> r < length (objs W) \<Longrightarrow> dreach e cfg r \<lparr>world = W, bal = Build cfg now, seen = 0\<rparr>"
| disc_step: "dreach e cfg r d \<Longrightarrow> dact e r d d' \<Longrightarrow> dreach e cfg r d'"

text \<open>Each side is a run of its own model.\<close>

lemma dreach_sides:
  "dreach e cfg r d \<Longrightarrow> rreach (world d) \<and> bal_reach e cfg (bal d)"
proof (induction rule: dreach.induct)
  case (disc_step d d')
  from disc_step(2,3) show ?case
    by (induction rule: dact.induct) (auto intro: rreach_op bal_reach.stepped bal_step.intros)
qed (auto intro: bal_reach.built)

section \<open>What a connection is told\<close>

lemma tells_more:
  assumes "winv W" and "rop_ok p W" and "r < length (objs W)"
  shows "r < length (objs (run_rop p W)) \<and> prefix (cc_told (objs W ! r)) (cc_told (objs (run_rop p W) ! r))"
proof (cases p)
  case (SetGroupEndpoints g eps)
  then show ?thesis using SetEndpoints_spec [OF assms(1), of g] assms(2,3) by simp
next
  case (BuildResolver a)
  show ?thesis
  proof (cases "a = '''' \<or> mget (resolverGroups W) a = None")
    case True
    then show ?thesis using assms(3) by (auto simp: BuildResolver Build_resolver_def getResolverGroup_def)
  next
    case False
    then obtain g where "a \<noteq> ''''" "mget (resolverGroups W) a = Some g" by blast
    from Build_resolver_spec [OF assms(1) this] show ?thesis using assms(3) by (simp add: BuildResolver nth_append)
  qed
qed (use assms(3) in \<open>auto simp: newResolverGroup_def store_group_def Group_Close_def close_group_def
    Resolver_Close_def removeResolver_def getResolverGroup_def Let_def split: prod.splits sum.splits option.splits\<close>)

section \<open>What the balancer makes of it\<close>

definition serves_addrs :: "baseBalancer \<Rightarrow> Address list \<Rightarrow> bool" where
  "serves_addrs bb addrs \<longleftrightarrow> (\<forall>a. mget (addrToSc bb) a \<noteq> None \<longrightarrow> a \<in> set addrs) \<and>
     (\<forall>a \<in> set addrs. mget (addrToSc bb) a = None \<longrightarrow> NewSubConn a None \<in> set (bb_calls bb))"

lemma serves_update:
  assumes "bal_inv bb" and "env_ok e"
  shows "serves_addrs (HandleResolvedAddrs e bb addrs None) addrs"
proof -
  note eff = HandleResolvedAddrs_effect [OF assms refl, where addrs = addrs]
  from eff(4) obtain new where "bb_calls (HandleResolvedAddrs e bb addrs None) = bb_calls bb @ new"
    "\<forall>a \<in> set addrs. mget (addrToSc (HandleResolvedAddrs e bb addrs None)) a = None \<longrightarrow> NewSubConn a None \<in> set new"
    by blast
  then show ?thesis using eff(1) unfolding serves_addrs_def by simp
qed

lemma serves_same:
  "serves_addrs bb addrs \<Longrightarrow> addrToSc bb' = addrToSc bb \<Longrightarrow> set (bb_calls bb) \<subseteq> set (bb_calls bb') \<Longrightarrow>
    serves_addrs bb' addrs"
  by (auto simp: serves_addrs_def)

lemma updatePicker_same:
  "updatePicker e bb = Ret bb' \<Longrightarrow> addrToSc bb' = addrToSc bb \<and> bb_calls bb' = bb_calls bb"
  by (auto simp: updatePicker_def split: if_splits)

lemma recorded_calls: "set (bb_calls bb) \<subseteq> set (bb_calls (recorded bb sc old s))"
  by (cases s) (auto simp: recorded_def Let_def bb_log_def)

lemma serves_change:
  assumes "serves_addrs bb addrs" and "HandleSubConnStateChange e bb sc s = Ret bb'"
  shows "serves_addrs bb' addrs"
proof (cases "mget (scToSt bb) sc")
  case None
  then show ?thesis using assms by (simp add: HandleSubConnStateChange_def)
next
  case (Some old)
  have "addrToSc bb' = addrToSc bb \<and> set (bb_calls bb) \<subseteq> set (bb_calls bb')"
    using assms(2) recorded_calls [of bb sc old s] unfolding HandleSubConnStateChange_recorded [OF Some]
    by (auto simp: Let_def bb_log_def dest!: updatePicker_same split: if_splits)
  then show ?thesis using serves_same assms(1) by blast
qed

text \<open>The balancer stands for the last update it was given.\<close>

definition disc_ok :: "nat \<Rightarrow> disc \<Rightarrow> bool" where
  "disc_ok r d \<longleftrightarrow> r < length (objs (world d)) \<and> seen d \<le> length (told r d) \<and>
     (seen d \<noteq> 0 \<longrightarrow> serves_addrs (bal d) (told r d ! (seen d - 1)))"

lemma dact_disc_ok:
  assumes "dact e r d d'" and "env_ok e" and "bal_inv (bal d)" and "winv (world d)" and "disc_ok r d"
  shows "disc_ok r d'"
  using assms
proof (induction rule: dact.induct)
  case (call p)
  note more = tells_more [OF call(4,1), of r]
  then have "told r (d\<lparr>world := run_rop p (world d)\<rparr>) ! (seen d - 1) = told r d ! (seen d - 1)" if "seen d \<noteq> 0"
    using that call(5) by (auto simp: disc_ok_def told_def prefix_def nth_append)
  then show ?case using more call(5) by (auto simp: disc_ok_def told_def dest: prefix_length_le)
next
  case (update j)
  then show ?case using serves_update by (auto simp: disc_ok_def told_def)
next
  case (changed sc s bb')
  then show ?case using serves_change by (auto simp: disc_ok_def told_def)
next
  case (picked x p)
  then show ?case using serves_same [of "bal d" _ "(bal d)\<lparr>bb_picker := p\<rparr>"] by (auto simp: disc_ok_def told_def)
qed (auto simp: disc_ok_def told_def HandleResolvedAddrs_def)

lemma dreach_disc_ok:
  assumes "dreach e cfg r d" and "env_ok e" and "Policy cfg = RoundrobinBalanced"
  shows "disc_ok r d"
  using assms(1)
proof (induction rule: dreach.induct)
  case (disc_start W now)
  then show ?case by (simp add: disc_ok_def)
next
  case (disc_step d d')
  note sides = dreach_sides [OF disc_step(1)]
  show ?case
    using dact_disc_ok [OF disc_step(2) assms(2) _ _ disc_step(3)] sides bal_reach_inv [OF _ assms(2,3)] rreach_winv
    by blast
qed

section \<open>Endpoints reach the balancer\<close>

definition ep_addr :: "string \<Rightarrow> Address" where
  "ep_addr ep = \<lparr>Addr = ep, AType = Backend\<rparr>"

lemma epsToAddrs_image: "set (epsToAddrs eps) = ep_addr ` set eps"
  by (simp add: epsToAddrs_def ep_addr_def)

text \<open>When gRPC has no newer update, the balancer stands for the group's endpoints.\<close>

lemma current_addrs:
  assumes "env_ok e" and "Policy cfg = RoundrobinBalanced" and "dreach e cfg r d"
    and "g < length (groups (world d))" and "r \<in> set (resolvers (groups (world d) ! g))"
    and "eps = endpoints (groups (world d) ! g)" and "seen d = length (told r d)"
  shows "serves_addrs (bal d) (epsToAddrs eps)"
proof -
  have "winv (world d)" using dreach_sides [OF assms(3)] rreach_winv by blast
  then have "follows (world d) r (epsToAddrs eps)"
    using winvD(2) assms(4,5,6) unfolding group_ok_def by blast
  then have "told r d \<noteq> []" "last (told r d) = epsToAddrs eps" by (simp_all add: follows_def told_def)
  with dreach_disc_ok [OF assms(3,1,2)] assms(7) show ?thesis by (simp add: disc_ok_def last_conv_nth)
qed

text \<open>
  C14 (refinement).  Service discovery works: whatever calls are made on groups and resolvers, and
  whatever happens to the balancer meanwhile, an update that a registered resolver has told
  gRPC can always be handed on, and as soon as gRPC has no newer one the balancer has
  sub-connections for endpoints of the resolver's group only, the current ones, and for each of
  them, unless gRPC refused to create it.
\<close>

theorem endpoints_reach_balancer:
  assumes "env_ok e" and "Policy cfg = RoundrobinBalanced" and "dreach e cfg r d"
    and "g < length (groups (world d))" and "r \<in> set (resolvers (groups (world d) ! g))"
    and "eps = endpoints (groups (world d) ! g)"
  shows "(seen d < length (told r d) \<longrightarrow> (\<exists>d'. dact e r d d' \<and> world d' = world d \<and> seen d' = length (told r d'))) \<and>
    (seen d = length (told r d) \<longrightarrow>
      (\<forall>a. mget (addrToSc (bal d)) a \<noteq> None \<longrightarrow> a \<in> ep_addr ` set eps) \<and>
      (\<forall>ep \<in> set eps. mget (addrToSc (bal d)) (ep_addr ep) = None \<longrightarrow>
         NewSubConn (ep_addr ep) None \<in> set (bb_calls (bal d))))"
proof (intro conjI impI)
  assume more: "seen d < length (told r d)"
  let ?j = "length (told r d) - 1"
  let ?d = "d\<lparr>bal := HandleResolvedAddrs e (bal d) (told r d ! ?j) None, seen := Suc ?j\<rparr>"
  have "dact e r d ?d" using more by (intro dact.update) auto
  then show "\<exists>d'. dact e r d d' \<and> world d' = world d \<and> seen d' = length (told r d')"
    using more by (intro exI [of _ ?d]) (simp add: told_def)
next
  assume all: "seen d = length (told r d)"
  note s = current_addrs [OF assms all]
  then show "\<forall>a. mget (addrToSc (bal d)) a \<noteq> None \<longrightarrow> a \<in> ep_addr ` set eps"
    "\<forall>ep \<in> set eps. mget (addrToSc (bal d)) (ep_addr ep) = None \<longrightarrow>
       NewSubConn (ep_addr ep) None \<in> set (bb_calls (bal d))"
    by (simp_all add: serves_addrs_def epsToAddrs_image)
qed

section \<open>Endpoints get the calls\<close>

text \<open>A sub-connection the balancer keeps a state for has an address, or has been told to go.\<close>

definition accounted :: "baseBalancer \<Rightarrow> bool" where
  "accounted bb \<longleftrightarrow> (\<forall>sc. mget (scToSt bb) sc \<noteq> None \<longrightarrow>
     (\<exists>a. mget (addrToSc bb) a = Some sc) \<or> RemoveSubConn sc \<in> set (bb_calls bb))"

lemma accounted_resolve:
  assumes "accounted bb" and "resolve_addr e (bb, r) addr = (bb', r')"
  shows "accounted bb'"
  using assms(2)
proof (cases rule: resolve_addr_cases)
  case (created sc)
  have "(\<exists>a. mget (addrToSc bb') a = Some x) \<or> RemoveSubConn x \<in> set (bb_calls bb')"
    if "mget (scToSt bb') x \<noteq> None" for x
  proof (cases "x = sc")
    case True
    then show ?thesis using created(3) by (auto simp: go_map_simps)
  next
    case False
    with that created(3) have "mget (scToSt bb) x \<noteq> None" by (simp add: go_map_simps)
    with assms(1) consider a where "mget (addrToSc bb) a = Some x" | "RemoveSubConn x \<in> set (bb_calls bb)"
      by (auto simp: accounted_def)
    then show ?thesis
    proof cases
      case 1
      with created have "mget (addrToSc bb') a = Some x" by (auto simp: go_map_simps)
      then show ?thesis by blast
    qed (use created(3) in simp)
  qed
  then show ?thesis by (simp add: accounted_def)
qed (use assms(1) in \<open>auto simp: accounted_def\<close>)

lemma accounted_resolve_all:
  "accounted bb \<Longrightarrow> foldl (resolve_addr e) (bb, r) addrs = (bb', r') \<Longrightarrow> accounted bb'"
proof (induction addrs arbitrary: bb r)
  case (Cons addr addrs)
  obtain bb1 r1 where "resolve_addr e (bb, r) addr = (bb1, r1)" by fastforce
  with Cons accounted_resolve show ?case by (metis foldl_Cons)
qed simp

lemma accounted_update:
  assumes "accounted bb" and "bal_inv bb" and "env_ok e"
  shows "accounted (HandleResolvedAddrs e bb addrs err)"
proof (cases err)
  case None
  obtain bb1 r where all: "foldl (resolve_addr e) (bb, []) addrs = (bb1, r)" by fastforce
  let ?es = "rangeA e (addrToSc bb1)"
  let ?bb = "foldl (drop_unresolved r) bb1 ?es"
  have ok: "gomap_ok (addrToSc bb1)" using resolve_all_inv [OF assms(2,3) all] by (simp add: bal_inv_defs)
  have es: "set ?es = set (addrToSc bb1)" using assms(3) by (metis env_ok_def set_mset_mset)
  note eff = drop_all_effect [of r bb1 ?es]
  have "(\<exists>a. mget (addrToSc ?bb) a = Some sc) \<or> RemoveSubConn sc \<in> set (bb_calls ?bb)"
    if "mget (scToSt ?bb) sc \<noteq> None" for sc
  proof -
    have "mget (scToSt bb1) sc \<noteq> None" using that eff(3) by simp
    with accounted_resolve_all [OF assms(1) all] consider a where "mget (addrToSc bb1) a = Some sc"
      | "RemoveSubConn sc \<in> set (bb_calls bb1)"
      by (auto simp: accounted_def)
    then show ?thesis
    proof cases
      case 1
      show ?thesis
      proof (cases "a \<in> fst ` set (filter (\<lambda>(addr, sc). mget r addr = None) ?es)")
        case True
        then obtain sc' where "(a, sc') \<in> set ?es" "mget r a = None" by auto
        moreover from this(1) have "sc' = sc" using am.get_items [OF ok, of a sc'] 1 es by simp
        ultimately show ?thesis using eff(1) by force
      next
        case False
        with 1 eff(2) [of a] have "mget (addrToSc ?bb) a = Some sc" by simp
        then show ?thesis by blast
      qed
    qed (use eff(1) in simp)
  qed
  then show ?thesis using None all by (simp add: HandleResolvedAddrs_def accounted_def)
qed (use assms(1) in \<open>simp add: HandleResolvedAddrs_def\<close>)

lemma accounted_change:
  assumes "accounted bb" and "bal_inv bb" and "env_ok e" and "HandleSubConnStateChange e bb sc s = Ret bb'"
  shows "accounted bb'"
proof (cases "mget (scToSt bb) sc")
  case None
  then show ?thesis using assms by (simp add: HandleSubConnStateChange_def)
next
  case (Some old)
  from HandleSubConnStateChange_result [OF assms(2,3) Some, of s] assms(4) obtain p l where
    bb': "bb' = bb_log l (recorded bb sc old s\<lparr>bb_picker := p\<rparr>)" by auto
  have "mget (scToSt bb) x \<noteq> None" if "mget (scToSt (recorded bb sc old s)) x \<noteq> None" for x
    using that Some by (auto simp: go_map_simps split: if_splits)
  with assms(1) bb' recorded_calls [of bb sc old s] show ?thesis by (fastforce simp: accounted_def)
qed

lemma bal_reach_accounted:
  assumes "bal_reach e cfg bb" and "env_ok e" and "Policy cfg = RoundrobinBalanced"
  shows "accounted bb"
  using assms(1)
proof (induction rule: bal_reach.induct)
  case (stepped bb bb')
  note inv = bal_reach_inv [OF stepped(1) assms(2,3)]
  from stepped(2) show ?case
  proof cases
    case (picked r p)
    then show ?thesis using stepped(3) by (simp add: accounted_def)
  qed (use accounted_update [OF stepped(3) inv assms(2)] accounted_change [OF stepped(3) inv assms(2)] in auto)
qed (simp add: accounted_def Build_def)

text \<open>
  C26 (safety).  Service discovery and load balancing together: in every reachable state in which
  gRPC is through with the resolver's updates, a pick returns a sub-connection that is Ready and
  belongs to one of the group's current endpoints, or one whose endpoint has gone, which gRPC
  was told to remove and whose end it has not reported yet.  A pick fails only if no current
  endpoint has a Ready sub-connection.
\<close>

theorem picks_go_to_endpoints:
  assumes "env_ok e" and "Policy cfg = RoundrobinBalanced" and "dreach e cfg r d"
    and "g < length (groups (world d))" and "r \<in> set (resolvers (groups (world d) ! g))"
    and "eps = endpoints (groups (world d) ! g)" and "seen d = length (told r d)"
  shows "\<exists>x p. Pick (bb_picker (bal d)) = Ret (x, p) \<and>
    (case x of
       Inr sc \<Rightarrow> mget (scToSt (bal d)) sc = Some Ready \<and>
         ((\<exists>ep \<in> set eps. mget (addrToSc (bal d)) (ep_addr ep) = Some sc) \<or> RemoveSubConn sc \<in> set (bb_calls (bal d)))
     | Inl err \<Rightarrow> \<forall>ep sc. ep \<in> set eps \<longrightarrow> mget (addrToSc (bal d)) (ep_addr ep) = Some sc \<longrightarrow>
         mget (scToSt (bal d)) sc \<noteq> Some Ready)"
proof -
  have reach: "bal_reach e cfg (bal d)" using dreach_sides [OF assms(3)] by blast
  note acc = bal_reach_accounted [OF reach assms(1,2), unfolded accounted_def]
  have only: "a \<in> ep_addr ` set eps" if "mget (addrToSc (bal d)) a \<noteq> None" for a
    using that current_addrs [OF assms] by (auto simp: serves_addrs_def epsToAddrs_image)
  have inv: "picker_inv (bal d)" using bal_reach_inv [OF reach assms(1,2)] by (simp add: bal_inv_def)
  then have "picker_ok (bb_picker (bal d))" by (simp add: picker_inv_def)
  then show ?thesis
  proof (cases rule: pk.pick_cases)
    case (err p')
    with inv show ?thesis by (auto simp: picker_inv_def)
  next
    case (sc sc p')
    with inv have ready: "mget (scToSt (bal d)) sc = Some Ready" by (simp add: picker_inv_def)
    with acc have "(\<exists>a. mget (addrToSc (bal d)) a = Some sc) \<or> RemoveSubConn sc \<in> set (bb_calls (bal d))" by simp
    with only have "(\<exists>ep \<in> set eps. mget (addrToSc (bal d)) (ep_addr ep) = Some sc) \<or>
        RemoveSubConn sc \<in> set (bb_calls (bal d))" by fastforce
    with sc ready show ?thesis by auto
  qed
qed

section \<open>A concrete run\<close>

definition demo_disc :: disc where
  "demo_disc = \<lparr>world = demo_world,
     bal = HandleResolvedAddrs demo_env (Build demo_cfg ''0'') (epsToAddrs [''h2'', ''h3'']) None, seen = 2\<rparr>"

lemma demo_disc_reach: "dreach demo_env demo_cfg 0 demo_disc"
proof -
  have t: "cc_told (objs demo_world ! 0) = [epsToAddrs [''h1''], epsToAddrs [''h2'', ''h3'']]"
    "0 < length (objs demo_world)" by code_simp+
  let ?d = "\<lparr>world = demo_world, bal = Build demo_cfg ''0'', seen = 0\<rparr>"
  have "dreach demo_env demo_cfg 0 ?d" using demo_world_reach t(2) by (rule dreach.disc_start)
  moreover have "dact demo_env 0 ?d demo_disc"
    using dact.update [of ?d 1 0 demo_env] t(1) by (simp add: told_def demo_disc_def numeral_2_eq_2)
  ultimately show ?thesis by (rule dreach.disc_step)
qed

theorem endpoints_reach_balancer_witness:
  "dreach demo_env demo_cfg 0 demo_disc \<and> seen demo_disc = length (told 0 demo_disc) \<and>
   mget (addrToSc (bal demo_disc)) (ep_addr ''h1'') = None \<and> mget (addrToSc (bal demo_disc)) (ep_addr ''h2'') \<noteq> None"
proof -
  have pol: "Policy demo_cfg = RoundrobinBalanced" by (simp add: demo_cfg_def)
  have w: "world demo_disc = demo_world" "seen demo_disc = 2" by (simp_all add: demo_disc_def)
  have g: "0 < length (groups (world demo_disc))" "0 \<in> set (resolvers (groups (world demo_disc) ! 0))"
    "[''h2'', ''h3''] = endpoints (groups (world demo_disc) ! 0)" unfolding w by code_simp+
  have t: "length (told 0 demo_disc) = 2" unfolding told_def w by code_simp
  note e = endpoints_reach_balancer [OF demo_env_ok pol demo_disc_reach g]
  have "ep_addr ''h1'' \<notin> ep_addr ` set [''h2'', ''h3'']" by (simp add: ep_addr_def)
  then have "mget (addrToSc (bal demo_disc)) (ep_addr ''h1'') = None" using e w t by auto
  moreover have "NewSubConn (ep_addr ''h2'') None \<notin> set (bb_calls (bal demo_disc))" by code_simp
  then have "mget (addrToSc (bal demo_disc)) (ep_addr ''h2'') \<noteq> None" using e w t by auto
  ultimately show ?thesis using demo_disc_reach w t by simp
qed

text \<open>The connection to the first endpoint becomes ready.\<close>

definition demo_served :: disc where
  "demo_served = demo_disc\<lparr>bal := (case HandleSubConnStateChange demo_env (bal demo_disc) 1 Ready of Ret bb \<Rightarrow> bb)\<rparr>"

lemma demo_served_reach: "dreach demo_env demo_cfg 0 demo_served"
proof -
  have "bal_inv (bal demo_disc)"
    using bal_reach_inv [of demo_env demo_cfg "bal demo_disc"] dreach_sides [OF demo_disc_reach] demo_env_ok
    by (simp add: demo_cfg_def)
  then obtain bb where "HandleSubConnStateChange demo_env (bal demo_disc) 1 Ready = Ret bb"
    using HandleSubConnStateChange_inv [OF _ demo_env_ok] by blast
  then show ?thesis using dreach.disc_step [OF demo_disc_reach dact.changed] by (simp add: demo_served_def)
qed

theorem picks_go_to_endpoints_witness:
  "\<exists>sc p. Pick (bb_picker (bal demo_served)) = Ret (Inr sc, p) \<and>
     (mget (addrToSc (bal demo_served)) (ep_addr ''h2'') = Some sc \<or> mget (addrToSc (bal demo_served)) (ep_addr ''h3'') = Some sc)"
proof -
  have pol: "Policy demo_cfg = RoundrobinBalanced" by (simp add: demo_cfg_def)
  have w: "world demo_served = demo_world" "seen demo_served = 2" by (simp_all add: demo_served_def demo_disc_def)
  have g: "0 < length (groups (world demo_served))" "0 \<in> set (resolvers (groups (world demo_served) ! 0))"
    "[''h2'', ''h3''] = endpoints (groups (world demo_served) ! 0)" unfolding w by code_simp+
  have t: "seen demo_served = length (told 0 demo_served)" unfolding told_def w by code_simp
  have ready: "mget (addrToSc (bal demo_served)) (ep_addr ''h2'') = Some 1" "mget (scToSt (bal demo_served)) 1 = Some Ready"
    by code_simp+
  have kept: "RemoveSubConn sc \<notin> set (bb_calls (bal demo_served))" for sc
  proof -
    have "list_all (\<lambda>c. case c of RemoveSubConn _ \<Rightarrow> False | _ \<Rightarrow> True) (bb_calls (bal demo_served))" by code_simp
    then show ?thesis by (auto simp: list_all_iff)
  qed
  from picks_go_to_endpoints [OF demo_env_ok pol demo_served_reach g t] obtain x p where
    x: "Pick (bb_picker (bal demo_served)) = Ret (x, p)" and
    "case x of Inr sc \<Rightarrow> mget (scToSt (bal demo_served)) sc = Some Ready \<and>
         ((\<exists>ep \<in> set [''h2'', ''h3'']. mget (addrToSc (bal demo_served)) (ep_addr ep) = Some sc) \<or>
          RemoveSubConn sc \<in> set (bb_calls (bal demo_served)))
     | Inl err \<Rightarrow> \<forall>ep sc. ep \<in> set [''h2'', ''h3''] \<longrightarrow> mget (addrToSc (bal demo_served)) (ep_addr ep) = Some sc \<longrightarrow>
         mget (scToSt (bal demo_served)) sc \<noteq> Some Ready"
    by blast
  with ready kept show ?thesis by (cases x) auto
qed

end
