(* ===== verification/ClientWiring.thy ===== *)
theory ClientWiring
  imports GrpcClient Discovery
begin

text \<open>
  How a new client, its resolver and its balancer find each other: \<^verbatim>\<open>init\<close> of
  \<^verbatim>\<open>grpclient/client.go\<close> registers the balancer that \<^verbatim>\<open>NewGRPCClient\<close> then asks for by its name, and
  the target it dials leads to the resolver group it has made.
\<close>

section \<open>The registered balancer\<close>

text \<open>
  gRPC's table of balancer builders, by name; it ignores case, and the only name of this program
  is in lower case.
\<close>

type_synonym builders = "string \<rightharpoonup> balConfig"

definition RegisterBuilder :: "balConfig \<Rightarrow> builders \<Rightarrow> builders" where
  "RegisterBuilder bcfg reg = reg(Name bcfg \<mapsto> bcfg)"

definition client_init :: "builders \<Rightarrow> builders outcome" where
  "client_init reg = obind roundRobinBalancerName (\<lambda>name.
     Ret (RegisterBuilder \<lparr>Policy = RoundrobinBalanced, Name = name\<rparr> reg))"

section \<open>What gRPC makes of a dial\<close>

text \<open>
  A connection: its resolver and its balancer.  gRPC documents that it hands the authority of
  the target to the resolver builder of the target's scheme, and that the last
  \<^verbatim>\<open>WithBalancerName\<close> among the options names the builder of the balancer.
\<close>

record grpc_conn =
  gc_resolver :: nat
  gc_balancer :: baseBalancer

fun balancer_name :: "DialOption list \<Rightarrow> string option" where
  "balancer_name [] = None"
| "balancer_name (opt # opts) =
     (case balancer_name opts of
        Some n \<Rightarrow> Some n
      | None \<Rightarrow> (case opt of WithBalancerName n \<Rightarrow> Some n | _ \<Rightarrow> None))"

definition dial_connects :: "builders \<Rightarrow> (grpc_conn, 'err) dialer \<Rightarrow> bool" where
  "dial_connects reg D \<longleftrightarrow> (\<forall>t target opts R conn R' name bcfg.
     D t target opts R = (Inr conn, R') \<and> balancer_name opts = Some name \<and> reg name = Some bcfg \<longrightarrow>
       (\<exists>now. gc_balancer conn = Build bcfg now) \<and>
       (\<forall>a ep. ParseTarget target = Inr (a, ep) \<longrightarrow> Build_resolver a R = (Inr (gc_resolver conn), R')))"

lemma balancer_name_append: "balancer_name (xs @ ys) = (case balancer_name ys of Some n \<Rightarrow> Some n | None \<Rightarrow> balancer_name xs)"
  by (induction xs) (auto split: option.splits)

lemma balancer_name_None: "\<forall>n. WithBalancerName n \<notin> set opts \<Longrightarrow> balancer_name opts = None"
  by (induction opts) (auto split: DialOption.splits)

lemma dial_name:
  assumes "\<forall>n. WithBalancerName n \<notin> set (DialOptions c)"
  shows "balancer_name (dialSetupOpts c [WithBalancerName name] @ DialOptions c) = Some name"
  using balancer_name_None [OF assms] by (simp add: dialSetupOpts_def balancer_name_append)

section \<open>A new client is served\<close>

text \<open>
  C27 (refinement).  A new client is connected to its endpoints: with the balancer registered by
  \<^verbatim>\<open>init\<close>, and options of the caller that name no other one, the connection that \<^verbatim>\<open>NewGRPCClient\<close>
  returns has the round-robin balancer and a resolver registered with the client's own group,
  which holds the configured endpoints.  It starts as a run of the resolver and the
  balancer together, in which gRPC can hand on the first update, after which the balancer has a
  sub-connection for every configured endpoint, unless gRPC refused to create it, and for nothing
  else.
\<close>

theorem new_client_is_served:
  fixes e :: bal_env
  assumes "rreach (rw W)" and "CHR ''/'' \<notin> set uuid"
    and "client_init reg\<^sub>0 = Ret reg" and "dial_connects reg D" and "env_ok e"
    and "\<forall>n. WithBalancerName n \<notin> set (DialOptions (cfgs W ! p))"
    and "NewGRPCClient parse uuid D p W = Ret (Inr cl, W')"
  defines "eps \<equiv> Endpoints (cfgs W ! p)"
  shows "\<exists>conn g bcfg d.
    Conn cl = Some conn \<and> resolverGroup cl = Some g \<and> client_Endpoints cl W' = eps \<and>
    gc_resolver conn \<in> set (resolvers (groups (rw W') ! g)) \<and> endpoints (groups (rw W') ! g) = eps \<and>
    Policy bcfg = RoundrobinBalanced \<and>
    dreach e bcfg (gc_resolver conn) \<lparr>world = rw W', bal = gc_balancer conn, seen = 0\<rparr> \<and>
    dact e (gc_resolver conn) \<lparr>world = rw W', bal = gc_balancer conn, seen = 0\<rparr> d \<and>
    seen d = length (told (gc_resolver conn) d) \<and>
    (\<forall>a. mget (addrToSc (bal d)) a \<noteq> None \<longrightarrow> a \<in> ep_addr ` set eps) \<and>
    (\<forall>ep \<in> set eps. mget (addrToSc (bal d)) (ep_addr ep) = None \<longrightarrow>
       NewSubConn (ep_addr ep) None \<in> set (bb_calls (bal d)))"
proof -
  let ?id = "group_name uuid" and ?c = "cfgs W ! p" and ?name = "''grpc-picker-roundrobin-balanced''"
  let ?bcfg = "\<lparr>Policy = RoundrobinBalanced, Name = ?name\<rparr>"
  have reg: "reg ?name = Some ?bcfg"
    using assms(3) by (auto simp: client_init_def rr_name RegisterBuilder_def)
  from assms(7) obtain g R1 ep rest where g: "newResolverGroup ?id (rw W) = (Inr g, R1)"
    and eps: "Endpoints ?c = ep # rest"
    by (auto simp: NewGRPCClient_def Let_def split: sum.splits prod.splits list.splits)
  define R where "R = SetEndpoints g (Endpoints ?c) R1"
  obtain proto host sch where ep: "ParseEndpoint parse ep = (proto, host, sch)" by (cases "ParseEndpoint parse ep")
  note ready = new_group_ready [OF assms(1) g, of "Endpoints ?c", folded R_def]
  have target: "Group_Target g host R = Target ?id host" using ready by (simp add: Group_Target_def)
  from assms(7) obtain conn where d: "dialWithBalancer parse D ?c g ep [WithBalancerName ?name] R = (Inr conn, rw W')"
    and cl: "Conn cl = Some conn" "resolverGroup cl = Some g" "client_Endpoints cl W' = eps"
    using g eps by (auto simp: NewGRPCClient_def Let_def rr_name R_def client_Endpoints_def eps_def split: sum.splits prod.splits)
  have name: "balancer_name (dialSetupOpts ?c [WithBalancerName ?name] @ DialOptions ?c @ tail) = Some ?name"
    if "balancer_name tail = None" for tail
    using that dial_name [OF assms(6), of ?name] by (simp add: balancer_name_append)
  obtain t opts where D: "D t (Target ?id host) opts R = (Inr conn, rw W')" "balancer_name opts = Some ?name"
    using d name [of "[]"] name [of "[WithBlock]"]
    by (auto simp: dialWithBalancer_def dial_def ep target Let_def split: if_splits)
  have "ParseTarget (Target ?id host) = Inr (?id, host)" using assms(2) by (simp add: ParseTarget_ok)
  with assms(4) D reg obtain now where bal: "gc_balancer conn = Build ?bcfg now"
    and built: "Build_resolver ?id R = (Inr (gc_resolver conn), rw W')"
    unfolding dial_connects_def by blast
  have mem: "mget (Resolver.resolverGroups R) ?id = Some g" using ready by (simp add: getResolverGroup_def split: option.splits)
  note spec = Build_resolver_spec [OF rreach_winv _ mem]
  let ?r = "gc_resolver conn"
  have r: "?r = length (objs R)" "?r < length (objs (rw W'))" "?r \<in> set (resolvers (groups (rw W') ! g))"
    "endpoints (groups (rw W') ! g) = eps" "cc_told (objs (rw W') ! ?r) = [epsToAddrs eps]" "g < length (groups (rw W'))"
    using spec built ready by (auto simp: eps_def)
  have "rreach (rw W')" using rreach_op [of R "BuildResolver ?id"] ready built by simp
  with r(2) bal have start: "dreach e ?bcfg ?r \<lparr>world = rw W', bal = gc_balancer conn, seen = 0\<rparr>"
    by (simp add: disc_start)
  let ?d = "\<lparr>world = rw W', bal = HandleResolvedAddrs e (gc_balancer conn) (epsToAddrs eps) None, seen = 1\<rparr>"
  have act: "dact e ?r \<lparr>world = rw W', bal = gc_balancer conn, seen = 0\<rparr> ?d"
    using dact.update [of "\<lparr>world = rw W', bal = gc_balancer conn, seen = 0\<rparr>" 0 ?r e] r(5) by (simp add: told_def)
  have all: "seen ?d = length (told ?r ?d)" using r(5) by (simp add: told_def)
  have "serves_addrs (bal ?d) (epsToAddrs eps)"
    using current_addrs [OF assms(5) _ disc_step [OF start act], of g eps] r(3,4,6) all by simp
  then show ?thesis using cl r(3,4) start act all
    by (intro exI [of _ conn] exI [of _ g] exI [of _ ?bcfg] exI [of _ ?d])
      (simp add: serves_addrs_def epsToAddrs_image)
qed

section \<open>A concrete dial\<close>

definition wired :: "builders \<Rightarrow> (grpc_conn, string) dialer" where
  "wired reg t target opts R =
     (case balancer_name opts of
        None \<Rightarrow> (Inl ''no balancer'', R)
      | Some name \<Rightarrow> (case reg name of
          None \<Rightarrow> (Inl ''unknown balancer'', R)
        | Some bcfg \<Rightarrow> (case ParseTarget target of
            Inl err \<Rightarrow> (Inl ''bad target'', R)
          | Inr (a, ep) \<Rightarrow> (case Build_resolver a R of
              (Inl err, R') \<Rightarrow> (Inl ''no resolver'', R')
            | (Inr r, R') \<Rightarrow> (Inr \<lparr>gc_resolver = r, gc_balancer = Build bcfg ''0''\<rparr>, R')))))"

lemma wired_connects: "dial_connects reg (wired reg)"
  by (auto simp: dial_connects_def wired_def split: option.splits sum.splits prod.splits)

theorem new_client_is_served_witness:
  "\<exists>reg cl W' conn d. client_init Map.empty = Ret reg \<and>
     NewGRPCClient (\<lambda>_. None) ''u'' (wired reg) 0 no_world = Ret (Inr cl, W') \<and> Conn cl = Some conn \<and>
     dact Balancer.demo_env (gc_resolver conn) \<lparr>world = rw W', bal = gc_balancer conn, seen = 0\<rparr> d \<and>
     (mget (addrToSc (bal d)) (ep_addr ''h1:1'') \<noteq> None \<or> NewSubConn (ep_addr ''h1:1'') None \<in> set (bb_calls (bal d)))"
proof -
  let ?reg = "RegisterBuilder \<lparr>Policy = RoundrobinBalanced, Name = ''grpc-picker-roundrobin-balanced''\<rparr> Map.empty"
  have reg: "client_init Map.empty = Ret ?reg" by (simp add: client_init_def rr_name)
  have "case NewGRPCClient (\<lambda>_. None) ''u'' (wired ?reg) 0 no_world of Ret (Inr _, _) \<Rightarrow> True | _ \<Rightarrow> False"
    by code_simp
  then obtain cl W' where n: "NewGRPCClient (\<lambda>_. None) ''u'' (wired ?reg) 0 no_world = Ret (Inr cl, W')"
    by (auto split: outcome.splits sum.splits prod.splits)
  have u: "CHR ''/'' \<notin> set ''u''" by simp
  have user: "\<forall>n. WithBalancerName n \<notin> set (DialOptions (cfgs no_world ! 0))"
    by (simp add: no_world_def GrpcClient.demo_cfg_def)
  have eps: "''h1:1'' \<in> set (Endpoints (cfgs no_world ! 0))" by (simp add: no_world_def GrpcClient.demo_cfg_def)
  from new_client_is_served [OF no_world_reach u reg wired_connects demo_env_ok user n] eps reg n
  show ?thesis by blast
qed

end
