(* ===== verification/WatchClient.thy ===== *)
theory WatchClient
  imports WatchPB
begin

text \<open>
  The sequential parts of the watch client: the requests of \<^verbatim>\<open>watchclient/watch_request.go\<close>,
  the error classification of \<^verbatim>\<open>watchclient/watcher.go\<close> and the reconnect loop
  \<^verbatim>\<open>openWatchClient\<close> of \<^verbatim>\<open>watchclient/watch_grpc_stream.go\<close> with its backoff.
\<close>

section \<open>Requests\<close>

record watchCreateRequest =
  wcr_watchID :: string
  wcr_app :: "App option"

record watchCancelRequest =
  wca_watchID :: string

definition toPB_create :: "watchCreateRequest \<Rightarrow> WatchRequest" where
  "toPB_create wcr =
     (let req = \<lparr>create_watch_id = wcr_watchID wcr, create_app = wcr_app wcr\<rparr>
      in Some (CreateRequest (Some req)))"

definition toPB_cancel :: "watchCancelRequest \<Rightarrow> WatchRequest" where
  "toPB_cancel wcr =
     (let req = \<lparr>cancel_watch_id = wca_watchID wcr\<rparr>
      in Some (CancelRequest (Some req)))"

text \<open>The interface \<^verbatim>\<open>watchStreamRequest\<close>: its two implementations as one type.\<close>

datatype watchStreamRequest = Create watchCreateRequest | Cancel watchCancelRequest

fun toPB :: "watchStreamRequest \<Rightarrow> WatchRequest" where
  "toPB (Create r) = toPB_create r"
| "toPB (Cancel r) = toPB_cancel r"

text \<open>What a server that decodes the request finds in it.\<close>

fun request_watch_id :: "WatchRequest \<Rightarrow> string option" where
  "request_watch_id (Some (CreateRequest (Some r))) = Some (create_watch_id r)"
| "request_watch_id (Some (CancelRequest (Some r))) = Some (cancel_watch_id r)"
| "request_watch_id _ = None"

locale stream_request =
  fixes encode :: "'r \<Rightarrow> WatchRequest"
    and watch_id :: "'r \<Rightarrow> string"
  assumes encode_id: "request_watch_id (encode r) = Some (watch_id r)"
    and encode_inj: "encode r = encode r' \<Longrightarrow> r = r'"
begin

lemma encode_eq_iff: "encode r = encode r' \<longleftrightarrow> r = r'"
  using encode_inj by blast

lemma encode_not_empty: "encode r \<noteq> None"
  using encode_id [of r] by (cases "encode r") auto

end

interpretation create_req: stream_request toPB_create wcr_watchID
proof
  show "toPB_create r = toPB_create r' \<Longrightarrow> r = r'" for r r'
    by (cases r; cases r') (simp add: toPB_create_def Let_def)
qed (simp add: toPB_create_def Let_def)

interpretation cancel_req: stream_request toPB_cancel wca_watchID
proof
  show "toPB_cancel r = toPB_cancel r' \<Longrightarrow> r = r'" for r r'
    by (cases r; cases r') (simp add: toPB_cancel_def Let_def)
qed (simp add: toPB_cancel_def Let_def)

fun stream_request_id :: "watchStreamRequest \<Rightarrow> string" where
  "stream_request_id (Create r) = wcr_watchID r"
| "stream_request_id (Cancel r) = wca_watchID r"

lemma toPB_create_cancel: "toPB_create r \<noteq> toPB_cancel r'"
  by (simp add: toPB_create_def toPB_cancel_def Let_def)

interpretation any_req: stream_request toPB stream_request_id
proof
  show "request_watch_id (toPB r) = Some (stream_request_id r)" for r
    by (cases r) (simp_all add: create_req.encode_id cancel_req.encode_id)
  show "toPB r = toPB r' \<Longrightarrow> r = r'" for r r'
    by (cases r; cases r')
      (auto simp: create_req.encode_eq_iff cancel_req.encode_eq_iff toPB_create_cancel
        toPB_create_cancel [symmetric])
qed

section \<open>Error classification\<close>

text \<open>
  A context is nil, or has the error its \<^verbatim>\<open>Err\<close> method returns at this moment.
  \<^verbatim>\<open>FromError\<close> is only reached with an error that is not nil.
\<close>

type_synonym 'err ctx = "'err option option"

definition ctx_done :: "'err ctx \<Rightarrow> bool" where
  "ctx_done ctx \<longleftrightarrow> (case ctx of Some (Some _) \<Rightarrow> True | _ \<Rightarrow> False)"

definition isHaltErr :: "'err grpc_errors \<Rightarrow> 'err ctx \<Rightarrow> 'err option \<Rightarrow> bool" where
  "isHaltErr g ctx err =
     (if ctx_done ctx then True
      else case err of
          None \<Rightarrow> False
        | Some e \<Rightarrow>
            (let (ev, _) = FromError g e in fst ev \<noteq> Unavailable \<and> fst ev \<noteq> Internal))"

definition isUnavailableErr :: "'err grpc_errors \<Rightarrow> 'err ctx \<Rightarrow> 'err option \<Rightarrow> bool" where
  "isUnavailableErr g ctx err =
     (if ctx_done ctx then False
      else case err of
          None \<Rightarrow> False
        | Some e \<Rightarrow> (let (ev, ok) = FromError g e in if ok then fst ev = Unavailable else False))"

section \<open>The reconnect loop\<close>

text \<open>Durations are counted in nanoseconds, as \<^verbatim>\<open>time.Duration\<close> does in an \<^verbatim>\<open>int64\<close>.\<close>

definition Millisecond :: int where "Millisecond = 1000000"
definition maxBackoff :: int where "maxBackoff = 2000 * Millisecond"

text \<open>Go's division truncates; backoffs are positive, so it is HOL's \<open>div\<close>.\<close>

definition next_backoff :: "int \<Rightarrow> int" where
  "next_backoff backoff =
     (if backoff < maxBackoff
      then (let backoff = backoff + backoff div 4
            in if maxBackoff < backoff then maxBackoff else backoff)
      else backoff)"

text \<open>The loop variables of \<^verbatim>\<open>openWatchClient\<close>, with the sleeps it has taken so far.\<close>

record open_state =
  backoff :: int
  retryTimes :: int
  slept :: "int list"

definition open_init :: open_state where
  "open_init = \<lparr>backoff = Millisecond, retryTimes = 0, slept = []\<rparr>"

text \<open>
  One round of the loop.  The environment decides the context's error when the loop selects
  on it (\<open>at_select\<close>), what \<^verbatim>\<open>remote.Watch\<close> returns, and the context's error when the
  result is classified.
\<close>

record ('ws, 'err) attempt =
  at_select :: "'err option"
  got_stream :: "'ws option"
  got_err :: "'err option"
  at_classify :: "'err option"

datatype ('ws, 'err) open_result = Opened 'ws | OpenFailed 'err | OpenReturnedNil | Again open_state

definition open_classify ::
    "'err grpc_errors \<Rightarrow> ('ws, 'err) attempt \<Rightarrow> open_state \<Rightarrow> ('ws, 'err) open_result" where
  "open_classify g a st =
     (case (got_stream a, got_err a) of
        (Some ws, None) \<Rightarrow> Opened ws
      | _ \<Rightarrow>
         (if isHaltErr g (Some (at_classify a)) (got_err a)
          then (case got_err a of Some e \<Rightarrow> OpenFailed e | None \<Rightarrow> OpenReturnedNil)
          else if isUnavailableErr g (Some (at_classify a)) (got_err a)
          then (let b = next_backoff (backoff st)
                in Again \<lparr>backoff = b, retryTimes = retryTimes st + 1, slept = slept st @ [b]\<rparr>)
          else Again st))"

definition open_round ::
    "'err grpc_errors \<Rightarrow> ('ws, 'err) attempt \<Rightarrow> open_state \<Rightarrow> ('ws, 'err) open_result" where
  "open_round g a st =
     (case at_select a of
        Some e \<Rightarrow> OpenFailed e
      | None \<Rightarrow> open_classify g a st)"

text \<open>
  The loop itself has no bound on its rounds, so it is run along the behaviour of the
  environment: \<open>Again st\<close> means that the loop is still running when the list is used up.
\<close>

fun openWatchClient ::
    "'err grpc_errors \<Rightarrow> ('ws, 'err) attempt list \<Rightarrow> open_state \<Rightarrow> ('ws, 'err) open_result" where
  "openWatchClient g [] st = Again st"
| "openWatchClient g (a # as) st =
     (case open_round g a st of Again st' \<Rightarrow> openWatchClient g as st' | r \<Rightarrow> r)"

section \<open>The backoff schedule\<close>

lemma maxBackoff_eq: "maxBackoff = 2000000000"
  by (simp add: maxBackoff_def Millisecond_def)

lemma next_backoff_bounds:
  assumes "Millisecond \<le> b" and "b \<le> maxBackoff"
  shows "b \<le> next_backoff b" and "next_backoff b \<le> maxBackoff" and "b + b div 4 < 2 ^ 63"
    and "1250000 \<le> next_backoff b"
  using assms by (auto simp: next_backoff_def maxBackoff_eq Millisecond_def Let_def)

lemma next_backoff_max: "next_backoff maxBackoff = maxBackoff"
  by (simp add: next_backoff_def)

text \<open>The schedule counts the sleeps: the backoff after \<open>n\<close> of them.\<close>

definition backoff_after :: "nat \<Rightarrow> int" where
  "backoff_after n = (next_backoff ^^ n) Millisecond"

lemma backoff_after_simps [simp]:
  "backoff_after 0 = Millisecond" "backoff_after (Suc n) = next_backoff (backoff_after n)"
  by (simp_all add: backoff_after_def)

lemma backoff_after_bounds: "Millisecond \<le> backoff_after n \<and> backoff_after n \<le> maxBackoff"
proof (induction n)
  case 0
  show ?case by (simp add: maxBackoff_eq Millisecond_def)
next
  case (Suc n)
  then show ?case using next_backoff_bounds(1,2) [of "backoff_after n"] by auto
qed

lemma backoff_after_mono: "m \<le> n \<Longrightarrow> backoff_after m \<le> backoff_after n"
proof (induction rule: dec_induct)
  case (step n)
  then show ?case using next_backoff_bounds(1) [of "backoff_after n"] backoff_after_bounds [of n] by auto
qed simp

lemma backoff_after_35: "backoff_after 35 = maxBackoff"
  by (simp add: backoff_after_def numeral_eq_Suc next_backoff_def maxBackoff_eq Millisecond_def Let_def)

lemma backoff_after_saturates: "35 \<le> n \<Longrightarrow> backoff_after n = maxBackoff"
  using backoff_after_mono [of 35 n] backoff_after_bounds [of n] backoff_after_35 by simp

text \<open>The loop variables always lie on the schedule.\<close>

definition on_schedule :: "open_state \<Rightarrow> bool" where
  "on_schedule st \<longleftrightarrow>
     backoff st = backoff_after (length (slept st)) \<and>
     retryTimes st = int (length (slept st)) \<and>
     slept st = map (\<lambda>i. backoff_after (Suc i)) [0..<length (slept st)]"

lemma on_schedule_init: "on_schedule open_init"
  by (simp add: on_schedule_def open_init_def)

lemma open_round_Again:
  "open_round g a st = Again st' \<Longrightarrow>
    st' = st \<or>
    st' = \<lparr>backoff = next_backoff (backoff st), retryTimes = retryTimes st + 1,
           slept = slept st @ [next_backoff (backoff st)]\<rparr>"
  by (auto simp: open_round_def open_classify_def Let_def split: option.splits if_splits)

lemma on_schedule_round: "open_round g a st = Again st' \<Longrightarrow> on_schedule st \<Longrightarrow> on_schedule st'"
  by (auto simp: on_schedule_def dest!: open_round_Again)

lemma on_schedule_loop:
  "openWatchClient g as st = Again st' \<Longrightarrow> on_schedule st \<Longrightarrow> on_schedule st'"
  by (induction as arbitrary: st) (auto split: open_result.splits intro: on_schedule_round)

section \<open>Rounds by their outcome\<close>

definition retriable :: "Code \<Rightarrow> bool" where
  "retriable c \<longleftrightarrow> c = Unavailable \<or> c = Internal"

text \<open>A round whose dial fails with an error the client is meant to survive.\<close>

definition retry_round :: "'err grpc_errors \<Rightarrow> ('ws, 'err) attempt \<Rightarrow> bool" where
  "retry_round g a \<longleftrightarrow> at_select a = None \<and> at_classify a = None \<and> got_stream a = None \<and>
     (\<exists>e. got_err a = Some e \<and> snd (FromError g e) \<and> retriable (errCode g e))"

lemma isHaltErr_live:
  "isHaltErr g (Some None) (Some e) \<longleftrightarrow> \<not> retriable (errCode g e)"
  by (auto simp: isHaltErr_def ctx_done_def retriable_def Let_def split: prod.splits)

lemma isUnavailableErr_live:
  "isUnavailableErr g (Some None) (Some e) \<longleftrightarrow> snd (FromError g e) \<and> errCode g e = Unavailable"
  by (auto simp: isUnavailableErr_def ctx_done_def Let_def split: prod.splits)

lemma retry_round_Again:
  assumes "retry_round g a"
  shows "open_round g a st = Again
    (if errCode g (the (got_err a)) = Unavailable
     then \<lparr>backoff = next_backoff (backoff st), retryTimes = retryTimes st + 1,
           slept = slept st @ [next_backoff (backoff st)]\<rparr>
     else st)"
  using assms
  by (auto simp: retry_round_def open_round_def open_classify_def isHaltErr_live
      isUnavailableErr_live retriable_def Let_def)

lemma retry_rounds_loop:
  assumes "\<forall>a \<in> set pre. retry_round g a"
  shows "\<exists>st'. openWatchClient g (pre @ as) st = openWatchClient g as st' \<and>
    length (slept st') = length (slept st) +
      length (filter (\<lambda>a. errCode g (the (got_err a)) = Unavailable) pre) \<and>
    openWatchClient g pre st = Again st'"
  using assms
proof (induction pre arbitrary: st)
  case (Cons a pre)
  let ?st = "if errCode g (the (got_err a)) = Unavailable
     then \<lparr>backoff = next_backoff (backoff st), retryTimes = retryTimes st + 1,
           slept = slept st @ [next_backoff (backoff st)]\<rparr> else st"
  have "open_round g a st = Again ?st"
    using Cons.prems by (simp add: retry_round_Again)
  with Cons.IH [of ?st] Cons.prems show ?case by auto
qed simp

section \<open>Properties\<close>

text \<open>
  C37 (bounds).  Whatever the network does, the sleeps of a reconnect loop that is still
  running follow one fixed schedule: the \<open>i\<close>-th sleep is the \<open>i\<close>-th value of the schedule,
  which starts at 1.25 milliseconds, never decreases, never exceeds two seconds and is two
  seconds from the 35th sleep on; the sum that computes it stays within 63 bits.
\<close>

theorem backoff_schedule:
  assumes "openWatchClient g as open_init = Again st" and "i < length (slept st)"
  shows "slept st ! i = backoff_after (Suc i) \<and> 1250000 \<le> slept st ! i \<and>
    slept st ! i \<le> maxBackoff \<and> (\<forall>j \<le> i. slept st ! j \<le> slept st ! i) \<and>
    (34 \<le> i \<longrightarrow> slept st ! i = 2000000000) \<and>
    backoff_after i + backoff_after i div 4 < 2 ^ 63 \<and> retryTimes st = int (length (slept st))"
proof -
  have "on_schedule st"
    using assms(1) on_schedule_init by (rule on_schedule_loop)
  then have at: "slept st ! j = backoff_after (Suc j)" if "j < length (slept st)" for j
    using that unfolding on_schedule_def by (metis add_0 nth_map_upt diff_zero)
  have bnd: "1250000 \<le> backoff_after (Suc i)" "backoff_after i + backoff_after i div 4 < 2 ^ 63"
    using next_backoff_bounds [of "backoff_after i"] backoff_after_bounds [of i] by auto
  moreover have "\<forall>j \<le> i. slept st ! j \<le> slept st ! i"
    using at assms(2) backoff_after_mono by (metis Suc_le_mono order_le_less_trans)
  moreover have "34 \<le> i \<longrightarrow> backoff_after (Suc i) = 2000000000"
    using backoff_after_saturates [of "Suc i"] by (simp add: maxBackoff_eq)
  moreover have "retryTimes st = int (length (slept st))"
    using \<open>on_schedule st\<close> by (simp add: on_schedule_def)
  ultimately show ?thesis
    using at [OF assms(2)] backoff_after_bounds [of "Suc i"] by (simp del: backoff_after_simps)
qed

definition demo_attempt :: "demo_err option \<Rightarrow> nat option \<Rightarrow> (nat, demo_err) attempt" where
  "demo_attempt err ws = \<lparr>at_select = None, got_stream = ws, got_err = err, at_classify = None\<rparr>"

definition demo_down :: "(nat, demo_err) attempt" where
  "demo_down = demo_attempt (Some (StatusErr Unavailable ''down'')) None"

lemmas demo_attempt_defs = demo_down_def demo_attempt_def demo_errors_def

theorem backoff_schedule_witness:
  "\<exists>st. openWatchClient demo_errors [demo_down, demo_down] open_init = Again st \<and>
     slept st ! 1 = 1562500 \<and> slept st ! 0 \<le> slept st ! 1"
proof -
  let ?st = "\<lparr>backoff = 1562500, retryTimes = 2, slept = [1250000, 1562500]\<rparr>"
  have run: "openWatchClient demo_errors [demo_down, demo_down] open_init = Again ?st"
    by (simp add: demo_attempt_defs open_init_def open_round_def open_classify_def isHaltErr_def
      isUnavailableErr_def ctx_done_def next_backoff_def maxBackoff_eq Millisecond_def Let_def)
  from backoff_schedule [OF this, of 1] have "slept ?st ! 0 \<le> slept ?st ! 1" by simp
  with run show ?thesis by (intro exI [of _ ?st]) simp
qed

text \<open>
  The loop survives any number of Unavailable and Internal failures: as soon
  as one dial succeeds under a live context it returns that stream, having slept once for
  each Unavailable failure and not at all for an Internal one.
\<close>

theorem open_reconnects:
  assumes "\<forall>a \<in> set pre. retry_round g a" and "at_select a = None"
    and "got_stream a = Some ws" and "got_err a = None"
  shows "openWatchClient g (pre @ a # rest) open_init = Opened ws \<and>
    (\<exists>st. openWatchClient g pre open_init = Again st \<and>
      length (slept st) = length (filter (\<lambda>a. errCode g (the (got_err a)) = Unavailable) pre))"
proof -
  obtain st where "openWatchClient g (pre @ a # rest) open_init = openWatchClient g (a # rest) st"
    and "openWatchClient g pre open_init = Again st"
    and "length (slept st) = length (filter (\<lambda>a. errCode g (the (got_err a)) = Unavailable) pre)"
    using retry_rounds_loop [OF assms(1), of "a # rest" open_init] by (auto simp: open_init_def)
  with assms(2-) show ?thesis
    by (simp add: open_round_def open_classify_def)
qed

theorem open_reconnects_witness:
  "openWatchClient demo_errors
     ([demo_down, demo_attempt (Some (StatusErr Internal ''io'')) None] @ demo_attempt None (Some 7) # [])
     open_init = Opened 7"
proof -
  let ?pre = "[demo_down, demo_attempt (Some (StatusErr Internal ''io'')) None]"
  have "\<forall>a \<in> set ?pre. retry_round demo_errors a"
    by (simp add: retry_round_def retriable_def demo_attempt_defs)
  from open_reconnects [OF this, of "demo_attempt None (Some 7)" 7 "[]"] show ?thesis
    by (simp add: demo_attempt_def)
qed

text \<open>
  The loop gives up only for a reason: the error it returns is the context's
  error seen at its select, or it is the error of a dial, and then the context was done when
  it was classified or its code is neither Unavailable nor Internal.
\<close>

theorem open_failure_reason:
  assumes "openWatchClient g as st = OpenFailed e"
  shows "\<exists>a \<in> set as. at_select a = Some e \<or>
    (at_select a = None \<and> got_err a = Some e \<and>
      (at_classify a \<noteq> None \<or> errCode g e \<noteq> Unavailable \<and> errCode g e \<noteq> Internal))"
  using assms
proof (induction as arbitrary: st)
  case (Cons a as)
  show ?case
  proof (cases "open_round g a st")
    case (OpenFailed e')
    with Cons.prems have "open_round g a st = OpenFailed e" by simp
    then show ?thesis
      by (auto simp: open_round_def open_classify_def isHaltErr_live retriable_def Let_def
        split: option.splits if_splits)
  qed (use Cons in auto)
qed simp

theorem open_failure_reason_witness:
  "\<exists>a \<in> set [demo_down, demo_attempt (Some (StatusErr Unimplemented ''no'')) None].
     got_err a = Some (StatusErr Unimplemented ''no'')"
proof -
  have "openWatchClient demo_errors [demo_down, demo_attempt (Some (StatusErr Unimplemented ''no'')) None]
      open_init = OpenFailed (StatusErr Unimplemented ''no'')"
    by (simp add: demo_attempt_defs open_round_def open_classify_def isHaltErr_def
      isUnavailableErr_def ctx_done_def Let_def)
  from open_failure_reason [OF this] show ?thesis
    by (auto simp: demo_attempt_defs)
qed

end
