(* ===== verification/WatchStream.thy ===== *)
theory WatchStream
  imports WatchClient
begin

text \<open>
  One watch stream of the client: \<^verbatim>\<open>watchGrpcStream\<close> of
  \<^verbatim>\<open>watchclient/watch_grpc_stream.go\<close> with its goroutine \<^verbatim>\<open>run\<close>, the goroutines
  \<^verbatim>\<open>serveWatchClient\<close> (one per connection it has opened) and its channels.  Each rule of the
  step relation is one communication or one choice of a \<^verbatim>\<open>select\<close>.  The calls that other
  goroutines make on the stream are the theory WatchSys.
\<close>

section \<open>State\<close>

text \<open>
  Where \<^verbatim>\<open>run\<close> is: in the reconnect loop before its select or in a dial (with the flag
  that tells the first connection from a later one), in the main select with the current
  connection, at the \<^verbatim>\<open>Send\<close> of a request it has taken from \<^verbatim>\<open>reqc\<close>, in the deferred function
  before the send and before \<^verbatim>\<open>closeStream\<close>, or gone.
\<close>

datatype 'err run_pc =
    ROpen bool open_state
  | RDial bool open_state
  | RLoop nat
  | RSend nat watchStreamRequest
  | RDeferSend 'err
  | RDeferClose
  | RExit

datatype 'err serve_pc = SRecv | SResp WatchResponse | SErr 'err | SExit

text \<open>
  Connections are numbered in the order they were opened; \<open>serves ! k\<close> is the goroutine of
  connection \<open>k\<close>.  \<open>reqc\<close> and \<open>respc\<close> are unbuffered, so they have no state; \<open>errc\<close> holds
  at most one error.  The last five fields record history: the requests handed to the \<^verbatim>\<open>Send\<close>
  of each connection, whose error the code only logs, the responses received from the server, those the consumer has taken, the
  cancellation notice it was given, and whether \<^verbatim>\<open>Watch\<close> has handed \<open>respc\<close> out.
\<close>

record 'err wgs =
  wgs_watchID :: string
  wgs_initReq :: watchCreateRequest
  wgs_pctx :: nat
  cancelled :: bool
  donec :: bool
  errc :: "'err option"
  run :: "'err run_pc"
  serves :: "'err serve_pc list"
  sent :: "(nat \<times> WatchRequest) list"
  recvd :: "WatchResponse list"
  taken :: "WatchResponse list"
  notice :: "WatchResponse option"
  handed :: bool

text \<open>\<^verbatim>\<open>newWatcherGrpcStream\<close>: the fresh stream, with \<^verbatim>\<open>run\<close> started.\<close>

definition newWatcherGrpcStream :: "nat \<Rightarrow> string \<Rightarrow> watchCreateRequest \<Rightarrow> 'err wgs" where
  "newWatcherGrpcStream inctx watchID initReq =
     \<lparr>wgs_watchID = watchID, wgs_initReq = initReq, wgs_pctx = inctx, cancelled = False,
      donec = False, errc = None, run = ROpen True open_init, serves = [], sent = [],
      recvd = [], taken = [], notice = None, handed = False\<rparr>"

text \<open>
  The generated \<^verbatim>\<open>Watch\<close> of \<^verbatim>\<open>watchpb.pb.go\<close> returns a stream or an error, never both
  and never neither.
\<close>

definition rpc_Watch_result :: "('ws, 'err) attempt \<Rightarrow> bool" where
  "rpc_Watch_result a \<longleftrightarrow> (got_stream a = None) = (got_err a \<noteq> None)"

definition cancel_notice :: "string \<Rightarrow> WatchResponse" where
  "cancel_notice reason = empty_response\<lparr>canceled := True, cancel_reason := reason\<rparr>"

section \<open>Steps\<close>

text \<open>
  The stream's context is done when it was cancelled itself or its parent is done
  (\<open>pdone\<close>); the error it then reports belongs to the \<^verbatim>\<open>context\<close> package and is any value.
\<close>

definition ctx_over :: "bool \<Rightarrow> 'err wgs \<Rightarrow> bool" where
  "ctx_over pdone w \<longleftrightarrow> cancelled w \<or> pdone"

definition ctx_at :: "bool \<Rightarrow> 'err wgs \<Rightarrow> 'err \<Rightarrow> 'err ctx" where
  "ctx_at pdone w e = Some (if ctx_over pdone w then Some e else None)"

text \<open>
  What \<^verbatim>\<open>newWatchClient\<close> and its two call sites do with a connection: start the receiving
  goroutine, and after a reconnect hand the initial request to \<^verbatim>\<open>Send\<close> again, which is the next
  thing \<^verbatim>\<open>run\<close> does.
\<close>

definition connected :: "bool \<Rightarrow> 'err wgs \<Rightarrow> 'err wgs" where
  "connected first w =
     (let k = length (serves w);
          w = w\<lparr>serves := serves w @ [SRecv], run := RLoop k\<rparr>
      in if first then w else w\<lparr>sent := sent w @ [(k, toPB_create (wgs_initReq w))]\<rparr>)"

definition serve_to :: "nat \<Rightarrow> 'err serve_pc \<Rightarrow> 'err wgs \<Rightarrow> 'err wgs" where
  "serve_to k pc w = w\<lparr>serves := (serves w)[k := pc]\<rparr>"

inductive sstep :: "'err grpc_errors \<Rightarrow> bool \<Rightarrow> 'err wgs \<Rightarrow> 'err wgs \<Rightarrow> bool" for g pdone where
  \<comment> \<open>\<^verbatim>\<open>openWatchClient\<close>: the select on the context, then one dial\<close>
  open_done: "run w = ROpen first st \<Longrightarrow> ctx_over pdone w \<Longrightarrow>
    sstep g pdone w (w\<lparr>run := RDeferSend e\<rparr>)"
| open_go: "run w = ROpen first st \<Longrightarrow> \<not> ctx_over pdone w \<Longrightarrow>
    sstep g pdone w (w\<lparr>run := RDial first st\<rparr>)"
| dial_ok: "run w = RDial first st \<Longrightarrow> rpc_Watch_result (a :: (unit, 'err) attempt) \<Longrightarrow>
    Some (at_classify a) = ctx_at pdone w e \<Longrightarrow> open_classify g a st = Opened ws \<Longrightarrow>
    sstep g pdone w (connected first w)"
| dial_failed: "run w = RDial first st \<Longrightarrow> rpc_Watch_result (a :: (unit, 'err) attempt) \<Longrightarrow>
    Some (at_classify a) = ctx_at pdone w e \<Longrightarrow> open_classify g a st = OpenFailed err \<Longrightarrow>
    sstep g pdone w (w\<lparr>run := RDeferSend err\<rparr>)"
| dial_again: "run w = RDial first st \<Longrightarrow> rpc_Watch_result (a :: (unit, 'err) attempt) \<Longrightarrow>
    Some (at_classify a) = ctx_at pdone w e \<Longrightarrow> open_classify g a st = Again st' \<Longrightarrow>
    sstep g pdone w (w\<lparr>run := ROpen first st'\<rparr>)"
  \<comment> \<open>the main select of \<^verbatim>\<open>run\<close>\<close>
| run_halt: "run w = RLoop k \<Longrightarrow> errc w = Some err \<Longrightarrow>
    isHaltErr g (ctx_at pdone w e) (Some err) \<Longrightarrow>
    sstep g pdone w (w\<lparr>errc := None, run := RDeferSend err\<rparr>)"
| run_retry: "run w = RLoop k \<Longrightarrow> errc w = Some err \<Longrightarrow>
    \<not> isHaltErr g (ctx_at pdone w e) (Some err) \<Longrightarrow>
    sstep g pdone w (w\<lparr>errc := None, run := ROpen False open_init\<rparr>)"
| run_send: "run w = RSend k req \<Longrightarrow>
    sstep g pdone w (w\<lparr>sent := sent w @ [(k, toPB req)], run := RLoop k\<rparr>)"
| run_ctx: "run w = RLoop k \<Longrightarrow> ctx_over pdone w \<Longrightarrow> sstep g pdone w (w\<lparr>run := RExit\<rparr>)"
| run_donec: "run w = RLoop k \<Longrightarrow> donec w \<Longrightarrow> sstep g pdone w (w\<lparr>run := RExit\<rparr>)"
  \<comment> \<open>the deferred function: the consumer takes the notice\<close>
| defer_send: "run w = RDeferSend err \<Longrightarrow> handed w \<Longrightarrow>
    sstep g pdone w (w\<lparr>run := RDeferClose, notice := Some (cancel_notice (ErrorText g err))\<rparr>)"
  \<comment> \<open>\<^verbatim>\<open>serveWatchClient\<close>\<close>
| recv_resp: "k < length (serves w) \<Longrightarrow> serves w ! k = SRecv \<Longrightarrow>
    sstep g pdone w (serve_to k (SResp r) (w\<lparr>recvd := recvd w @ [r]\<rparr>))"
| recv_err: "k < length (serves w) \<Longrightarrow> serves w ! k = SRecv \<Longrightarrow>
    sstep g pdone w (serve_to k (SErr err) w)"
| give_err: "k < length (serves w) \<Longrightarrow> serves w ! k = SErr err \<Longrightarrow> errc w = None \<Longrightarrow>
    sstep g pdone w (serve_to k SExit (w\<lparr>errc := Some err\<rparr>))"
| drop_err: "k < length (serves w) \<Longrightarrow> serves w ! k = SErr err \<Longrightarrow> donec w \<Longrightarrow>
    sstep g pdone w (serve_to k SExit w)"
| give_resp: "k < length (serves w) \<Longrightarrow> serves w ! k = SResp r \<Longrightarrow> handed w \<Longrightarrow>
    sstep g pdone w (serve_to k SRecv (w\<lparr>taken := taken w @ [r]\<rparr>))"
| drop_resp: "k < length (serves w) \<Longrightarrow> serves w ! k = SResp r \<Longrightarrow> donec w \<Longrightarrow>
    sstep g pdone w (serve_to k SExit w)"

inductive_cases sstepE: "sstep g pdone w w'"

text \<open>
  The operations other goroutines perform on a stream: the exchange on the unbuffered \<^verbatim>\<open>reqc\<close>,
  after which the caller goes on and \<^verbatim>\<open>run\<close> has the request still to send; \<^verbatim>\<open>wgs.cancel()\<close>;
  \<^verbatim>\<open>close(wgs.donec)\<close>, which panics when the channel is already closed.
\<close>

definition take_req :: "nat \<Rightarrow> watchStreamRequest \<Rightarrow> 'err wgs \<Rightarrow> 'err wgs" where
  "take_req k req w = w\<lparr>run := RSend k req\<rparr>"

definition cancel_ctx :: "'err wgs \<Rightarrow> 'err wgs" where
  "cancel_ctx w = w\<lparr>cancelled := True\<rparr>"

definition close_donec :: "'err wgs \<Rightarrow> 'err wgs outcome" where
  "close_donec w = (if donec w then Panic CloseOfClosed else Ret (w\<lparr>donec := True\<rparr>))"

section \<open>The stream invariant\<close>

text \<open>
  Only the newest receiving goroutine can be alive.  It is not while \<^verbatim>\<open>run\<close> reconnects or
  is in its deferred function, nor while a receive error waits in \<^verbatim>\<open>errc\<close>, nor after the
  consumer was given the cancellation notice.
\<close>

definition newest :: "'err wgs \<Rightarrow> 'err serve_pc" where
  "newest w = (if serves w = [] then SExit else last (serves w))"

definition idle :: "'err wgs \<Rightarrow> bool" where
  "idle w \<longleftrightarrow> newest w = SExit \<and> errc w = None"

fun run_ok :: "'err wgs \<Rightarrow> 'err run_pc \<Rightarrow> bool" where
  "run_ok w (ROpen first st) = (idle w \<and> notice w = None \<and> first = (serves w = []))"
| "run_ok w (RDial first st) = (idle w \<and> notice w = None \<and> first = (serves w = []))"
| "run_ok w (RLoop k) = (notice w = None \<and> length (serves w) = Suc k)"
| "run_ok w (RSend k req) = (notice w = None \<and> length (serves w) = Suc k)"
| "run_ok w (RDeferSend e) = (idle w \<and> notice w = None)"
| "run_ok w RDeferClose = (idle w \<and> notice w \<noteq> None)"
| "run_ok w RExit = (notice w \<noteq> None \<longrightarrow> idle w)"

definition serve_inv :: "'err wgs \<Rightarrow> bool" where
  "serve_inv w \<longleftrightarrow>
     (\<forall>pc \<in> set (butlast (serves w)). pc = SExit) \<and>
     (errc w \<noteq> None \<longrightarrow> newest w = SExit) \<and>
     run_ok w (run w)"

text \<open>
  The consumer gets what was received, in order: what is received and not yet taken is at
  most one response, and it is in the hands of the newest goroutine, or it was dropped
  because the stream is closed, after which no goroutine receives.
\<close>

definition pending :: "'err wgs \<Rightarrow> WatchResponse list" where
  "pending w = (case newest w of SResp r \<Rightarrow> [r] | _ \<Rightarrow> [])"

fun reconnecting :: "'err run_pc \<Rightarrow> bool" where
  "reconnecting (ROpen first st) = True"
| "reconnecting (RDial first st) = True"
| "reconnecting _ = False"

definition deliver_inv :: "'err wgs \<Rightarrow> bool" where
  "deliver_inv w \<longleftrightarrow>
     recvd w = taken w @ pending w \<or>
     (donec w \<and> idle w \<and> \<not> reconnecting (run w) \<and> (\<exists>r. recvd w = taken w @ [r]))"

text \<open>What \<^verbatim>\<open>run\<close> was asked to send: the request in its hands counts.\<close>

definition requested :: "'err wgs \<Rightarrow> (nat \<times> WatchRequest) list" where
  "requested w = sent w @ (case run w of RSend k req \<Rightarrow> [(k, toPB req)] | _ \<Rightarrow> [])"

text \<open>
  Every connection after the first starts with the initial request, and a stream whose channel
  was given away has that request sent or in the hands of \<^verbatim>\<open>run\<close>.
\<close>

definition requests_on :: "nat \<Rightarrow> 'err wgs \<Rightarrow> WatchRequest list" where
  "requests_on k w = map snd (filter (\<lambda>x. fst x = k) (sent w))"

definition sent_inv :: "'err wgs \<Rightarrow> bool" where
  "sent_inv w \<longleftrightarrow>
     (\<forall>x \<in> set (sent w). fst x < length (serves w)) \<and>
     (\<forall>k. 0 < k \<and> k < length (serves w) \<longrightarrow>
        (\<exists>rs. requests_on k w = toPB_create (wgs_initReq w) # rs)) \<and>
     (handed w \<longrightarrow> (\<exists>k. (k, toPB_create (wgs_initReq w)) \<in> set (requested w)))"

definition stream_inv :: "'err wgs \<Rightarrow> bool" where
  "stream_inv w \<longleftrightarrow> serve_inv w \<and> deliver_inv w \<and> sent_inv w"

section \<open>The invariant is kept\<close>

lemma new_stream_inv: "stream_inv (newWatcherGrpcStream c wid req)"
  by (simp add: stream_inv_def serve_inv_def deliver_inv_def sent_inv_def newWatcherGrpcStream_def
    newest_def pending_def idle_def)

lemma serve_to_simps [simp]:
  "run (serve_to k pc w) = run w" "errc (serve_to k pc w) = errc w" "donec (serve_to k pc w) = donec w"
  "recvd (serve_to k pc w) = recvd w" "taken (serve_to k pc w) = taken w"
  "sent (serve_to k pc w) = sent w" "handed (serve_to k pc w) = handed w"
  "notice (serve_to k pc w) = notice w" "wgs_initReq (serve_to k pc w) = wgs_initReq w"
  "cancelled (serve_to k pc w) = cancelled w" "wgs_pctx (serve_to k pc w) = wgs_pctx w"
  "wgs_watchID (serve_to k pc w) = wgs_watchID w"
  "serves (serve_to k pc w) = (serves w)[k := pc]"
  by (simp_all add: serve_to_def)

lemma connected_simps [simp]:
  "run (connected first w) = RLoop (length (serves w))" "errc (connected first w) = errc w"
  "donec (connected first w) = donec w" "recvd (connected first w) = recvd w"
  "taken (connected first w) = taken w" "handed (connected first w) = handed w"
  "notice (connected first w) = notice w" "wgs_initReq (connected first w) = wgs_initReq w"
  "cancelled (connected first w) = cancelled w" "wgs_pctx (connected first w) = wgs_pctx w"
  "wgs_watchID (connected first w) = wgs_watchID w"
  "serves (connected first w) = serves w @ [SRecv]"
  "sent (connected first w) =
     (if first then sent w else sent w @ [(length (serves w), toPB_create (wgs_initReq w))])"
  by (simp_all add: connected_def Let_def)

text \<open>A goroutine that is alive is the newest one.\<close>

lemma alive_newest:
  assumes "serve_inv w" and "k < length (serves w)" and "serves w ! k \<noteq> SExit"
  shows "k = length (serves w) - 1" and "newest w = serves w ! k"
    and "butlast ((serves w)[k := pc]) = butlast (serves w)" and "last ((serves w)[k := pc]) = pc"
    and "serves w \<noteq> []"
proof -
  show k: "k = length (serves w) - 1"
  proof (rule ccontr)
    assume "k \<noteq> length (serves w) - 1"
    with assms(2) have "k < length (butlast (serves w))" by simp
    then have "serves w ! k \<in> set (butlast (serves w))" by (metis nth_butlast nth_mem)
    with assms(1,3) show False by (simp add: serve_inv_def)
  qed
  show ne: "serves w \<noteq> []" using assms(2) by auto
  with k show "newest w = serves w ! k" by (simp add: newest_def last_conv_nth)
  from k show "butlast ((serves w)[k := pc]) = butlast (serves w)" by (simp add: butlast_list_update)
  from k ne show "last ((serves w)[k := pc]) = pc" by (simp add: last_list_update)
qed

lemma alive_facts:
  assumes "serve_inv w" and "newest w \<noteq> SExit"
  shows "errc w = None" and "notice w = None" and "\<not> reconnecting (run w)"
    and "(\<exists>k. run w = RLoop k) \<or> (\<exists>k req. run w = RSend k req) \<or> run w = RExit" and "\<not> idle w"
  using assms by (cases "run w"; auto simp: serve_inv_def idle_def)+

lemma alive_errc:
  assumes "serve_inv w" and "k < length (serves w)" and "serves w ! k \<noteq> SExit"
  shows "errc w = None"
  using alive_newest(2) [OF assms] alive_facts(1) [OF assms(1)] assms(3) by simp

text \<open>
  One move of a living goroutine: the invariant before it, and the four facts the moves
  change, decide the invariant after it.
\<close>

lemma alive_move:
  assumes "serve_inv w" and "k < length (serves w)" and "serves w ! k \<noteq> SExit"
    and "serves w' = (serves w)[k := pc]" and "run w' = run w" and "notice w' = notice w"
    and "errc w' = None \<or> pc = SExit"
  shows "serve_inv w'" and "newest w' = pc"
proof -
  note nw = alive_newest [OF assms(1-3)]
  show new: "newest w' = pc"
    using nw assms(4) by (simp add: newest_def)
  have "newest w \<noteq> SExit" using nw(2) assms(3) by simp
  note al = alive_facts [OF assms(1) this]
  then have "run_ok w' (run w')"
    using al(2,4) assms(1,4-6) by (auto simp: serve_inv_def)
  with assms(1,4,7) new nw(3) show "serve_inv w'"
    by (auto simp: serve_inv_def)
qed

lemma pending_simp: "newest w' = pc \<Longrightarrow> pending w' = (case pc of SResp r \<Rightarrow> [r] | _ \<Rightarrow> [])"
  by (simp add: pending_def)

lemma butlast_last_all: "\<forall>x \<in> set (butlast xs). P x \<Longrightarrow> P (last xs) \<Longrightarrow> x \<in> set xs \<Longrightarrow> P x"
  by (cases xs rule: rev_cases) auto

lemma serve_inv_all_exit:
  assumes "serve_inv w" and "newest w = SExit" and "pc \<in> set (serves w)"
  shows "pc = SExit"
proof -
  have "last (serves w) = SExit" using assms(2,3) by (auto simp: newest_def split: if_splits)
  with assms(1,3) show ?thesis
    by (auto simp: serve_inv_def intro: butlast_last_all [where P = "\<lambda>x. x = SExit"])
qed

lemma connected_serve_inv:
  assumes "serve_inv w" and "idle w" and "notice w = None"
  shows "serve_inv (connected first w)" and "newest (connected first w) = SRecv"
  using assms serve_inv_all_exit [OF assms(1)]
  by (auto simp: serve_inv_def idle_def newest_def)

lemma sstep_serve_inv: "sstep g pdone w w' \<Longrightarrow> serve_inv w \<Longrightarrow> serve_inv w'"
proof (induction rule: sstep.induct)
  case (recv_resp k w r)
  show ?case by (rule alive_move(1) [OF recv_resp(3,1)])
      (use recv_resp alive_errc [OF recv_resp(3,1)] in auto)
next
  case (recv_err k w err)
  show ?case by (rule alive_move(1) [OF recv_err(3,1)])
      (use recv_err alive_errc [OF recv_err(3,1)] in auto)
next
  case (give_err k w err)
  show ?case by (rule alive_move(1) [OF give_err(4,1)]) (use give_err in auto)
next
  case (drop_err k w err)
  show ?case by (rule alive_move(1) [OF drop_err(4,1)]) (use drop_err in auto)
next
  case (give_resp k w r)
  show ?case by (rule alive_move(1) [OF give_resp(4,1)])
      (use give_resp alive_errc [OF give_resp(4,1)] in auto)
next
  case (drop_resp k w r)
  show ?case by (rule alive_move(1) [OF drop_resp(4,1)]) (use drop_resp in auto)
next
  case (dial_ok w first st a e ws)
  then show ?case by (intro connected_serve_inv) (auto simp: serve_inv_def)
qed (auto simp: serve_inv_def newest_def idle_def split: if_splits)

text \<open>
  The delivery part.  A step of \<^verbatim>\<open>run\<close> leaves the responses alone, a step of the newest
  goroutine moves one of them along.
\<close>

lemma deliver_inv_same:
  assumes "deliver_inv w" and "serves w' = serves w" and "recvd w' = recvd w"
    and "taken w' = taken w" and "donec w \<longrightarrow> donec w'"
    and "idle w \<Longrightarrow> \<not> reconnecting (run w) \<Longrightarrow> errc w' = None \<and> \<not> reconnecting (run w')"
  shows "deliver_inv w'"
  using assms by (auto simp: deliver_inv_def pending_def newest_def idle_def)

lemma deliver_inv_alive:
  assumes "deliver_inv w" and "serve_inv w" and "newest w \<noteq> SExit"
  shows "recvd w = taken w @ pending w"
  using assms alive_facts(5) [OF assms(2,3)] by (auto simp: deliver_inv_def)

lemma alive_move_newest:
  assumes "serve_inv w" and "k < length (serves w)" and "serves w ! k \<noteq> SExit"
    and "serves w' = (serves w)[k := pc]"
  shows "newest w' = pc" and "newest w = serves w ! k"
  using alive_newest [OF assms(1-3)] assms(4) by (simp_all add: newest_def)

lemma sstep_deliver_inv:
  "sstep g pdone w w' \<Longrightarrow> serve_inv w \<Longrightarrow> deliver_inv w \<Longrightarrow> deliver_inv w'"
proof (induction rule: sstep.induct)
  case (dial_ok w first st a e ws)
  then have "idle w" and "reconnecting (run w)" and "notice w = None" by (auto simp: serve_inv_def)
  with dial_ok have "recvd w = taken w" by (auto simp: deliver_inv_def pending_def idle_def)
  then show ?case by (simp add: deliver_inv_def pending_def newest_def)
next
  case (recv_resp k w r)
  note nw = alive_move_newest [OF recv_resp(3,1),
      of "serve_to k (SResp r) (w\<lparr>recvd := recvd w @ [r]\<rparr>)" "SResp r"]
  have "recvd w = taken w @ pending w"
    using deliver_inv_alive [OF recv_resp(4,3)] nw recv_resp(2) by simp
  with nw recv_resp(2) show ?case by (simp add: deliver_inv_def pending_def)
next
  case (recv_err k w err)
  note nw = alive_move_newest [OF recv_err(3,1), of "serve_to k (SErr err) w" "SErr err"]
  have "recvd w = taken w @ pending w"
    using deliver_inv_alive [OF recv_err(4,3)] nw recv_err(2) by simp
  with nw recv_err(2) show ?case by (simp add: deliver_inv_def pending_def)
next
  case (give_err k w err)
  note nw = alive_move_newest [OF give_err(4,1),
      of "serve_to k SExit (w\<lparr>errc := Some err\<rparr>)" "SExit"]
  have "recvd w = taken w @ pending w"
    using deliver_inv_alive [OF give_err(5,4)] nw give_err(2) by simp
  with nw give_err(2) show ?case by (simp add: deliver_inv_def pending_def)
next
  case (drop_err k w err)
  note nw = alive_move_newest [OF drop_err(4,1), of "serve_to k SExit w" "SExit"]
  have "recvd w = taken w @ pending w"
    using deliver_inv_alive [OF drop_err(5,4)] nw drop_err(2) by simp
  with nw drop_err(2) show ?case by (simp add: deliver_inv_def pending_def)
next
  case (give_resp k w r)
  note nw = alive_move_newest [OF give_resp(4,1),
      of "serve_to k SRecv (w\<lparr>taken := taken w @ [r]\<rparr>)" "SRecv"]
  have "recvd w = taken w @ pending w"
    using deliver_inv_alive [OF give_resp(5,4)] nw give_resp(2) by simp
  with nw give_resp(2) show ?case by (simp add: deliver_inv_def pending_def)
next
  case (drop_resp k w r)
  note nw = alive_move_newest [OF drop_resp(4,1), of "serve_to k SExit w" "SExit"]
  have "newest w \<noteq> SExit" using nw drop_resp(2) by simp
  note al = alive_facts [OF drop_resp(4) this]
  have "recvd w = taken w @ pending w"
    using deliver_inv_alive [OF drop_resp(5,4)] nw drop_resp(2) by simp
  with nw drop_resp(2,3) al show ?case by (simp add: deliver_inv_def pending_def idle_def)
qed (erule deliver_inv_same; simp add: idle_def)+

text \<open>The requests: a step other than a reconnect sends nothing.\<close>

lemma sent_inv_same:
  assumes "sent_inv w" and "length (serves w') = length (serves w)" and "sent w' = sent w"
    and "handed w' = handed w" and "wgs_initReq w' = wgs_initReq w" and "set (requested w) \<subseteq> set (requested w')"
  shows "sent_inv w'"
  using assms by (auto simp: sent_inv_def requests_on_def)

lemma requests_on_append:
  "sent w' = sent w @ [(k, r)] \<Longrightarrow>
    requests_on j w' = requests_on j w @ (if j = k then [r] else [])"
  by (simp add: requests_on_def)

lemma requests_on_fresh: "sent_inv w \<Longrightarrow> length (serves w) \<le> k \<Longrightarrow> requests_on k w = []"
  by (auto simp: sent_inv_def requests_on_def filter_empty_conv)

lemma connected_sent_inv:
  assumes "sent_inv w" and "first = (serves w = [])" and "requested w = sent w"
  shows "sent_inv (connected first w)"
proof (cases first)
  case True
  with assms show ?thesis by (auto simp: sent_inv_def)
next
  case False
  let ?w = "connected False w"
  have req: "requests_on j ?w = requests_on j w @
      (if j = length (serves w) then [toPB_create (wgs_initReq w)] else [])" for j
    by (simp add: requests_on_append)
  have "\<exists>rs. requests_on k ?w = toPB_create (wgs_initReq ?w) # rs"
    if "0 < k" "k < length (serves ?w)" for k
    using that assms(1) requests_on_fresh [OF assms(1), of k]
    by (cases "k = length (serves w)") (auto simp: req sent_inv_def)
  with assms(1,3) False show ?thesis by (auto simp: sent_inv_def requested_def)
qed

lemma sent_inv_append:
  assumes "sent_inv w" and "k < length (serves w)" and "sent w' = sent w @ [(k, q)]"
    and "serves w' = serves w" and "handed w' = handed w" and "wgs_initReq w' = wgs_initReq w"
    and "set (requested w) \<subseteq> set (requested w')"
  shows "sent_inv w'"
proof -
  have "requests_on j w' = requests_on j w @ (if j = k then [q] else [])" for j
    by (simp add: requests_on_append assms(3))
  with assms show ?thesis by (fastforce simp: sent_inv_def)
qed

lemma sstep_sent_inv: "sstep g pdone w w' \<Longrightarrow> serve_inv w \<Longrightarrow> sent_inv w \<Longrightarrow> sent_inv w'"
proof (induction rule: sstep.induct)
  case (dial_ok w first st a e ws)
  then show ?case by (intro connected_sent_inv) (auto simp: serve_inv_def requested_def)
next
  case (run_send w k req)
  then show ?case by (intro sent_inv_append [OF run_send(3), where k = k]) (auto simp: serve_inv_def requested_def)
qed (erule sent_inv_same; simp add: requested_def)+

lemma take_req_sent_inv: "sent_inv w \<Longrightarrow> run w = RLoop k \<Longrightarrow> sent_inv (take_req k req w)"
  by (erule sent_inv_same) (auto simp: take_req_def requested_def)

lemma sstep_stream_inv: "sstep g pdone w w' \<Longrightarrow> stream_inv w \<Longrightarrow> stream_inv w'"
  by (simp add: stream_inv_def sstep_serve_inv sstep_deliver_inv sstep_sent_inv)

text \<open>The operations of the other goroutines keep the invariant as well.\<close>

lemma serve_inv_cong:
  assumes "serve_inv w" and "serves w' = serves w" and "errc w' = errc w" and "run w' = run w"
    and "notice w' = notice w"
  shows "serve_inv w'"
  using assms by (cases "run w") (auto simp: serve_inv_def newest_def idle_def)

lemma take_req_stream_inv:
  "stream_inv w \<Longrightarrow> run w = RLoop k \<Longrightarrow> stream_inv (take_req k req w)"
  unfolding stream_inv_def
proof (elim conjE, intro conjI)
  assume inv: "serve_inv w" "deliver_inv w" "sent_inv w" and r: "run w = RLoop k"
  show "serve_inv (take_req k req w)"
    using inv(1) r by (auto simp: serve_inv_def take_req_def newest_def idle_def)
  show "deliver_inv (take_req k req w)"
    using inv(2) by (rule deliver_inv_same) (simp_all add: take_req_def idle_def)
  show "sent_inv (take_req k req w)" using inv(3) r by (rule take_req_sent_inv)
qed

lemma hand_out_stream_inv:
  assumes "stream_inv w" and "run w = RLoop k"
  shows "stream_inv (take_req k (Create (wgs_initReq w)) w\<lparr>handed := True\<rparr>)"
proof -
  let ?w = "take_req k (Create (wgs_initReq w)) w"
  have inv: "stream_inv ?w" using assms by (rule take_req_stream_inv)
  have "(k, toPB_create (wgs_initReq w)) \<in> set (requested (?w\<lparr>handed := True\<rparr>))"
    by (simp add: take_req_def requested_def)
  with inv have "sent_inv (?w\<lparr>handed := True\<rparr>)"
    by (auto simp: stream_inv_def sent_inv_def requests_on_def take_req_def)
  moreover have "serve_inv (?w\<lparr>handed := True\<rparr>)" "deliver_inv (?w\<lparr>handed := True\<rparr>)"
    using inv by (auto simp: stream_inv_def idle_def intro: serve_inv_cong deliver_inv_same)
  ultimately show ?thesis by (simp add: stream_inv_def)
qed

lemma cancel_ctx_stream_inv: "stream_inv w \<Longrightarrow> stream_inv (cancel_ctx w)"
  unfolding stream_inv_def
  by (auto intro: serve_inv_cong deliver_inv_same sent_inv_same simp: idle_def cancel_ctx_def requested_def)

lemma close_donec_stream_inv: "stream_inv w \<Longrightarrow> close_donec w = Ret w' \<Longrightarrow> stream_inv w'"
  unfolding stream_inv_def
  by (auto intro: serve_inv_cong deliver_inv_same sent_inv_same simp: idle_def close_donec_def requested_def
    split: if_splits)

lemma run_exit_stream_inv: "stream_inv w \<Longrightarrow> run w = RDeferClose \<Longrightarrow> stream_inv (w\<lparr>run := RExit\<rparr>)"
  unfolding stream_inv_def
  by (auto simp: serve_inv_def idle_def newest_def requested_def intro: deliver_inv_same sent_inv_same)

lemmas stream_inv_keep = sstep_stream_inv take_req_stream_inv hand_out_stream_inv
  cancel_ctx_stream_inv close_donec_stream_inv run_exit_stream_inv

end
