(* ===== verification/WatchSys.thy ===== *)
theory WatchSys
  imports WatchStream
begin

text \<open>
  The \<^verbatim>\<open>Watcher\<close> of \<^verbatim>\<open>watchclient/watcher.go\<close>: its mutex, its map of streams, and any
  number of concurrent calls of \<^verbatim>\<open>Watch\<close>, \<^verbatim>\<open>CloseStream\<close> and \<^verbatim>\<open>Close\<close>, interleaved with the
  goroutines of the streams (WatchStream).
\<close>

section \<open>State\<close>

text \<open>
  Where a call is.  \<^verbatim>\<open>Watch\<close>: before its critical section, in its select, returned (the
  channel \<open>respc\<close> of a stream, or a closed channel).  \<^verbatim>\<open>CloseStream\<close>: before the lock, then
  with the lock held at the send, at the cancel and at the close of \<^verbatim>\<open>donec\<close>, returned.
  \<^verbatim>\<open>Close\<close>: before its critical section, at the next stream to close, at that stream's
  cancel and close, returned.
\<close>

datatype call =
    CIdle
  | WLock string nat "App option"
  | WWait nat string nat "App option"
  | WRet "nat option"
  | CLock string
  | CSend nat string
  | CCancel nat string
  | CDonec nat string
  | CRet
  | KLock
  | KNext "(string \<times> nat) list"
  | KCancel nat string "(string \<times> nat) list"
  | KDonec nat string "(string \<times> nat) list"
  | KRet

text \<open>
  \<open>mu\<close> names the call that holds the mutex across steps; \<open>streams\<close> is None when the map is
  nil; streams live in \<open>heap\<close>, the map holds their indices; \<open>over c\<close> says that the caller's
  context \<open>c\<close> is done; \<open>crashed\<close> is set when a goroutine panics, which ends the program.
\<close>

record 'err sys =
  mu :: "nat option"
  streams :: "(string, nat) gomap option"
  heap :: "'err wgs list"
  calls :: "nat \<Rightarrow> call"
  over :: "nat \<Rightarrow> bool"
  crashed :: "panic option"

text \<open>The fields of the \<^verbatim>\<open>Watcher\<close> that calls share, as \<^verbatim>\<open>NewWatcher\<close> (WatcherStart) makes them.\<close>

definition fresh_watcher :: "'err sys" where
  "fresh_watcher = \<lparr>mu = None, streams = Some [], heap = [], calls = (\<lambda>_. CIdle),
     over = (\<lambda>_. False), crashed = None\<rparr>"

definition put_stream :: "nat \<Rightarrow> 'err wgs \<Rightarrow> 'err sys \<Rightarrow> 'err sys" where
  "put_stream s w \<sigma> = \<sigma>\<lparr>heap := (heap \<sigma>)[s := w]\<rparr>"

definition goto :: "nat \<Rightarrow> call \<Rightarrow> 'err sys \<Rightarrow> 'err sys" where
  "goto t c \<sigma> = \<sigma>\<lparr>calls := (calls \<sigma>)(t := c)\<rparr>"

section \<open>Operations\<close>

text \<open>The critical section of \<^verbatim>\<open>Watch\<close>, with where the call continues.\<close>

definition Watch_locked :: "string \<Rightarrow> nat \<Rightarrow> App option \<Rightarrow> 'err sys \<Rightarrow> 'err sys \<times> call" where
  "Watch_locked watchID ctx app \<sigma> =
     (let wr = \<lparr>wcr_watchID = watchID, wcr_app = app\<rparr>
      in case streams \<sigma> of
           None \<Rightarrow> (\<sigma>, WRet None)
         | Some m \<Rightarrow>
             (case mget m watchID of
                Some wgs \<Rightarrow> (\<sigma>, WRet None)
              | None \<Rightarrow>
                  (let s = length (heap \<sigma>)
                   in (\<sigma>\<lparr>heap := heap \<sigma> @ [newWatcherGrpcStream ctx watchID wr],
                         streams := Some (mput watchID s m)\<rparr>,
                       WWait s watchID ctx app))))"

text \<open>\<^verbatim>\<open>CloseStream\<close> up to its send: it looks the stream up and keeps the lock on a hit.\<close>

definition CloseStream_locked :: "nat \<Rightarrow> string \<Rightarrow> 'err sys \<Rightarrow> 'err sys \<times> call" where
  "CloseStream_locked t watchID \<sigma> =
     (case Option.bind (streams \<sigma>) (\<lambda>m. mget m watchID) of
        Some s \<Rightarrow> (\<sigma>\<lparr>mu := Some t\<rparr>, CSend s watchID)
      | None \<Rightarrow> (\<sigma>, CRet))"

text \<open>Its end: \<^verbatim>\<open>delete\<close>, which does nothing on a nil map, and the unlock.\<close>

definition delete_stream :: "string \<Rightarrow> 'err sys \<Rightarrow> 'err sys" where
  "delete_stream watchID \<sigma> = \<sigma>\<lparr>streams := map_option (mdel watchID) (streams \<sigma>)\<rparr>"

text \<open>\<^verbatim>\<open>Watcher.Close\<close> under the lock; the order of the range over the map is \<open>xs\<close>.\<close>

definition Close_locked :: "(string \<times> nat) list \<Rightarrow> 'err sys \<Rightarrow> 'err sys \<times> call" where
  "Close_locked xs \<sigma> = (\<sigma>\<lparr>streams := None\<rparr>, KNext xs)"

definition range_order :: "'err sys \<Rightarrow> (string \<times> nat) list \<Rightarrow> bool" where
  "range_order \<sigma> xs \<longleftrightarrow> mset xs = mset (case streams \<sigma> of None \<Rightarrow> [] | Some m \<Rightarrow> m)"

text \<open>
  \<^verbatim>\<open>closeStream\<close>, which the deferred function of \<^verbatim>\<open>run\<close> calls: everything under the lock.
\<close>

definition closeStream :: "nat \<Rightarrow> 'err sys \<Rightarrow> 'err sys outcome" where
  "closeStream s \<sigma> =
     (let w = heap \<sigma> ! s
      in obind (close_donec w)
           (\<lambda>w'. Ret (delete_stream (wgs_watchID w)
                      (put_stream s (cancel_ctx w'\<lparr>run := RExit\<rparr>) \<sigma>))))"

definition close_req :: "string \<Rightarrow> watchStreamRequest" where
  "close_req watchID = Cancel \<lparr>wca_watchID = watchID\<rparr>"

text \<open>A panic in any goroutine ends the program.\<close>

fun settle :: "'err sys \<Rightarrow> 'err sys outcome \<Rightarrow> 'err sys" where
  "settle \<sigma> (Ret \<sigma>') = \<sigma>'"
| "settle \<sigma> (Panic p) = \<sigma>\<lparr>crashed := Some p\<rparr>"
| "settle \<sigma> Blocked = \<sigma>"

definition close_donec_at :: "nat \<Rightarrow> 'err sys \<Rightarrow> 'err sys outcome" where
  "close_donec_at s \<sigma> = obind (close_donec (heap \<sigma> ! s)) (\<lambda>w. Ret (put_stream s w \<sigma>))"

section \<open>Steps\<close>

inductive wact :: "'err grpc_errors \<Rightarrow> 'err sys \<Rightarrow> 'err sys \<Rightarrow> bool" for g \<sigma> where
  \<comment> \<open>the environment: a caller's context ends; a call starts\<close>
  env_over: "wact g \<sigma> (\<sigma>\<lparr>over := (over \<sigma>)(c := True)\<rparr>)"
| start: "calls \<sigma> t = CIdle \<Longrightarrow> pc \<in> {WLock wid c app, CLock wid, KLock} \<Longrightarrow>
    wact g \<sigma> (goto t pc \<sigma>)"
  \<comment> \<open>a step inside one stream\<close>
| stream: "s < length (heap \<sigma>) \<Longrightarrow> sstep g (over \<sigma> (wgs_pctx (heap \<sigma> ! s))) (heap \<sigma> ! s) w \<Longrightarrow>
    wact g \<sigma> (put_stream s w \<sigma>)"
  \<comment> \<open>\<^verbatim>\<open>Watch\<close>; its send, like those below, is the exchange with \<^verbatim>\<open>run\<close> on \<^verbatim>\<open>reqc\<close>, and \<^verbatim>\<open>run\<close> sends later\<close>
| watch: "calls \<sigma> t = WLock wid c app \<Longrightarrow> mu \<sigma> = None \<Longrightarrow> Watch_locked wid c app \<sigma> = (\<sigma>', pc) \<Longrightarrow>
    wact g \<sigma> (goto t pc \<sigma>')"
| watch_sent: "calls \<sigma> t = WWait s wid c app \<Longrightarrow> run (heap \<sigma> ! s) = RLoop k \<Longrightarrow>
    wr = \<lparr>wcr_watchID = wid, wcr_app = app\<rparr> \<Longrightarrow>
    wact g \<sigma> (goto t (WRet (Some s))
      (put_stream s (take_req k (Create wr) (heap \<sigma> ! s)\<lparr>handed := True\<rparr>) \<sigma>))"
| watch_ctx: "calls \<sigma> t = WWait s wid c app \<Longrightarrow> over \<sigma> c \<Longrightarrow> wact g \<sigma> (goto t (WRet None) \<sigma>)"
| watch_again: "calls \<sigma> t = WWait s wid c app \<Longrightarrow> donec (heap \<sigma> ! s) \<Longrightarrow>
    wact g \<sigma> (goto t (WLock wid c app) \<sigma>)"
  \<comment> \<open>\<^verbatim>\<open>CloseStream\<close>\<close>
| close: "calls \<sigma> t = CLock wid \<Longrightarrow> mu \<sigma> = None \<Longrightarrow> CloseStream_locked t wid \<sigma> = (\<sigma>', pc) \<Longrightarrow>
    wact g \<sigma> (goto t pc \<sigma>')"
| close_send: "calls \<sigma> t = CSend s wid \<Longrightarrow> run (heap \<sigma> ! s) = RLoop k \<Longrightarrow>
    wact g \<sigma> (goto t (CCancel s wid) (put_stream s (take_req k (close_req wid) (heap \<sigma> ! s)) \<sigma>))"
| close_cancel: "calls \<sigma> t = CCancel s wid \<Longrightarrow>
    wact g \<sigma> (goto t (CDonec s wid) (put_stream s (cancel_ctx (heap \<sigma> ! s)) \<sigma>))"
| close_done: "calls \<sigma> t = CDonec s wid \<Longrightarrow>
    wact g \<sigma> (settle \<sigma> (obind (close_donec_at s \<sigma>)
      (\<lambda>\<sigma>'. Ret (goto t CRet (delete_stream wid \<sigma>'\<lparr>mu := None\<rparr>)))))"
  \<comment> \<open>\<^verbatim>\<open>Watcher.Close\<close>\<close>
| shut: "calls \<sigma> t = KLock \<Longrightarrow> mu \<sigma> = None \<Longrightarrow> range_order \<sigma> xs \<Longrightarrow>
    Close_locked xs \<sigma> = (\<sigma>', pc) \<Longrightarrow> wact g \<sigma> (goto t pc \<sigma>')"
| shut_send: "calls \<sigma> t = KNext ((wid, s) # xs) \<Longrightarrow> run (heap \<sigma> ! s) = RLoop k \<Longrightarrow>
    wact g \<sigma> (goto t (KCancel s wid xs) (put_stream s (take_req k (close_req wid) (heap \<sigma> ! s)) \<sigma>))"
| shut_cancel: "calls \<sigma> t = KCancel s wid xs \<Longrightarrow>
    wact g \<sigma> (goto t (KDonec s wid xs) (put_stream s (cancel_ctx (heap \<sigma> ! s)) \<sigma>))"
| shut_done: "calls \<sigma> t = KDonec s wid xs \<Longrightarrow>
    wact g \<sigma> (settle \<sigma> (obind (close_donec_at s \<sigma>) (\<lambda>\<sigma>'. Ret (goto t (KNext xs) \<sigma>'))))"
| shut_end: "calls \<sigma> t = KNext [] \<Longrightarrow> wact g \<sigma> (goto t KRet \<sigma>)"
  \<comment> \<open>the deferred call of \<^verbatim>\<open>closeStream\<close>\<close>
| run_close: "s < length (heap \<sigma>) \<Longrightarrow> run (heap \<sigma> ! s) = RDeferClose \<Longrightarrow> mu \<sigma> = None \<Longrightarrow>
    wact g \<sigma> (settle \<sigma> (closeStream s \<sigma>))"

definition wstep :: "'err grpc_errors \<Rightarrow> 'err sys \<Rightarrow> 'err sys \<Rightarrow> bool" where
  "wstep g \<sigma> \<sigma>' \<longleftrightarrow> crashed \<sigma> = None \<and> wact g \<sigma> \<sigma>'"

inductive wreach :: "'err grpc_errors \<Rightarrow> 'err sys \<Rightarrow> bool" for g where
  init: "wreach g fresh_watcher"
| step: "wreach g \<sigma> \<Longrightarrow> wstep g \<sigma> \<sigma>' \<Longrightarrow> wreach g \<sigma>'"

section \<open>How one stream evolves\<close>

text \<open>What no step takes back from a stream.\<close>

definition evolves :: "'err wgs \<Rightarrow> 'err wgs \<Rightarrow> bool" where
  "evolves w w' \<longleftrightarrow>
     wgs_watchID w' = wgs_watchID w \<and> wgs_initReq w' = wgs_initReq w \<and> wgs_pctx w' = wgs_pctx w \<and>
     (donec w \<longrightarrow> donec w') \<and> (handed w \<longrightarrow> handed w') \<and> set (requested w) \<subseteq> set (requested w') \<and>
     (notice w \<noteq> None \<longrightarrow> notice w' \<noteq> None) \<and> (run w = RExit \<longrightarrow> run w' = RExit)"

lemma evolves_refl [simp]: "evolves w w"
  by (simp add: evolves_def)

lemma run_ok_notice: "serve_inv w \<Longrightarrow> notice w \<noteq> None \<Longrightarrow> run w = RExit \<or> run w = RDeferClose"
  by (cases "run w") (auto simp: serve_inv_def)

lemma sstep_evolves:
  "sstep g pdone w w' \<Longrightarrow> evolves w w' \<and> donec w' = donec w \<and> handed w' = handed w"
  by (induction rule: sstep.induct) (auto simp: evolves_def requested_def)

lemma op_evolves:
  "run w = RLoop k \<Longrightarrow> evolves w (take_req k r w)" "evolves w (cancel_ctx w)"
  "run w = RLoop k \<Longrightarrow> evolves w (take_req k r w\<lparr>handed := True\<rparr>)"
  "close_donec w = Ret w' \<Longrightarrow> evolves w w'"
  by (auto simp: evolves_def requested_def take_req_def cancel_ctx_def close_donec_def split: if_splits)

text \<open>A stream that was told to close: its \<^verbatim>\<open>run\<close> has taken the cancel request from \<^verbatim>\<open>reqc\<close>.\<close>

definition told_to_close :: "'err wgs \<Rightarrow> bool" where
  "told_to_close w \<longleftrightarrow> (\<exists>k. (k, toPB (close_req (wgs_watchID w))) \<in> set (requested w))"

lemma told_to_close_evolves: "told_to_close w \<Longrightarrow> evolves w w' \<Longrightarrow> told_to_close w'"
  by (auto simp: told_to_close_def evolves_def)

text \<open>What holds of every stream: a closed one was told to close or has told its consumer.\<close>

definition self_closed :: "'err wgs \<Rightarrow> bool" where
  "self_closed w \<longleftrightarrow> notice w \<noteq> None \<and> run w = RExit"

definition stream_ok :: "'err wgs \<Rightarrow> bool" where
  "stream_ok w \<longleftrightarrow> stream_inv w \<and> (donec w \<longrightarrow> told_to_close w \<or> self_closed w)"

lemma self_closed_evolves: "self_closed w \<Longrightarrow> evolves w w' \<Longrightarrow> self_closed w'"
  by (auto simp: self_closed_def evolves_def)

lemma stream_ok_evolves:
  "stream_ok w \<Longrightarrow> evolves w w' \<Longrightarrow> stream_inv w' \<Longrightarrow> donec w' = donec w \<Longrightarrow> stream_ok w'"
  by (auto simp: stream_ok_def dest: told_to_close_evolves self_closed_evolves)

section \<open>The invariant of the watcher\<close>

text \<open>Where a stream stands that \<^verbatim>\<open>Close\<close> has yet to close.\<close>

definition to_close :: "'err sys \<Rightarrow> string \<times> nat \<Rightarrow> bool" where
  "to_close \<sigma> x \<longleftrightarrow> snd x < length (heap \<sigma>) \<and> wgs_watchID (heap \<sigma> ! snd x) = fst x \<and>
     (donec (heap \<sigma> ! snd x) \<longrightarrow> self_closed (heap \<sigma> ! snd x))"

definition mapped :: "'err sys \<Rightarrow> string \<Rightarrow> nat \<Rightarrow> bool" where
  "mapped \<sigma> wid s \<longleftrightarrow> (\<exists>m. streams \<sigma> = Some m \<and> (wid, s) \<in> set m)"

fun call_ok :: "'err sys \<Rightarrow> call \<Rightarrow> bool" where
  "call_ok \<sigma> (WWait s wid c app) =
     (s < length (heap \<sigma>) \<and> wgs_initReq (heap \<sigma> ! s) = \<lparr>wcr_watchID = wid, wcr_app = app\<rparr> \<and>
      wgs_watchID (heap \<sigma> ! s) = wid \<and> wgs_pctx (heap \<sigma> ! s) = c \<and> \<not> handed (heap \<sigma> ! s))"
| "call_ok \<sigma> (WRet (Some s)) = (s < length (heap \<sigma>) \<and> handed (heap \<sigma> ! s))"
| "call_ok \<sigma> (CSend s wid) = mapped \<sigma> wid s"
| "call_ok \<sigma> (CCancel s wid) = (mapped \<sigma> wid s \<and> told_to_close (heap \<sigma> ! s))"
| "call_ok \<sigma> (CDonec s wid) = (mapped \<sigma> wid s \<and> told_to_close (heap \<sigma> ! s))"
| "call_ok \<sigma> (KNext xs) = (streams \<sigma> = None \<and> distinct (map snd xs) \<and> (\<forall>x \<in> set xs. to_close \<sigma> x))"
| "call_ok \<sigma> (KCancel s wid xs) = (streams \<sigma> = None \<and> distinct (s # map snd xs) \<and>
     (\<forall>x \<in> set ((wid, s) # xs). to_close \<sigma> x) \<and> told_to_close (heap \<sigma> ! s))"
| "call_ok \<sigma> (KDonec s wid xs) = (streams \<sigma> = None \<and> distinct (s # map snd xs) \<and>
     (\<forall>x \<in> set ((wid, s) # xs). to_close \<sigma> x) \<and> told_to_close (heap \<sigma> ! s))"
| "call_ok \<sigma> _ = True"

fun holds_mu :: "call \<Rightarrow> bool" where
  "holds_mu (CSend s wid) = True"
| "holds_mu (CCancel s wid) = True"
| "holds_mu (CDonec s wid) = True"
| "holds_mu _ = False"

text \<open>The stream a \<^verbatim>\<open>Watch\<close> call has made, and the streams a \<^verbatim>\<open>Close\<close> call will close.\<close>

fun made :: "call \<Rightarrow> nat option" where
  "made (WWait s wid c app) = Some s"
| "made (WRet r) = r"
| "made _ = None"

fun shutting :: "call \<Rightarrow> (string \<times> nat) list" where
  "shutting (KNext xs) = xs"
| "shutting (KCancel s wid xs) = (wid, s) # xs"
| "shutting (KDonec s wid xs) = (wid, s) # xs"
| "shutting _ = []"

text \<open>While the map exists it holds exactly the streams that are not closed.\<close>

definition map_ok :: "'err sys \<Rightarrow> bool" where
  "map_ok \<sigma> \<longleftrightarrow> (\<forall>m. streams \<sigma> = Some m \<longrightarrow> gomap_ok m \<and>
     (\<forall>wid s. (wid, s) \<in> set m \<longleftrightarrow>
        s < length (heap \<sigma>) \<and> \<not> donec (heap \<sigma> ! s) \<and> wgs_watchID (heap \<sigma> ! s) = wid))"

definition calls_ok :: "'err sys \<Rightarrow> bool" where
  "calls_ok \<sigma> \<longleftrightarrow> (\<forall>t. call_ok \<sigma> (calls \<sigma> t))"

definition mu_ok :: "'err sys \<Rightarrow> bool" where
  "mu_ok \<sigma> \<longleftrightarrow> (\<forall>t. mu \<sigma> = Some t \<longleftrightarrow> holds_mu (calls \<sigma> t))"

definition one_owner :: "'err sys \<Rightarrow> bool" where
  "one_owner \<sigma> \<longleftrightarrow>
     (\<forall>t t' s. made (calls \<sigma> t) = Some s \<and> made (calls \<sigma> t') = Some s \<longrightarrow> t = t') \<and>
     (\<forall>t t'. shutting (calls \<sigma> t) \<noteq> [] \<and> shutting (calls \<sigma> t') \<noteq> [] \<longrightarrow> t = t')"

definition streams_ok :: "'err sys \<Rightarrow> bool" where
  "streams_ok \<sigma> \<longleftrightarrow> (\<forall>w \<in> set (heap \<sigma>). stream_ok w)"

definition sys_inv :: "'err sys \<Rightarrow> bool" where
  "sys_inv \<sigma> \<longleftrightarrow> streams_ok \<sigma> \<and> map_ok \<sigma> \<and> calls_ok \<sigma> \<and> mu_ok \<sigma> \<and> one_owner \<sigma>"

section \<open>The invariant is kept\<close>

lemma sys_simps [simp]:
  "mu (goto t c \<sigma>) = mu \<sigma>" "streams (goto t c \<sigma>) = streams \<sigma>" "heap (goto t c \<sigma>) = heap \<sigma>"
  "calls (goto t c \<sigma>) = (calls \<sigma>)(t := c)" "over (goto t c \<sigma>) = over \<sigma>"
  "crashed (goto t c \<sigma>) = crashed \<sigma>"
  "mu (put_stream s w \<sigma>) = mu \<sigma>" "streams (put_stream s w \<sigma>) = streams \<sigma>"
  "heap (put_stream s w \<sigma>) = (heap \<sigma>)[s := w]" "calls (put_stream s w \<sigma>) = calls \<sigma>"
  "over (put_stream s w \<sigma>) = over \<sigma>" "crashed (put_stream s w \<sigma>) = crashed \<sigma>"
  "mu (delete_stream wid \<sigma>) = mu \<sigma>" "heap (delete_stream wid \<sigma>) = heap \<sigma>"
  "streams (delete_stream wid \<sigma>) = map_option (mdel wid) (streams \<sigma>)"
  "calls (delete_stream wid \<sigma>) = calls \<sigma>" "over (delete_stream wid \<sigma>) = over \<sigma>"
  "crashed (delete_stream wid \<sigma>) = crashed \<sigma>"
  by (simp_all add: goto_def put_stream_def delete_stream_def)

lemma sys_invD:
  assumes "sys_inv \<sigma>"
  shows "call_ok \<sigma> (calls \<sigma> t)" and "map_ok \<sigma>" and "mu \<sigma> = Some t \<longleftrightarrow> holds_mu (calls \<sigma> t)"
    and "s < length (heap \<sigma>) \<Longrightarrow> stream_ok (heap \<sigma> ! s)"
    and "s < length (heap \<sigma>) \<Longrightarrow> stream_inv (heap \<sigma> ! s)"
  using assms by (auto simp: sys_inv_def calls_ok_def mu_ok_def streams_ok_def stream_ok_def)

lemma mapped_open:
  "map_ok \<sigma> \<Longrightarrow> mapped \<sigma> wid s \<Longrightarrow>
    s < length (heap \<sigma>) \<and> \<not> donec (heap \<sigma> ! s) \<and> wgs_watchID (heap \<sigma> ! s) = wid"
  by (auto simp: mapped_def map_ok_def)

lemma call_ok_mono:
  assumes "call_ok \<sigma> c" and "map_ok \<sigma>" and "length (heap \<sigma>) \<le> length (heap \<sigma>')"
    and ev: "\<And>s. s < length (heap \<sigma>) \<Longrightarrow> evolves (heap \<sigma> ! s) (heap \<sigma>' ! s)"
    and "\<And>s. made c = Some s \<Longrightarrow> s < length (heap \<sigma>) \<Longrightarrow> handed (heap \<sigma>' ! s) = handed (heap \<sigma> ! s)"
    and "\<And>x. x \<in> set (shutting c) \<Longrightarrow> snd x < length (heap \<sigma>) \<Longrightarrow> donec (heap \<sigma>' ! snd x) \<Longrightarrow>
      donec (heap \<sigma> ! snd x) \<or> self_closed (heap \<sigma>' ! snd x)"
    and "holds_mu c \<Longrightarrow> streams \<sigma>' = streams \<sigma>" and "streams \<sigma> = None \<Longrightarrow> streams \<sigma>' = None"
  shows "call_ok \<sigma>' c"
proof -
  have tc: "to_close \<sigma>' x" if "to_close \<sigma> x" "x \<in> set (shutting c)" for x
    using that ev [of "snd x"] assms(3) assms(6) [of x] self_closed_evolves [OF _ ev, of "snd x"]
    by (auto simp: to_close_def evolves_def)
  have cs: "told_to_close (heap \<sigma>' ! s)" if "told_to_close (heap \<sigma> ! s)" "s < length (heap \<sigma>)" for s
    using that ev told_to_close_evolves by blast
  show ?thesis
  proof (cases c)
    case (WWait s wid cx app)
    with assms(1,3,5) ev [of s] show ?thesis by (auto simp: evolves_def)
  next
    case (WRet r)
    with assms(1,3,5) ev show ?thesis by (cases r) (auto simp: evolves_def)
  next
    case (KNext xs)
    with assms(1,8) tc show ?thesis by auto
  next
    case (KCancel s wid xs)
    with assms(1,8) tc cs show ?thesis by (auto simp: to_close_def)
  next
    case (KDonec s wid xs)
    with assms(1,8) tc cs show ?thesis by (auto simp: to_close_def)
  qed (use assms(1,2,7) cs in \<open>auto simp: mapped_def map_ok_def\<close>)
qed

lemma call_ok_cong:
  "call_ok \<sigma> c \<Longrightarrow> heap \<sigma>' = heap \<sigma> \<Longrightarrow> streams \<sigma>' = streams \<sigma> \<Longrightarrow> call_ok \<sigma>' c"
  by (cases "(\<sigma>, c)" rule: call_ok.cases) (auto simp: mapped_def to_close_def)

lemma one_owner_upd:
  assumes "one_owner \<sigma>" and "made c = made (calls \<sigma> t) \<or> made c = None"
    and "shutting c \<noteq> [] \<Longrightarrow> shutting (calls \<sigma> t) \<noteq> []" and "calls \<sigma>' = (calls \<sigma>)(t := c)"
  shows "one_owner \<sigma>'"
proof -
  have "made (calls \<sigma>' u) = made (calls \<sigma> u) \<or> made (calls \<sigma>' u) = None" for u
    using assms(2,4) by auto
  moreover have "shutting (calls \<sigma>' u) \<noteq> [] \<Longrightarrow> shutting (calls \<sigma> u) \<noteq> []" for u
    using assms(3,4) by (cases "u = t") auto
  ultimately show ?thesis
    using assms(1) unfolding one_owner_def by (metis option.distinct(1))
qed

lemma one_owner_made:
  "one_owner \<sigma> \<Longrightarrow> made (calls \<sigma> t) = Some s \<Longrightarrow> t' \<noteq> t \<Longrightarrow> made (calls \<sigma> t') \<noteq> Some s"
  by (auto simp: one_owner_def)

text \<open>A call moves on without touching a stream.\<close>

lemma sys_inv_goto:
  assumes inv: "sys_inv \<sigma>" and "call_ok \<sigma> c" and "holds_mu c = holds_mu (calls \<sigma> t)"
    and "made c = made (calls \<sigma> t) \<or> made c = None"
    and "shutting c \<noteq> [] \<Longrightarrow> shutting (calls \<sigma> t) \<noteq> []"
  shows "sys_inv (goto t c \<sigma>)"
proof -
  have "calls_ok (goto t c \<sigma>)"
    using inv assms(2) by (auto simp: calls_ok_def sys_inv_def intro: call_ok_cong)
  moreover have "one_owner (goto t c \<sigma>)"
    by (rule one_owner_upd [of \<sigma> c t]) (use inv assms(4,5) in \<open>auto simp: sys_inv_def\<close>)
  moreover have "mu_ok (goto t c \<sigma>)" using inv assms(3) by (auto simp: sys_inv_def mu_ok_def)
  ultimately show ?thesis using inv by (simp add: sys_inv_def streams_ok_def map_ok_def)
qed

text \<open>A call makes a move on one stream that does not close it.\<close>

lemma sys_inv_move:
  assumes inv: "sys_inv \<sigma>" and s: "s < length (heap \<sigma>)" and ev: "evolves (heap \<sigma> ! s) w"
    and "stream_inv w" and d: "donec w = donec (heap \<sigma> ! s)"
    and h: "handed w = handed (heap \<sigma> ! s) \<or> made (calls \<sigma> t) = Some s"
    and "call_ok (put_stream s w \<sigma>) c" and "holds_mu c = holds_mu (calls \<sigma> t)"
    and "made c = made (calls \<sigma> t) \<or> made c = None"
    and "shutting c \<noteq> [] \<Longrightarrow> shutting (calls \<sigma> t) \<noteq> []"
  shows "sys_inv (goto t c (put_stream s w \<sigma>))" (is "sys_inv ?\<sigma>")
proof -
  have "stream_ok w" using sys_invD(4) [OF inv s] ev assms(4) d by (rule stream_ok_evolves)
  then have "streams_ok ?\<sigma>"
    using inv by (auto simp: sys_inv_def streams_ok_def dest!: set_update_subset_insert [THEN subsetD])
  moreover have "map_ok ?\<sigma>"
    using inv s d ev by (auto simp: sys_inv_def map_ok_def nth_list_update evolves_def)
  moreover have "call_ok ?\<sigma> (calls ?\<sigma> t')" for t'
  proof (cases "t' = t")
    case True
    with assms(7) show ?thesis by (auto intro: call_ok_cong)
  next
    case False
    with h inv have "handed w = handed (heap \<sigma> ! s) \<or> made (calls \<sigma> t') \<noteq> Some s"
      using one_owner_made by (metis sys_inv_def)
    then have "call_ok ?\<sigma> (calls \<sigma> t')"
      by (intro call_ok_mono [OF sys_invD(1,2) [OF inv]]) (use s ev d in \<open>auto simp: nth_list_update\<close>)
    with False show ?thesis by simp
  qed
  moreover have "one_owner ?\<sigma>"
    by (rule one_owner_upd [of \<sigma> c t]) (use inv assms(9,10) in \<open>auto simp: sys_inv_def\<close>)
  moreover have "mu_ok ?\<sigma>" using inv assms(8) by (auto simp: sys_inv_def mu_ok_def)
  ultimately show ?thesis by (simp add: sys_inv_def calls_ok_def)
qed

lemma goto_same [simp]: "calls \<sigma> t = c \<Longrightarrow> goto t c \<sigma> = \<sigma>"
  by (auto simp: goto_def)

lemma sys_inv_stream:
  assumes inv: "sys_inv \<sigma>" and s: "s < length (heap \<sigma>)" and st: "sstep g pd (heap \<sigma> ! s) w"
  shows "sys_inv (put_stream s w \<sigma>)"
proof -
  have ev: "evolves (heap \<sigma> ! s) w" "donec w = donec (heap \<sigma> ! s)" "handed w = handed (heap \<sigma> ! s)"
    using sstep_evolves [OF st] by auto
  have "call_ok (put_stream s w \<sigma>) (calls \<sigma> 0)"
    by (intro call_ok_mono [OF sys_invD(1,2) [OF inv]]) (use s ev in \<open>auto simp: nth_list_update\<close>)
  then have "sys_inv (goto 0 (calls \<sigma> 0) (put_stream s w \<sigma>))"
    by (intro sys_inv_move [OF inv s ev(1) sstep_stream_inv [OF st sys_invD(5) [OF inv s]]])
      (simp_all add: ev)
  then show ?thesis by simp
qed

text \<open>\<^verbatim>\<open>Watch\<close> under the lock.\<close>

lemma new_stream_ok: "stream_ok (newWatcherGrpcStream c wid req)"
  by (simp add: stream_ok_def new_stream_inv) (simp add: newWatcherGrpcStream_def)

lemma new_stream_simps [simp]:
  "wgs_watchID (newWatcherGrpcStream c wid req) = wid" "wgs_pctx (newWatcherGrpcStream c wid req) = c"
  "wgs_initReq (newWatcherGrpcStream c wid req) = req" "donec (newWatcherGrpcStream c wid req) = False"
  "handed (newWatcherGrpcStream c wid req) = False"
  by (simp_all add: newWatcherGrpcStream_def)

lemma sys_inv_new:
  assumes inv: "sys_inv \<sigma>" and mu: "mu \<sigma> = None" and t: "calls \<sigma> t = WLock wid c app"
    and m: "streams \<sigma> = Some m" and absent: "mget m wid = None"
    and \<sigma>': "\<sigma>' = \<sigma>\<lparr>heap := heap \<sigma> @ [newWatcherGrpcStream c wid \<lparr>wcr_watchID = wid, wcr_app = app\<rparr>],
      streams := Some (mput wid (length (heap \<sigma>)) m)\<rparr>"
  shows "sys_inv (goto t (WWait (length (heap \<sigma>)) wid c app) \<sigma>')" (is "sys_inv ?\<sigma>")
proof -
  note mok = sys_invD(2) [OF inv, unfolded map_ok_def, rule_format, OF m]
  have "streams_ok ?\<sigma>"
    using inv new_stream_ok by (auto simp: sys_inv_def streams_ok_def \<sigma>')
  moreover have "map_ok ?\<sigma>"
  proof -
    have "(wid', s) \<in> set (mput wid (length (heap \<sigma>)) m) \<longleftrightarrow>
        (wid' = wid \<and> s = length (heap \<sigma>)) \<or> (wid', s) \<in> set m" for wid' s
    proof -
      have "gomap_ok (mput wid (length (heap \<sigma>)) m)" using mok by (simp add: am.ok_put)
      then have "(wid', s) \<in> set (mput wid (length (heap \<sigma>)) m) \<longleftrightarrow>
          mget (mput wid (length (heap \<sigma>)) m) wid' = Some s" by simp
      also have "\<dots> \<longleftrightarrow> (wid' = wid \<and> s = length (heap \<sigma>)) \<or> mget m wid' = Some s"
        using absent by (auto simp: am.get_put)
      finally show ?thesis using mok by simp
    qed
    with mok show ?thesis by (auto simp: map_ok_def \<sigma>' nth_append am.ok_put less_Suc_eq)
  qed
  moreover have "call_ok ?\<sigma> (calls ?\<sigma> t')" for t'
  proof (cases "t' = t")
    case False
    have "\<not> holds_mu (calls \<sigma> t')" using mu sys_invD(3) [OF inv, of t'] by simp
    with False have "call_ok ?\<sigma> (calls \<sigma> t')"
      by (intro call_ok_mono [OF sys_invD(1,2) [OF inv]]) (auto simp: \<sigma>' nth_append m)
    with False show ?thesis by (simp add: \<sigma>')
  qed (simp add: \<sigma>' nth_append)
  moreover have "one_owner ?\<sigma>"
  proof -
    have "made (calls \<sigma> t') \<noteq> Some (length (heap \<sigma>))" for t'
      using sys_invD(1) [OF inv, of t'] by (cases "calls \<sigma> t'") auto
    with inv t show ?thesis unfolding sys_inv_def one_owner_def \<sigma>'
      by (auto simp: goto_def)
  qed
  moreover have "mu_ok ?\<sigma>" using inv t mu by (auto simp: sys_inv_def mu_ok_def \<sigma>')
  ultimately show ?thesis by (simp add: sys_inv_def calls_ok_def)
qed

lemma sys_inv_watch:
  assumes inv: "sys_inv \<sigma>" and mu: "mu \<sigma> = None" and t: "calls \<sigma> t = WLock wid c app"
    and w: "Watch_locked wid c app \<sigma> = (\<sigma>', pc)"
  shows "sys_inv (goto t pc \<sigma>')"
proof (cases "\<exists>m. streams \<sigma> = Some m \<and> mget m wid = None")
  case True
  then obtain m where m: "streams \<sigma> = Some m" "mget m wid = None" by blast
  with w have "\<sigma>' = \<sigma>\<lparr>heap := heap \<sigma> @ [newWatcherGrpcStream c wid \<lparr>wcr_watchID = wid, wcr_app = app\<rparr>],
      streams := Some (mput wid (length (heap \<sigma>)) m)\<rparr>" "pc = WWait (length (heap \<sigma>)) wid c app"
    by (auto simp: Watch_locked_def Let_def)
  with sys_inv_new [OF inv mu t m] show ?thesis by simp
next
  case False
  with w have "\<sigma>' = \<sigma>" "pc = WRet None"
    by (auto simp: Watch_locked_def Let_def split: option.splits)
  with t show ?thesis by (auto intro: sys_inv_goto [OF inv])
qed

text \<open>A stream is closed, by whomever: \<open>wid\<close> leaves the map.\<close>

lemma call_ok_closed:
  assumes "call_ok \<sigma> c" and "map_ok \<sigma>" and "\<not> holds_mu c" and s: "s < length (heap \<sigma>)"
    and ev: "evolves (heap \<sigma> ! s) w" and "handed w = handed (heap \<sigma> ! s)"
    and "s \<in> snd ` set (shutting c) \<Longrightarrow> self_closed w"
    and "heap \<sigma>' = (heap \<sigma>)[s := w]" and "streams \<sigma>' = map_option (mdel wid) (streams \<sigma>)"
  shows "call_ok \<sigma>' c"
  by (rule call_ok_mono [OF assms(1,2)])
    (use assms(3-) in \<open>auto simp: nth_list_update image_iff\<close>)

lemma map_ok_closed:
  assumes mok: "map_ok \<sigma>" and s: "s < length (heap \<sigma>)" and "\<not> donec (heap \<sigma> ! s)"
    and ev: "evolves (heap \<sigma> ! s) w" and "donec w" and \<sigma>': "heap \<sigma>' = (heap \<sigma>)[s := w]"
    "streams \<sigma>' = map_option (mdel (wgs_watchID (heap \<sigma> ! s))) (streams \<sigma>)"
  shows "map_ok \<sigma>'"
  unfolding map_ok_def
proof (intro allI impI)
  fix m' assume "streams \<sigma>' = Some m'"
  with \<sigma>' obtain m where m: "streams \<sigma> = Some m" "m' = mdel (wgs_watchID (heap \<sigma> ! s)) m"
    by (cases "streams \<sigma>") auto
  note old = mok [unfolded map_ok_def, rule_format, OF m(1)]
  have "s' = s" if "(wgs_watchID (heap \<sigma> ! s), s') \<in> set m" for s'
    using that old s assms(3) by (metis map_of_eq_Some_iff option.inject)
  moreover have "(wid', s') \<in> set m' \<longleftrightarrow> wid' \<noteq> wgs_watchID (heap \<sigma> ! s) \<and> (wid', s') \<in> set m" for wid' s'
    by (auto simp: m(2) AList.delete_eq)
  ultimately show "gomap_ok m' \<and> (\<forall>wid' s'. (wid', s') \<in> set m' \<longleftrightarrow>
      s' < length (heap \<sigma>') \<and> \<not> donec (heap \<sigma>' ! s') \<and> wgs_watchID (heap \<sigma>' ! s') = wid')"
    using old s assms(3,5) ev by (auto simp: \<sigma>' m(2) am.ok_del nth_list_update evolves_def)
qed

lemma sys_inv_closed:
  assumes inv: "sys_inv \<sigma>" and s: "s < length (heap \<sigma>)" and open': "\<not> donec (heap \<sigma> ! s)"
    and ev: "evolves (heap \<sigma> ! s) w" and w: "stream_ok w" "donec w" "handed w = handed (heap \<sigma> ! s)"
    and others: "\<And>t'. t' \<noteq> t \<Longrightarrow> \<not> holds_mu (calls \<sigma> t')"
    and shut: "\<And>t'. t' \<noteq> t \<Longrightarrow> s \<in> snd ` set (shutting (calls \<sigma> t')) \<Longrightarrow> self_closed w"
    and \<sigma>': "heap \<sigma>' = (heap \<sigma>)[s := w]" "calls \<sigma>' = (calls \<sigma>)(t := c)" "mu \<sigma>' = None"
      "streams \<sigma>' = map_option (mdel (wgs_watchID (heap \<sigma> ! s))) (streams \<sigma>)"
    and c: "call_ok \<sigma>' c" "\<not> holds_mu c" "made c = made (calls \<sigma> t) \<or> made c = None"
      "shutting c \<noteq> [] \<Longrightarrow> shutting (calls \<sigma> t) \<noteq> []"
  shows "sys_inv \<sigma>'"
proof -
  have "streams_ok \<sigma>'"
    using inv w(1) by (auto simp: \<sigma>' sys_inv_def streams_ok_def
      dest!: set_update_subset_insert [THEN subsetD])
  moreover have "map_ok \<sigma>'"
    using sys_invD(2) [OF inv] s open' ev w(2) \<sigma>'(1,4) by (rule map_ok_closed)
  moreover have "call_ok \<sigma>' (calls \<sigma>' t')" for t'
  proof (cases "t' = t")
    case False
    have "call_ok \<sigma>' (calls \<sigma> t')"
      using sys_invD(1,2) [OF inv] others [OF False] s ev w(3) shut [OF False] \<sigma>'(1,4)
      by (rule call_ok_closed)
    with False show ?thesis by (simp add: \<sigma>')
  qed (use c(1) in \<open>simp add: \<sigma>'\<close>)
  moreover have "one_owner \<sigma>'"
    by (rule one_owner_upd [of \<sigma> c t]) (use inv c(3,4) in \<open>auto simp: sys_inv_def \<sigma>'\<close>)
  moreover have "mu_ok \<sigma>'" using others c(2) by (auto simp: mu_ok_def \<sigma>')
  ultimately show ?thesis by (simp add: sys_inv_def calls_ok_def)
qed

lemma sys_inv_crash: "sys_inv \<sigma> \<Longrightarrow> sys_inv (\<sigma>\<lparr>crashed := p\<rparr>)"
  by (auto simp: sys_inv_def streams_ok_def map_ok_def calls_ok_def mu_ok_def one_owner_def
    intro: call_ok_cong)

lemma close_donec_facts:
  "close_donec w = Ret w' \<Longrightarrow> \<not> donec w \<and> donec w' \<and> handed w' = handed w \<and> sent w' = sent w \<and>
    wgs_watchID w' = wgs_watchID w \<and> notice w' = notice w \<and> run w' = run w"
  by (auto simp: close_donec_def split: if_splits)

lemma closed_stream_ok:
  "stream_ok w \<Longrightarrow> close_donec w = Ret w' \<Longrightarrow> told_to_close w \<Longrightarrow> stream_ok w'"
  using told_to_close_evolves op_evolves(4)
  by (auto simp: stream_ok_def intro: close_donec_stream_inv)

text \<open>\<^verbatim>\<open>CloseStream\<close>: taking the lock, and the end under the lock.\<close>

lemma sys_inv_close:
  assumes inv: "sys_inv \<sigma>" and mu: "mu \<sigma> = None" and t: "calls \<sigma> t = CLock wid"
    and c: "CloseStream_locked t wid \<sigma> = (\<sigma>', pc)"
  shows "sys_inv (goto t pc \<sigma>')"
proof (cases "Option.bind (streams \<sigma>) (\<lambda>m. mget m wid)")
  case None
  with c have "\<sigma>' = \<sigma>" "pc = CRet" by (auto simp: CloseStream_locked_def)
  with t show ?thesis by (auto intro: sys_inv_goto [OF inv])
next
  case (Some s)
  with c have \<sigma>': "\<sigma>' = \<sigma>\<lparr>mu := Some t\<rparr>" "pc = CSend s wid" by (auto simp: CloseStream_locked_def)
  let ?\<sigma> = "goto t (CSend s wid) (\<sigma>\<lparr>mu := Some t\<rparr>)"
  from Some have "mapped \<sigma> wid s" by (cases "streams \<sigma>") (auto simp: mapped_def dest: map_of_SomeD)
  then have "call_ok ?\<sigma> (calls ?\<sigma> t')" for t'
    using call_ok_cong [OF sys_invD(1) [OF inv, of t'], of ?\<sigma>] by (simp add: mapped_def)
  moreover have "one_owner ?\<sigma>"
    by (rule one_owner_upd [of \<sigma> "CSend s wid" t]) (use inv in \<open>auto simp: sys_inv_def\<close>)
  moreover have "mu_ok ?\<sigma>" using inv mu by (auto simp: sys_inv_def mu_ok_def)
  ultimately show ?thesis
    using inv \<sigma>' by (auto simp: sys_inv_def calls_ok_def streams_ok_def map_ok_def)
qed

lemma sys_inv_close_done:
  assumes inv: "sys_inv \<sigma>" and t: "calls \<sigma> t = CDonec s wid"
  shows "sys_inv (settle \<sigma> (obind (close_donec_at s \<sigma>)
    (\<lambda>\<sigma>'. Ret (goto t CRet (delete_stream wid \<sigma>'\<lparr>mu := None\<rparr>)))))"
proof -
  have c: "mapped \<sigma> wid s" "told_to_close (heap \<sigma> ! s)" using sys_invD(1) [OF inv, of t] t by auto
  note m = mapped_open [OF sys_invD(2) [OF inv] c(1)]
  then obtain w where w: "close_donec (heap \<sigma> ! s) = Ret w" by (auto simp: close_donec_def)
  note wf = close_donec_facts [OF w]
  have "mu \<sigma> = Some t" using sys_invD(3) [OF inv, of t] t by simp
  then have "\<not> holds_mu (calls \<sigma> t')" if "t' \<noteq> t" for t'
    using sys_invD(3) [OF inv, of t'] that by simp
  moreover have "s \<notin> snd ` set (shutting (calls \<sigma> t'))" for t'
    using sys_invD(1) [OF inv, of t'] c(1) by (cases "calls \<sigma> t'") (auto simp: mapped_def)
  moreover have "stream_ok w" using sys_invD(4) [OF inv] m w c(2) by (blast intro: closed_stream_ok)
  ultimately have "sys_inv (goto t CRet (delete_stream wid (put_stream s w \<sigma>)\<lparr>mu := None\<rparr>))"
    using m wf op_evolves(4) [OF w] by (intro sys_inv_closed [OF inv, where s = s and w = w and t = t and c = CRet]) auto
  then show ?thesis by (simp add: close_donec_at_def w)
qed

text \<open>\<^verbatim>\<open>Watcher.Close\<close>: taking the map, and closing one stream.\<close>

lemma no_holder: "sys_inv \<sigma> \<Longrightarrow> mu \<sigma> = None \<or> streams \<sigma> = None \<Longrightarrow> \<not> holds_mu (calls \<sigma> t)"
  using sys_invD(1,3) [of \<sigma> t] by (cases "calls \<sigma> t") (auto simp: mapped_def)

lemma no_shutter: "sys_inv \<sigma> \<Longrightarrow> streams \<sigma> = Some m \<Longrightarrow> shutting (calls \<sigma> t) = []"
  using sys_invD(1) [of \<sigma> t] by (cases "calls \<sigma> t") auto

lemma sys_inv_shut:
  assumes inv: "sys_inv \<sigma>" and mu: "mu \<sigma> = None" and t: "calls \<sigma> t = KLock"
    and "range_order \<sigma> xs" and "Close_locked xs \<sigma> = (\<sigma>', pc)"
  shows "sys_inv (goto t pc \<sigma>')"
proof -
  let ?\<sigma> = "goto t (KNext xs) (\<sigma>\<lparr>streams := None\<rparr>)"
  have xs: "distinct (map snd xs)" "\<forall>x \<in> set xs. to_close \<sigma> x"
  proof -
    let ?m = "case streams \<sigma> of None \<Rightarrow> [] | Some m \<Rightarrow> m"
    have m: "gomap_ok ?m" "\<And>w s. (w, s) \<in> set ?m \<Longrightarrow> s < length (heap \<sigma>) \<and> \<not> donec (heap \<sigma> ! s) \<and>
        wgs_watchID (heap \<sigma> ! s) = w"
      using sys_invD(2) [OF inv] by (auto simp: map_ok_def split: option.splits)
    have eq: "mset xs = mset ?m" using assms(4) by (simp add: range_order_def)
    note eq = eq mset_eq_setD [OF eq]
    have "inj_on snd (set ?m)" using m(2) by (intro inj_onI) (metis prod.collapse)
    moreover have "distinct xs"
      using m(1) eq(1) by (metis distinct_map mset_eq_imp_distinct_iff)
    ultimately show "distinct (map snd xs)" using eq(2) by (simp add: distinct_map)
    show "\<forall>x \<in> set xs. to_close \<sigma> x" using m(2) eq(2) by (auto simp: to_close_def)
  qed
  have "call_ok ?\<sigma> (calls ?\<sigma> t')" for t'
  proof (cases "t' = t")
    case False
    have "call_ok ?\<sigma> (calls \<sigma> t')"
      by (rule call_ok_mono [OF sys_invD(1,2) [OF inv]]) (use no_holder [OF inv] mu in auto)
    with False show ?thesis by simp
  qed (use xs in \<open>auto simp: to_close_def\<close>)
  moreover have "one_owner ?\<sigma>"
  proof (cases "streams \<sigma>")
    case None
    with assms(4) have "xs = []" by (simp add: range_order_def)
    then show ?thesis
      by (intro one_owner_upd [of \<sigma> "KNext xs" t ?\<sigma>]) (use inv in \<open>auto simp: sys_inv_def\<close>)
  next
    case (Some m)
    with inv t no_shutter [OF inv Some] show ?thesis by (auto simp: sys_inv_def one_owner_def)
  qed
  moreover have "mu_ok ?\<sigma>" using inv t by (auto simp: sys_inv_def mu_ok_def)
  moreover have "\<sigma>' = \<sigma>\<lparr>streams := None\<rparr>" "pc = KNext xs" using assms(5) by (auto simp: Close_locked_def)
  ultimately show ?thesis
    using inv by (auto simp: sys_inv_def calls_ok_def streams_ok_def map_ok_def)
qed

lemma sys_inv_shut_done:
  assumes inv: "sys_inv \<sigma>" and t: "calls \<sigma> t = KDonec s wid xs"
  shows "sys_inv (settle \<sigma> (obind (close_donec_at s \<sigma>) (\<lambda>\<sigma>'. Ret (goto t (KNext xs) \<sigma>'))))"
proof (cases "close_donec (heap \<sigma> ! s)")
  case (Ret w)
  note wf = close_donec_facts [OF Ret]
  have c: "streams \<sigma> = None" "distinct (s # map snd xs)" "\<forall>x \<in> set ((wid, s) # xs). to_close \<sigma> x"
    "told_to_close (heap \<sigma> ! s)" using sys_invD(1) [OF inv, of t] t by auto
  then have s: "s < length (heap \<sigma>)" by (simp add: to_close_def)
  have h: "\<not> holds_mu (calls \<sigma> t')" for t' using no_holder [OF inv] c(1) by blast
  then have "mu \<sigma> = None" using sys_invD(3) [OF inv] by (cases "mu \<sigma>") blast+
  have "shutting (calls \<sigma> t') = []" if "t' \<noteq> t" for t'
    using inv t that unfolding sys_inv_def one_owner_def by (metis list.distinct(1) shutting.simps(3))
  moreover have "stream_ok w" using sys_invD(4) [OF inv s] Ret c(4) by (rule closed_stream_ok)
  moreover have "\<forall>x \<in> set xs. to_close (goto t (KNext xs) (put_stream s w \<sigma>)) x"
  proof
    fix x assume x: "x \<in> set xs"
    then have "snd x \<noteq> s" using c(2) by auto
    with x c(3) show "to_close (goto t (KNext xs) (put_stream s w \<sigma>)) x" by (simp add: to_close_def)
  qed
  ultimately have "sys_inv (goto t (KNext xs) (put_stream s w \<sigma>))"
    using s wf op_evolves(4) [OF Ret] h t c(1,2) \<open>mu \<sigma> = None\<close>
    by (intro sys_inv_closed [OF inv, where s = s and w = w and t = t and c = "KNext xs"]) auto
  then show ?thesis by (simp add: close_donec_at_def Ret)
qed (simp_all add: close_donec_at_def sys_inv_crash inv)

text \<open>The deferred \<^verbatim>\<open>closeStream\<close>.\<close>

lemma sys_inv_run_close:
  assumes inv: "sys_inv \<sigma>" and s: "s < length (heap \<sigma>)" and r: "run (heap \<sigma> ! s) = RDeferClose"
    and mu: "mu \<sigma> = None"
  shows "sys_inv (settle \<sigma> (closeStream s \<sigma>))"
proof (cases "close_donec (heap \<sigma> ! s)")
  case (Ret w)
  note wf = close_donec_facts [OF Ret]
  let ?w = "cancel_ctx w\<lparr>run := RExit\<rparr>"
  have ok: "stream_ok (heap \<sigma> ! s)" using inv s by (rule sys_invD(4))
  with r have n: "notice (heap \<sigma> ! s) \<noteq> None" by (simp add: stream_ok_def stream_inv_def serve_inv_def)
  then have sc: "self_closed ?w" using wf by (simp add: self_closed_def cancel_ctx_def)
  have ev: "evolves (heap \<sigma> ! s) ?w"
    using op_evolves(4) [OF Ret] r wf by (simp add: evolves_def cancel_ctx_def requested_def)
  have "stream_inv ?w"
    using ok Ret r wf by (intro run_exit_stream_inv cancel_ctx_stream_inv)
      (auto simp: stream_ok_def cancel_ctx_def intro: close_donec_stream_inv)
  with sc have "stream_ok ?w" by (simp add: stream_ok_def)
  moreover have f: "donec ?w" "handed ?w = handed (heap \<sigma> ! s)" "\<not> donec (heap \<sigma> ! s)"
    using wf by (auto simp: cancel_ctx_def)
  moreover have h: "\<not> holds_mu (calls \<sigma> t')" for t' using no_holder [OF inv] mu by blast
  moreover have "call_ok (delete_stream (wgs_watchID (heap \<sigma> ! s)) (put_stream s ?w \<sigma>)) (calls \<sigma> t)" for t
    by (rule call_ok_closed [OF sys_invD(1,2) [OF inv] h s ev f(2)]) (simp_all add: sc)
  ultimately have "sys_inv (delete_stream (wgs_watchID (heap \<sigma> ! s)) (put_stream s ?w \<sigma>))"
    using mu ev sc by (intro sys_inv_closed [OF inv s, where w = ?w and t = 0 and c = "calls \<sigma> 0"]) auto
  then show ?thesis by (simp add: closeStream_def Ret Let_def)
qed (simp_all add: closeStream_def Let_def sys_inv_crash inv)

lemma sys_inv_init: "sys_inv fresh_watcher"
  by (simp add: sys_inv_def fresh_watcher_def streams_ok_def map_ok_def calls_ok_def mu_ok_def one_owner_def)

lemma take_req_simps [simp]:
  "handed (take_req k r w) = handed w" "donec (take_req k r w) = donec w"
  "wgs_watchID (take_req k r w) = wgs_watchID w" "sent (take_req k r w) = sent w"
  "run (take_req k r w) = RSend k r" "requested (take_req k r w) = sent w @ [(k, toPB r)]"
  "wgs_initReq (take_req k r w) = wgs_initReq w"
  by (simp_all add: take_req_def requested_def)

lemma cancel_ctx_simps [simp]:
  "handed (cancel_ctx w) = handed w" "donec (cancel_ctx w) = donec w"
  "wgs_watchID (cancel_ctx w) = wgs_watchID w" "sent (cancel_ctx w) = sent w"
  "notice (cancel_ctx w) = notice w" "run (cancel_ctx w) = run w" "requested (cancel_ctx w) = requested w"
  by (simp_all add: cancel_ctx_def requested_def)

theorem wact_sys_inv: "wact g \<sigma> \<sigma>' \<Longrightarrow> sys_inv \<sigma> \<Longrightarrow> sys_inv \<sigma>'"
proof (induction rule: wact.induct)
  case (env_over c)
  then show ?case
    by (auto simp: sys_inv_def streams_ok_def map_ok_def calls_ok_def mu_ok_def one_owner_def
      intro: call_ok_cong)
next
  case (start t pc wid c app)
  then show ?case by (intro sys_inv_goto) auto
next
  case (stream s w)
  then show ?case by (intro sys_inv_stream)
next
  case (watch t wid c app \<sigma>' pc)
  then show ?case by (intro sys_inv_watch)
next
  case (watch_sent t s wid c app k wr)
  have "call_ok \<sigma> (WWait s wid c app)" using sys_invD(1) [OF watch_sent(4), of t] watch_sent(1) by simp
  with watch_sent show ?case
    using hand_out_stream_inv [OF sys_invD(5), of \<sigma> s k] op_evolves(3)
    by (intro sys_inv_move) auto
next
  case (watch_ctx t s wid c app)
  then show ?case by (intro sys_inv_goto) auto
next
  case (watch_again t s wid c app)
  then show ?case by (intro sys_inv_goto) auto
next
  case (close t wid \<sigma>' pc)
  then show ?case by (intro sys_inv_close)
next
  case (close_send t s wid k)
  have m: "mapped \<sigma> wid s" using sys_invD(1) [OF close_send(3), of t] close_send(1) by simp
  with close_send mapped_open [OF sys_invD(2) [OF close_send(3)] m] show ?case
    by (intro sys_inv_move) (auto simp: op_evolves mapped_def told_to_close_def sys_invD(5)
      intro: take_req_stream_inv)
next
  case (close_cancel t s wid)
  have m: "mapped \<sigma> wid s" "told_to_close (heap \<sigma> ! s)"
    using sys_invD(1) [OF close_cancel(2), of t] close_cancel(1) by simp_all
  with close_cancel mapped_open [OF sys_invD(2) [OF close_cancel(2)] m(1)] show ?case
    by (intro sys_inv_move) (auto simp: op_evolves mapped_def told_to_close_def sys_invD(5)
      intro: cancel_ctx_stream_inv)
next
  case (close_done t s wid)
  then show ?case by (intro sys_inv_close_done)
next
  case (shut t xs \<sigma>' pc)
  then show ?case by (intro sys_inv_shut)
next
  case (shut_send t wid s xs k)
  have c: "call_ok \<sigma> (KNext ((wid, s) # xs))" using sys_invD(1) [OF shut_send(3), of t] shut_send(1) by simp
  with shut_send show ?case
    by (intro sys_inv_move) (auto simp: op_evolves to_close_def self_closed_def told_to_close_def
      nth_list_update sys_invD(5) intro: take_req_stream_inv)
next
  case (shut_cancel t s wid xs)
  have c: "call_ok \<sigma> (KCancel s wid xs)" using sys_invD(1) [OF shut_cancel(2), of t] shut_cancel(1) by simp
  with shut_cancel show ?case
    by (intro sys_inv_move) (auto simp: op_evolves to_close_def self_closed_def told_to_close_def
      nth_list_update sys_invD(5) intro: cancel_ctx_stream_inv)
next
  case (shut_done t s wid xs)
  then show ?case by (intro sys_inv_shut_done)
next
  case (shut_end t)
  then show ?case by (intro sys_inv_goto) auto
next
  case (run_close s)
  then show ?case by (intro sys_inv_run_close)
qed

lemma wreach_sys_inv: "wreach g \<sigma> \<Longrightarrow> sys_inv \<sigma>"
  by (induction rule: wreach.induct) (auto simp: sys_inv_init wstep_def intro: wact_sys_inv)

section \<open>Executions\<close>

definition wsteps :: "'err grpc_errors \<Rightarrow> 'err sys \<Rightarrow> 'err sys \<Rightarrow> bool" where
  "wsteps g = (wstep g)\<^sup>*\<^sup>*"

lemma wsteps_inv:
  assumes "wsteps g \<sigma> \<sigma>'" and "P \<sigma>" and "wreach g \<sigma>"
    and "\<And>\<rho> \<rho>'. wreach g \<rho> \<Longrightarrow> P \<rho> \<Longrightarrow> wstep g \<rho> \<rho>' \<Longrightarrow> P \<rho>'"
  shows "P \<sigma>' \<and> wreach g \<sigma>'"
  using assms(1) unfolding wsteps_def
  by (induction rule: rtranclp_induct) (use assms(2-) wreach.step in blast)+

lemma wsteps_step: "wsteps g \<sigma> \<rho> \<Longrightarrow> crashed \<rho> = None \<Longrightarrow> wact g \<rho> \<sigma>' \<Longrightarrow> wsteps g \<sigma> \<sigma>'"
  unfolding wsteps_def by (rule rtranclp.rtrancl_into_rtrancl) (simp_all add: wstep_def)

lemma wreach_act: "wreach g \<sigma> \<Longrightarrow> crashed \<sigma> = None \<Longrightarrow> wact g \<sigma> \<sigma>' \<Longrightarrow> wreach g \<sigma>'"
  by (rule wreach.step) (simp_all add: wstep_def)

text \<open>A panic is a second close of a stream that was told to close and told its consumer.\<close>

definition double_closed :: "'err wgs \<Rightarrow> bool" where
  "double_closed w \<longleftrightarrow> donec w \<and> told_to_close w \<and> notice w \<noteq> None"

lemma wact_crash:
  assumes "wact g \<sigma> \<sigma>'" and inv: "sys_inv \<sigma>" and "crashed \<sigma> = None" and "crashed \<sigma>' = Some p"
  shows "p = CloseOfClosed \<and> (\<exists>s < length (heap \<sigma>'). double_closed (heap \<sigma>' ! s))"
  using assms
proof (induction rule: wact.induct)
  case (close_done t s wid)
  have "mapped \<sigma> wid s" using sys_invD(1) [OF inv, of t] close_done(1) by simp
  from mapped_open [OF sys_invD(2) [OF inv] this] have "\<not> donec (heap \<sigma> ! s)" by simp
  with close_done(3,4) show ?case by (simp add: close_donec_at_def close_donec_def)
next
  case (shut_done t s wid xs)
  have c: "to_close \<sigma> (wid, s)" "told_to_close (heap \<sigma> ! s)"
    using sys_invD(1) [OF inv, of t] shut_done(1) by simp_all
  have d: "donec (heap \<sigma> ! s)"
    using shut_done(3,4) by (cases "donec (heap \<sigma> ! s)") (auto simp: close_donec_at_def close_donec_def)
  with c have "double_closed (heap \<sigma> ! s)" "s < length (heap \<sigma>)"
    by (auto simp: to_close_def double_closed_def self_closed_def)
  with d shut_done(4) show ?case by (auto simp: close_donec_at_def close_donec_def)
next
  case (run_close s)
  have d: "donec (heap \<sigma> ! s)"
    using run_close(5,6) by (cases "donec (heap \<sigma> ! s)")
      (auto simp: closeStream_def Let_def close_donec_def)
  have "stream_ok (heap \<sigma> ! s)" using inv run_close(1) by (rule sys_invD(4))
  with d run_close(2) have "double_closed (heap \<sigma> ! s)"
    by (auto simp: stream_ok_def stream_inv_def serve_inv_def self_closed_def double_closed_def)
  with d run_close(1,6) show ?case by (auto simp: closeStream_def Let_def close_donec_def)
qed (auto simp: Watch_locked_def CloseStream_locked_def Close_locked_def Let_def split: option.splits)

lemma wreach_crash:
  "wreach g \<sigma> \<Longrightarrow> crashed \<sigma> = Some p \<Longrightarrow>
    p = CloseOfClosed \<and> (\<exists>s < length (heap \<sigma>). double_closed (heap \<sigma> ! s))"
  by (induction rule: wreach.induct) (auto simp: fresh_watcher_def wstep_def dest: wact_crash wreach_sys_inv)

end
