(* ===== verification/WatcherProps.thy ===== *)
theory WatcherProps
  imports WatchSys
begin

text \<open>
  What the watcher of WatchSys promises to its callers, and the two ways in which a caller
  can wait for ever.
\<close>

section \<open>What every step keeps\<close>

lemma evolves_update: "evolves (xs ! s') w \<Longrightarrow> evolves (xs ! s) (xs[s' := w] ! s)"
  by (cases "s' = s"; cases "s < length xs") (auto simp: list_update_beyond)

lemma requested_cases:
  "(k, toPB req) \<in> set (requested w) \<Longrightarrow> (k, toPB req) \<in> set (sent w) \<or> run w = RSend k req"
  by (cases "run w") (auto simp: requested_def any_req.encode_eq_iff)

lemma wact_evolves:
  assumes "wact g \<sigma> \<sigma>'" and "s < length (heap \<sigma>)"
  shows "s < length (heap \<sigma>') \<and> evolves (heap \<sigma> ! s) (heap \<sigma>' ! s)"
  using assms
proof (induction rule: wact.induct)
  case (stream s' w)
  then show ?case using sstep_evolves [OF stream(2)] by (auto simp: nth_list_update)
next
  case (close_done t s' wid)
  then show ?case
    by (cases "close_donec (heap \<sigma> ! s')"; cases "s' = s")
      (auto simp: close_donec_at_def op_evolves)
next
  case (shut_done t s' wid xs)
  then show ?case
    by (cases "close_donec (heap \<sigma> ! s')"; cases "s' = s")
      (auto simp: close_donec_at_def op_evolves)
next
  case (run_close s')
  show ?case
  proof (cases "close_donec (heap \<sigma> ! s')")
    case (Ret w)
    have "evolves (heap \<sigma> ! s') (cancel_ctx w\<lparr>run := RExit\<rparr>)"
      using op_evolves(4) [OF Ret] close_donec_facts [OF Ret] run_close(2)
      by (simp add: evolves_def cancel_ctx_def requested_def)
    with Ret run_close show ?thesis by (auto simp: closeStream_def Let_def nth_list_update)
  qed (use run_close in \<open>auto simp: closeStream_def Let_def\<close>)
qed (auto simp: op_evolves Watch_locked_def CloseStream_locked_def Close_locked_def
    Let_def nth_append intro: evolves_update split: option.splits)

text \<open>A call that waits for the mutex does not move while another call holds it.\<close>

fun wants_mu :: "call \<Rightarrow> bool" where
  "wants_mu (WLock wid c app) = True"
| "wants_mu (CLock wid) = True"
| "wants_mu KLock = True"
| "wants_mu _ = False"

lemma wact_other_calls:
  assumes "wact g \<sigma> \<sigma>'" and "mu \<sigma> = Some t" and "wants_mu (calls \<sigma> t')"
    and "\<And>s wid. calls \<sigma> t \<noteq> CDonec s wid"
  shows "calls \<sigma>' t' = calls \<sigma> t'"
  using assms
proof (induction rule: wact.induct)
  case (close_done t1 s wid)
  then show ?case
    by (cases "close_donec (heap \<sigma> ! s)"; cases "t1 = t'") (auto simp: close_donec_at_def)
next
  case (shut_done t1 s wid xs)
  then show ?case
    by (cases "close_donec (heap \<sigma> ! s)"; cases "t1 = t'") (auto simp: close_donec_at_def)
qed (auto)

text \<open>
  \<^verbatim>\<open>CloseStream\<close> at its send holds the mutex; when the stream's \<^verbatim>\<open>run\<close> is gone nobody
  receives, so it stays there.
\<close>

definition stuck_close :: "'err sys \<Rightarrow> nat \<Rightarrow> nat \<Rightarrow> string \<Rightarrow> bool" where
  "stuck_close \<sigma> t s wid \<longleftrightarrow> calls \<sigma> t = CSend s wid \<and> run (heap \<sigma> ! s) = RExit"

lemma stuck_close_mu: "sys_inv \<sigma> \<Longrightarrow> stuck_close \<sigma> t s wid \<Longrightarrow> mu \<sigma> = Some t"
  using sys_invD(3) [of \<sigma> t] by (simp add: stuck_close_def)

lemma stuck_close_step:
  assumes "wact g \<sigma> \<sigma>'" and inv: "sys_inv \<sigma>" and st: "stuck_close \<sigma> t s wid"
  shows "stuck_close \<sigma>' t s wid"
proof -
  have "mapped \<sigma> wid s" using sys_invD(1) [OF inv, of t] st by (simp add: stuck_close_def)
  from mapped_open [OF sys_invD(2) [OF inv] this] have s: "s < length (heap \<sigma>)" by simp
  have "run (heap \<sigma>' ! s) = RExit"
    using wact_evolves [OF assms(1) s] st by (simp add: evolves_def stuck_close_def)
  moreover have "calls \<sigma>' t = CSend s wid"
    using assms(1) stuck_close_mu [OF inv st] st
  proof (induction rule: wact.induct)
    case (close_done t1 s' wid')
    then show ?case
      by (cases "close_donec (heap \<sigma> ! s')"; cases "t1 = t")
        (auto simp: close_donec_at_def stuck_close_def)
  next
    case (shut_done t1 s' wid' xs)
    then show ?case
      by (cases "close_donec (heap \<sigma> ! s')"; cases "t1 = t")
        (auto simp: close_donec_at_def stuck_close_def)
  qed (auto simp: stuck_close_def)
  ultimately show ?thesis by (simp add: stuck_close_def)
qed

text \<open>
  \<^verbatim>\<open>Watch\<close> waiting for a stream whose \<^verbatim>\<open>run\<close> failed before its main loop: \<^verbatim>\<open>run\<close> waits in
  its deferred function for a consumer of \<open>respc\<close>, which nobody has been given.
\<close>

definition hung_watch :: "'err sys \<Rightarrow> nat \<Rightarrow> nat \<Rightarrow> call \<Rightarrow> bool" where
  "hung_watch \<sigma> t s pc \<longleftrightarrow> calls \<sigma> t = pc \<and> \<not> told_to_close (heap \<sigma> ! s) \<and>
     (\<exists>e. run (heap \<sigma> ! s) = RDeferSend e)"

lemma sstep_defer:
  "sstep g pd w w' \<Longrightarrow> run w = RDeferSend e \<Longrightarrow> \<not> handed w \<Longrightarrow>
    run w' = RDeferSend e \<and> requested w' = requested w \<and> wgs_watchID w' = wgs_watchID w"
  by (induction rule: sstep.induct) (auto simp: requested_def)

lemma wact_defer_stream:
  assumes "wact g \<sigma> \<sigma>'" and inv: "sys_inv \<sigma>" and s: "s < length (heap \<sigma>)"
    and "\<not> handed (heap \<sigma> ! s)" and "\<not> told_to_close (heap \<sigma> ! s)" and r: "run (heap \<sigma> ! s) = RDeferSend e"
  shows "\<not> told_to_close (heap \<sigma>' ! s) \<and> run (heap \<sigma>' ! s) = RDeferSend e"
  using assms
proof (induction rule: wact.induct)
  case (stream s' w)
  then show ?case using sstep_defer [OF stream(2)]
    by (cases "s' = s") (auto simp: told_to_close_def)
next
  case (close_cancel t s' wid)
  have "told_to_close (heap \<sigma> ! s')" using sys_invD(1) [OF inv, of t] close_cancel(1) by simp
  with close_cancel show ?case by (cases "s' = s") auto
next
  case (shut_cancel t s' wid xs)
  have "told_to_close (heap \<sigma> ! s')" using sys_invD(1) [OF inv, of t] shut_cancel(1) by simp
  with shut_cancel show ?case by (cases "s' = s") auto
next
  case (close_done t s' wid)
  have "told_to_close (heap \<sigma> ! s')" using sys_invD(1) [OF inv, of t] close_done(1) by simp
  with close_done show ?case
    by (cases "s' = s"; cases "close_donec (heap \<sigma> ! s')") (auto simp: close_donec_at_def)
next
  case (shut_done t s' wid xs)
  have "told_to_close (heap \<sigma> ! s')" using sys_invD(1) [OF inv, of t] shut_done(1) by simp
  with shut_done show ?case
    by (cases "s' = s"; cases "close_donec (heap \<sigma> ! s')") (auto simp: close_donec_at_def)
next
  case (run_close s')
  then show ?case
    by (cases "s' = s"; cases "close_donec (heap \<sigma> ! s')") (auto simp: closeStream_def Let_def)
next
  case (watch_sent t s' wid c app k wr)
  then show ?case by (cases "s' = s") auto
next
  case (close_send t s' wid k)
  then show ?case by (cases "s' = s") auto
next
  case (shut_send t wid s' xs k)
  then show ?case by (cases "s' = s") auto
qed (auto simp: Watch_locked_def CloseStream_locked_def Close_locked_def Let_def nth_append
    split: option.splits)

lemma hung_watch_step:
  assumes act: "wact g \<sigma> \<sigma>'" and inv: "sys_inv \<sigma>" and h: "hung_watch \<sigma> t s (WWait s wid c app)"
    and "\<not> over \<sigma> c"
  shows "hung_watch \<sigma>' t s (WWait s wid c app)"
proof -
  from h obtain e where e: "calls \<sigma> t = WWait s wid c app" "\<not> told_to_close (heap \<sigma> ! s)"
    "run (heap \<sigma> ! s) = RDeferSend e" by (auto simp: hung_watch_def)
  have ok: "s < length (heap \<sigma>)" "\<not> handed (heap \<sigma> ! s)" using sys_invD(1) [OF inv, of t] e(1) by auto
  then have "\<not> donec (heap \<sigma> ! s)"
    using sys_invD(4) [OF inv ok(1)] e by (auto simp: stream_ok_def self_closed_def)
  with act e(1,3) assms(4) have "calls \<sigma>' t = WWait s wid c app"
  proof (induction rule: wact.induct)
    case (close_done t1 s' wid')
    then show ?case
      by (cases "close_donec (heap \<sigma> ! s')"; cases "t1 = t") (auto simp: close_donec_at_def)
  next
    case (shut_done t1 s' wid' xs)
    then show ?case
      by (cases "close_donec (heap \<sigma> ! s')"; cases "t1 = t") (auto simp: close_donec_at_def)
  next
    case (run_close s')
    then show ?case by (cases "close_donec (heap \<sigma> ! s')") (auto simp: closeStream_def Let_def)
  qed (auto simp: Watch_locked_def CloseStream_locked_def Close_locked_def Let_def
      split: option.splits if_splits)
  with wact_defer_stream [OF act inv ok e(2,3)] show ?thesis by (simp add: hung_watch_def)
qed

section \<open>Concrete executions\<close>

text \<open>
  A watcher with one stream, in a given state, for the watch identifier \<open>''w''\<close>, and the calls
  of two goroutines.
\<close>

definition demo_w :: "demo_err wgs" where
  "demo_w = newWatcherGrpcStream 0 ''w'' \<lparr>wcr_watchID = ''w'', wcr_app = demo_app\<rparr>"

definition demo_sys :: "nat option \<Rightarrow> bool \<Rightarrow> demo_err wgs \<Rightarrow> call \<Rightarrow> call \<Rightarrow> demo_err sys" where
  "demo_sys m ov w c0 c1 = \<lparr>mu = m, streams = Some [(''w'', 0)], heap = [w],
     calls = (\<lambda>_. CIdle)(0 := c0, 1 := c1), over = (\<lambda>_. False)(0 := ov), crashed = None\<rparr>"

lemma demo_sys_simps [simp]:
  "mu (demo_sys m ov w c0 c1) = m" "streams (demo_sys m ov w c0 c1) = Some [(''w'', 0)]"
  "heap (demo_sys m ov w c0 c1) = [w]" "calls (demo_sys m ov w c0 c1) 0 = c0"
  "calls (demo_sys m ov w c0 c1) (Suc 0) = c1" "over (demo_sys m ov w c0 c1) 0 = ov"
  "crashed (demo_sys m ov w c0 c1) = None"
  "goto 0 c (demo_sys m ov w c0 c1) = demo_sys m ov w c c1"
  "goto (Suc 0) c (demo_sys m ov w c0 c1) = demo_sys m ov w c0 c"
  "put_stream 0 w' (demo_sys m ov w c0 c1) = demo_sys m ov w' c0 c1"
  "demo_sys m ov w c0 c1\<lparr>mu := m'\<rparr> = demo_sys m' ov w c0 c1"
  by (auto simp: demo_sys_def goto_def put_stream_def)

text \<open>One stream step of such a system.\<close>

lemma demo_stream:
  assumes "wreach g (demo_sys m ov w c0 c1)" and "sstep g (over (demo_sys m ov w c0 c1) (wgs_pctx w)) w w'"
  shows "wreach g (demo_sys m ov w' c0 c1)"
  using wreach_act [OF assms(1) _ wact.stream [of 0 "demo_sys m ov w c0 c1" g w']] assms(2) by simp

lemma demo_call:
  assumes "wreach g (demo_sys m ov w c0 c1)" and "wact g (demo_sys m ov w c0 c1) \<sigma>'"
  shows "wreach g \<sigma>'"
  using wreach_act [OF assms(1) _ assms(2)] by simp

lemma demo_waiting: "wreach demo_errors (demo_sys None False demo_w (WWait 0 ''w'' 0 demo_app) CIdle)"
proof -
  let ?s1 = "goto 0 (WLock ''w'' 0 demo_app) fresh_watcher"
  have s1: "wreach demo_errors ?s1"
    by (rule wreach_act [OF wreach.init _ wact.start]) (auto simp: fresh_watcher_def)
  have lk: "Watch_locked ''w'' 0 demo_app ?s1 =
      (?s1\<lparr>heap := [demo_w], streams := Some [(''w'', 0)]\<rparr>, WWait 0 ''w'' 0 demo_app)"
    by (simp add: Watch_locked_def fresh_watcher_def demo_w_def Let_def)
  have "wreach demo_errors (goto 0 (WWait 0 ''w'' 0 demo_app)
      (?s1\<lparr>heap := [demo_w], streams := Some [(''w'', 0)]\<rparr>))"
    by (rule wreach_act [OF s1 _ wact.watch [OF _ _ lk]]) (simp_all add: fresh_watcher_def)
  also have "goto 0 (WWait 0 ''w'' 0 demo_app) (?s1\<lparr>heap := [demo_w], streams := Some [(''w'', 0)]\<rparr>) =
      demo_sys None False demo_w (WWait 0 ''w'' 0 demo_app) CIdle"
    by (auto simp: demo_sys_def goto_def fresh_watcher_def)
  finally show ?thesis .
qed

definition demo_dial :: "demo_err option \<Rightarrow> (unit, demo_err) attempt" where
  "demo_dial err = \<lparr>at_select = None, got_stream = (if err = None then Some () else None),
     got_err = err, at_classify = None\<rparr>"

lemma demo_dialing:
  "wreach demo_errors (demo_sys None False (demo_w\<lparr>run := RDial True open_init\<rparr>) (WWait 0 ''w'' 0 demo_app) CIdle)"
  by (rule demo_stream [OF demo_waiting open_go]) (simp_all add: demo_w_def newWatcherGrpcStream_def ctx_over_def)

text \<open>The first dial is refused by the server.\<close>

definition demo_denied :: demo_err where "demo_denied = StatusErr PermissionDenied ''no''"

lemma demo_refused:
  "wreach demo_errors (demo_sys None False (demo_w\<lparr>run := RDeferSend demo_denied\<rparr>) (WWait 0 ''w'' 0 demo_app) CIdle)"
proof -
  have "sstep demo_errors False (demo_w\<lparr>run := RDial True open_init\<rparr>)
      (demo_w\<lparr>run := RDial True open_init, run := RDeferSend demo_denied\<rparr>)"
    by (rule dial_failed [where a = "demo_dial (Some demo_denied)" and e = demo_denied])
      (simp_all add: demo_dial_def demo_denied_def rpc_Watch_result_def ctx_at_def ctx_over_def demo_w_def
        newWatcherGrpcStream_def open_classify_def isHaltErr_def ctx_done_def demo_errors_def)
  from demo_stream [OF demo_dialing, of "demo_w\<lparr>run := RDeferSend demo_denied\<rparr>"] this
  show ?thesis by (simp add: demo_w_def newWatcherGrpcStream_def)
qed

text \<open>The first dial succeeds, and the create request is sent.\<close>

definition demo_up :: "demo_err wgs" where
  "demo_up = demo_w\<lparr>run := RLoop 0, serves := [SRecv], handed := True,
     sent := [(0, toPB_create \<lparr>wcr_watchID = ''w'', wcr_app = demo_app\<rparr>)]\<rparr>"

definition demo_dialled :: "demo_err wgs" where
  "demo_dialled = demo_w\<lparr>run := RLoop 0, serves := [SRecv]\<rparr>"

definition demo_asked :: "demo_err wgs" where
  "demo_asked = take_req 0 (Create \<lparr>wcr_watchID = ''w'', wcr_app = demo_app\<rparr>) demo_dialled\<lparr>handed := True\<rparr>"

lemmas demo_stages = demo_dialled_def demo_asked_def demo_up_def demo_w_def newWatcherGrpcStream_def

lemma demo_handed: "wreach demo_errors (demo_sys None False demo_asked (WRet (Some 0)) CIdle)"
proof -
  have "sstep demo_errors False (demo_w\<lparr>run := RDial True open_init\<rparr>)
      (connected True (demo_w\<lparr>run := RDial True open_init\<rparr>))"
    by (rule dial_ok [where a = "demo_dial None" and ws = "()" and e = demo_denied])
      (simp_all add: demo_dial_def rpc_Watch_result_def ctx_at_def ctx_over_def demo_w_def
        newWatcherGrpcStream_def open_classify_def)
  moreover have "connected True (demo_w\<lparr>run := RDial True open_init\<rparr>) = demo_dialled"
    by (simp add: connected_def demo_stages)
  ultimately have "sstep demo_errors False (demo_w\<lparr>run := RDial True open_init\<rparr>) demo_dialled" by simp
  then have c: "wreach demo_errors (demo_sys None False demo_dialled (WWait 0 ''w'' 0 demo_app) CIdle)"
    by (intro demo_stream [OF demo_dialing]) (simp add: demo_w_def newWatcherGrpcStream_def)
  have "run demo_dialled = RLoop 0" by (simp add: demo_dialled_def)
  with demo_call [OF c wact.watch_sent [where t = 0 and k = 0]] show ?thesis by (simp add: demo_asked_def)
qed

lemma demo_connected: "wreach demo_errors (demo_sys None False demo_up (WRet (Some 0)) CIdle)"
proof -
  let ?req = "Create \<lparr>wcr_watchID = ''w'', wcr_app = demo_app\<rparr>"
  have "sstep demo_errors False demo_asked (demo_asked\<lparr>sent := sent demo_asked @ [(0, toPB ?req)], run := RLoop 0\<rparr>)"
    by (rule run_send) (simp add: demo_asked_def)
  moreover have "demo_asked\<lparr>sent := sent demo_asked @ [(0, toPB ?req)], run := RLoop 0\<rparr> = demo_up"
    by (simp add: take_req_def demo_stages)
  ultimately show ?thesis
    by (intro demo_stream [OF demo_handed]) (simp add: take_req_def demo_stages)
qed

text \<open>The caller's context ends, \<^verbatim>\<open>run\<close> returns, and then \<^verbatim>\<open>CloseStream\<close> finds the stream.\<close>

lemma demo_close_hit:
  assumes "wreach demo_errors (demo_sys None ov w (WRet (Some 0)) CIdle)"
  shows "wreach demo_errors (demo_sys (Some 1) ov w (WRet (Some 0)) (CSend 0 ''w''))"
proof -
  have c: "wreach demo_errors (demo_sys None ov w (WRet (Some 0)) (CLock ''w''))"
    using demo_call [OF assms wact.start [where t = 1 and pc = "CLock ''w''"]] by simp
  have "CloseStream_locked 1 ''w'' (demo_sys None ov w (WRet (Some 0)) (CLock ''w'')) =
      (demo_sys (Some 1) ov w (WRet (Some 0)) (CLock ''w''), CSend 0 ''w'')"
    by (simp add: CloseStream_locked_def)
  from demo_call [OF c wact.close [OF _ _ this]] show ?thesis by simp
qed

lemma demo_dead_close:
  "wreach demo_errors (demo_sys (Some 1) True (demo_up\<lparr>run := RExit\<rparr>) (WRet (Some 0)) (CSend 0 ''w''))"
proof -
  have "demo_sys None False demo_up (WRet (Some 0)) CIdle\<lparr>over := (\<lambda>_. False)(0 := True)\<rparr> =
      demo_sys None True demo_up (WRet (Some 0)) CIdle"
    "over (demo_sys None False demo_up (WRet (Some 0)) CIdle) = (\<lambda>_. False)"
    by (auto simp: demo_sys_def)
  with demo_call [OF demo_connected wact.env_over [where c = 0]]
  have o: "wreach demo_errors (demo_sys None True demo_up (WRet (Some 0)) CIdle)" by simp
  have "sstep demo_errors True demo_up (demo_up\<lparr>run := RExit\<rparr>)"
    by (rule run_ctx [where k = 0]) (simp_all add: demo_up_def ctx_over_def)
  then have "wreach demo_errors (demo_sys None True (demo_up\<lparr>run := RExit\<rparr>) (WRet (Some 0)) CIdle)"
    by (intro demo_stream [OF o]) (simp add: demo_up_def demo_w_def newWatcherGrpcStream_def)
  then show ?thesis by (rule demo_close_hit)
qed

text \<open>
  \<^verbatim>\<open>CloseStream\<close> cancels the stream's context; the receive fails because of that, \<^verbatim>\<open>run\<close>
  takes the error from \<^verbatim>\<open>errc\<close> and tells the consumer, and both close \<^verbatim>\<open>donec\<close>.
\<close>

definition demo_cancelled :: demo_err where "demo_cancelled = StatusErr Canceled ''ctx''"

lemma demo_double_close:
  "\<exists>\<sigma>. wreach demo_errors \<sigma> \<and> crashed \<sigma> = Some CloseOfClosed"
proof -
  let ?w0 = "take_req 0 (close_req ''w'') demo_up"
  let ?w1 = "demo_up\<lparr>sent := sent demo_up @ [(0, toPB (close_req ''w''))]\<rparr>"
  let ?w2 = "cancel_ctx ?w1"
  let ?w3 = "?w2\<lparr>serves := [SErr demo_cancelled]\<rparr>"
  let ?w4 = "?w2\<lparr>serves := [SExit], errc := Some demo_cancelled\<rparr>"
  let ?w5 = "?w2\<lparr>serves := [SExit], run := RDeferSend demo_cancelled\<rparr>"
  let ?w6 = "?w2\<lparr>serves := [SExit], run := RDeferClose,
    notice := Some (cancel_notice (ErrorText demo_errors demo_cancelled))\<rparr>"
  let ?w7 = "?w6\<lparr>donec := True\<rparr>"
  note defs = take_req_def cancel_ctx_def demo_up_def demo_w_def newWatcherGrpcStream_def
  have s0: "wreach demo_errors (demo_sys (Some 1) False demo_up (WRet (Some 0)) (CSend 0 ''w''))"
    by (rule demo_close_hit [OF demo_connected])
  have t1: "wreach demo_errors (demo_sys (Some 1) False ?w0 (WRet (Some 0)) (CCancel 0 ''w''))"
    using demo_call [OF s0 wact.close_send [where t = 1 and k = 0]] by (simp add: demo_up_def)
  have "sstep demo_errors False ?w0 (?w0\<lparr>sent := sent ?w0 @ [(0, toPB (close_req ''w''))], run := RLoop 0\<rparr>)"
    by (rule run_send) simp
  then have s1: "wreach demo_errors (demo_sys (Some 1) False ?w1 (WRet (Some 0)) (CCancel 0 ''w''))"
    by (intro demo_stream [OF t1]) (simp add: defs)
  have s2: "wreach demo_errors (demo_sys (Some 1) False ?w2 (WRet (Some 0)) (CDonec 0 ''w''))"
    using demo_call [OF s1 wact.close_cancel [where t = 1]] by simp
  have "sstep demo_errors False ?w2 (serve_to 0 (SErr demo_cancelled) ?w2)"
    by (rule recv_err) (simp_all add: defs)
  then have s3: "wreach demo_errors (demo_sys (Some 1) False ?w3 (WRet (Some 0)) (CDonec 0 ''w''))"
    by (intro demo_stream [OF s2]) (simp add: serve_to_def defs)
  have "sstep demo_errors False ?w3 (serve_to 0 SExit (?w3\<lparr>errc := Some demo_cancelled\<rparr>))"
    by (rule give_err) (simp_all add: defs)
  then have s4: "wreach demo_errors (demo_sys (Some 1) False ?w4 (WRet (Some 0)) (CDonec 0 ''w''))"
    by (intro demo_stream [OF s3]) (simp add: serve_to_def defs)
  have "sstep demo_errors False ?w4 (?w4\<lparr>errc := None, run := RDeferSend demo_cancelled\<rparr>)"
    by (rule run_halt [where k = 0 and e = demo_cancelled])
      (simp_all add: defs ctx_at_def ctx_over_def isHaltErr_def ctx_done_def)
  then have s5: "wreach demo_errors (demo_sys (Some 1) False ?w5 (WRet (Some 0)) (CDonec 0 ''w''))"
    by (intro demo_stream [OF s4]) (simp add: defs)
  have "sstep demo_errors False ?w5 (?w5\<lparr>run := RDeferClose,
      notice := Some (cancel_notice (ErrorText demo_errors demo_cancelled))\<rparr>)"
    by (rule defer_send) (simp_all add: defs)
  then have s6: "wreach demo_errors (demo_sys (Some 1) False ?w6 (WRet (Some 0)) (CDonec 0 ''w''))"
    by (intro demo_stream [OF s5]) (simp add: defs)
  let ?\<sigma>7 = "goto 1 CRet (delete_stream ''w'' (demo_sys (Some 1) False ?w7 (WRet (Some 0)) (CDonec 0 ''w''))\<lparr>mu := None\<rparr>)"
  have cd: "close_donec ?w6 = Ret ?w7" by (simp add: close_donec_def defs)
  have s7: "wreach demo_errors ?\<sigma>7"
    using demo_call [OF s6 wact.close_done [where t = 1]] by (simp add: close_donec_at_def cd)
  have act: "wact demo_errors ?\<sigma>7 (settle ?\<sigma>7 (closeStream 0 ?\<sigma>7))"
    by (rule wact.run_close) simp_all
  have "wreach demo_errors (settle ?\<sigma>7 (closeStream 0 ?\<sigma>7))" by (rule wreach_act [OF s7 _ act]) simp
  moreover have "crashed (settle ?\<sigma>7 (closeStream 0 ?\<sigma>7)) = Some CloseOfClosed"
    by (simp add: closeStream_def close_donec_def Let_def)
  ultimately show ?thesis by blast
qed

text \<open>A response has arrived and waits for the consumer.\<close>

lemma demo_received:
  "wreach demo_errors (demo_sys None False (demo_up\<lparr>serves := [SResp empty_response], recvd := [empty_response]\<rparr>)
     (WRet (Some 0)) CIdle)"
proof -
  have "sstep demo_errors False demo_up
      (serve_to 0 (SResp empty_response) (demo_up\<lparr>recvd := recvd demo_up @ [empty_response]\<rparr>))"
    by (rule recv_resp) (simp_all add: demo_up_def)
  then show ?thesis
    by (intro demo_stream [OF demo_connected])
      (simp add: serve_to_def demo_up_def demo_w_def newWatcherGrpcStream_def)
qed

section \<open>Properties of the watcher\<close>

text \<open>
  C1 (safety).  In every reachable state, whatever the interleaving and however often the
  stream has reconnected, the consumer of a stream has been given the responses received
  from the server, each once and in order, all but at most the last one; and once it has
  been given the cancellation notice no receiving goroutine is left, so nothing follows.
\<close>

theorem responses_in_order:
  assumes "wreach g \<sigma>" and "s < length (heap \<sigma>)"
  shows "(\<exists>rest. recvd (heap \<sigma> ! s) = taken (heap \<sigma> ! s) @ rest \<and> length rest \<le> 1) \<and>
    (notice (heap \<sigma> ! s) \<noteq> None \<longrightarrow> set (serves (heap \<sigma> ! s)) \<subseteq> {SExit} \<and> errc (heap \<sigma> ! s) = None)"
proof -
  have "stream_inv (heap \<sigma> ! s)" using wreach_sys_inv [OF assms(1)] assms(2) by (rule sys_invD(5))
  then have inv: "serve_inv (heap \<sigma> ! s)" "deliver_inv (heap \<sigma> ! s)" by (simp_all add: stream_inv_def)
  have "\<exists>rest. recvd (heap \<sigma> ! s) = taken (heap \<sigma> ! s) @ rest \<and> length rest \<le> 1"
    using inv(2) by (auto simp: deliver_inv_def pending_def split: serve_pc.splits)
  moreover have "idle (heap \<sigma> ! s)" if "notice (heap \<sigma> ! s) \<noteq> None"
    using inv(1) that by (cases "run (heap \<sigma> ! s)") (auto simp: serve_inv_def)
  ultimately show ?thesis
    using serve_inv_all_exit [OF inv(1)] by (auto simp: idle_def)
qed

theorem responses_in_order_witness:
  "\<exists>\<sigma> rest. wreach demo_errors \<sigma> \<and> recvd (heap \<sigma> ! 0) = [empty_response] \<and>
     [empty_response] = taken (heap \<sigma> ! 0) @ rest \<and> length rest \<le> 1"
  using responses_in_order [OF demo_received, of 0] demo_received by auto

text \<open>
  C8 (invariant).  As long as the watcher is open its map holds exactly the streams that are
  not closed, each under its own watch identifier: two open streams never share one, a
  stream leaves the map only by being closed, and none is forgotten.
\<close>

theorem one_open_stream_per_watch:
  assumes "wreach g \<sigma>" and "streams \<sigma> = Some m" and "s < length (heap \<sigma>)"
  shows "gomap_ok m \<and>
    (mget m (wgs_watchID (heap \<sigma> ! s)) = Some s \<longleftrightarrow> \<not> donec (heap \<sigma> ! s)) \<and>
    (\<forall>s' < length (heap \<sigma>). \<not> donec (heap \<sigma> ! s) \<and> \<not> donec (heap \<sigma> ! s') \<and>
       wgs_watchID (heap \<sigma> ! s') = wgs_watchID (heap \<sigma> ! s) \<longrightarrow> s' = s)"
proof -
  note m = sys_invD(2) [OF wreach_sys_inv [OF assms(1)], unfolded map_ok_def, rule_format, OF assms(2)]
  then have "mget m (wgs_watchID (heap \<sigma> ! j)) = Some j \<longleftrightarrow> \<not> donec (heap \<sigma> ! j)"
    if "j < length (heap \<sigma>)" for j using that by simp
  with m assms(3) show ?thesis by (metis option.inject)
qed

theorem one_open_stream_per_watch_witness:
  "\<exists>\<sigma> m. wreach demo_errors \<sigma> \<and> streams \<sigma> = Some m \<and> mget m ''w'' = Some 0"
proof -
  let ?\<sigma> = "demo_sys None False demo_up (WRet (Some 0)) CIdle"
  have "\<not> donec demo_up" "wgs_watchID demo_up = ''w''"
    by (simp_all add: demo_up_def demo_w_def)
  with one_open_stream_per_watch [OF demo_connected, of "[(''w'', 0)]" 0]
  have "mget [(''w'', 0)] ''w'' = Some 0" by simp
  with demo_connected show ?thesis by (intro exI [of _ ?\<sigma>]) simp
qed

text \<open>
  C10 (safety).  Every connection a stream opens after its first one carries the stream's
  original create request as the first request handed to \<^verbatim>\<open>Send\<close> on it, whose error is only logged, so
  a reconnect asks for the watch before anything else.
\<close>

theorem reconnect_recreates_watch:
  assumes "wreach g \<sigma>" and "s < length (heap \<sigma>)" and "0 < k" and "k < length (serves (heap \<sigma> ! s))"
  shows "\<exists>rest. requests_on k (heap \<sigma> ! s) = toPB_create (wgs_initReq (heap \<sigma> ! s)) # rest"
  using sys_invD(5) [OF wreach_sys_inv [OF assms(1)] assms(2)] assms(3,4)
  by (simp add: stream_inv_def sent_inv_def)

text \<open>The first connection breaks with Unavailable and a second one is opened.\<close>

definition demo_lost :: demo_err where "demo_lost = StatusErr Unavailable ''lost''"

lemma demo_reconnected:
  "\<exists>w. wreach demo_errors (demo_sys None False w (WRet (Some 0)) CIdle) \<and> length (serves w) = 2 \<and>
     wgs_initReq w = \<lparr>wcr_watchID = ''w'', wcr_app = demo_app\<rparr>"
proof -
  note defs = demo_up_def demo_w_def newWatcherGrpcStream_def
  let ?s = "\<lambda>w. demo_sys None False w (WRet (Some 0)) CIdle"
  let ?w1 = "serve_to 0 (SErr demo_lost) demo_up"
  let ?w2 = "serve_to 0 SExit (?w1\<lparr>errc := Some demo_lost\<rparr>)"
  let ?w3 = "?w2\<lparr>errc := None, run := ROpen False open_init\<rparr>"
  let ?w4 = "?w3\<lparr>run := RDial False open_init\<rparr>"
  have ov: "over (?s w) (wgs_pctx w) = False" for w by (simp add: demo_sys_def)
  have step: "wreach demo_errors (?s w')" if "wreach demo_errors (?s w)" "sstep demo_errors False w w'" for w w'
    using demo_stream [OF that(1)] that(2) ov by metis
  have "sstep demo_errors False demo_up ?w1" by (rule recv_err) (simp_all add: defs)
  with demo_connected have 1: "wreach demo_errors (?s ?w1)" by (rule step)
  have "sstep demo_errors False ?w1 ?w2" by (rule give_err) (simp_all add: defs)
  with 1 have 2: "wreach demo_errors (?s ?w2)" by (rule step)
  have "sstep demo_errors False ?w2 ?w3"
    by (rule run_retry [where k = 0 and e = demo_lost and err = demo_lost])
      (simp_all add: defs serve_to_def ctx_at_def ctx_over_def isHaltErr_def ctx_done_def demo_errors_def
        demo_lost_def)
  with 2 have 3: "wreach demo_errors (?s ?w3)" by (rule step)
  have "sstep demo_errors False ?w3 ?w4"
    by (rule open_go) (simp_all add: defs serve_to_def ctx_over_def)
  with 3 have 4: "wreach demo_errors (?s ?w4)" by (rule step)
  have "sstep demo_errors False ?w4 (connected False ?w4)"
    by (rule dial_ok [where a = "demo_dial None" and ws = "()" and e = demo_denied])
      (simp_all add: demo_dial_def rpc_Watch_result_def ctx_at_def ctx_over_def defs serve_to_def
        open_classify_def)
  with 4 have "wreach demo_errors (?s (connected False ?w4))" by (rule step)
  then show ?thesis by (rule exI [where x = "connected False ?w4", OF conjI]) (simp add: defs)
qed

theorem reconnect_recreates_watch_witness:
  "\<exists>\<sigma> rest. wreach demo_errors \<sigma> \<and>
     requests_on 1 (heap \<sigma> ! 0) = toPB_create \<lparr>wcr_watchID = ''w'', wcr_app = demo_app\<rparr> # rest"
proof -
  obtain w where "wreach demo_errors (demo_sys None False w (WRet (Some 0)) CIdle)"
    "length (serves w) = 2" "wgs_initReq w = \<lparr>wcr_watchID = ''w'', wcr_app = demo_app\<rparr>"
    using demo_reconnected by blast
  with reconnect_recreates_watch [of demo_errors "demo_sys None False w (WRet (Some 0)) CIdle" 0 1]
  show ?thesis by force
qed

text \<open>
  C20 (functional).  A \<^verbatim>\<open>Watch\<close> call that returned the response channel of a stream has given that
  stream's create request to its \<^verbatim>\<open>run\<close>, which has handed it to \<^verbatim>\<open>Send\<close> or does so as the next thing
  it does (whether \<^verbatim>\<open>Send\<close> succeeds \<^verbatim>\<open>Watch\<close> does not wait for); and no other call, at any time,
  returns the channel of the same stream.
\<close>

theorem watch_returns_own_stream:
  assumes "wreach g \<sigma>" and "calls \<sigma> t = WRet (Some s)"
  shows "s < length (heap \<sigma>) \<and>
    (\<exists>k. (k, toPB_create (wgs_initReq (heap \<sigma> ! s))) \<in> set (sent (heap \<sigma> ! s)) \<or>
      run (heap \<sigma> ! s) = RSend k (Create (wgs_initReq (heap \<sigma> ! s)))) \<and>
    (\<forall>t'. calls \<sigma> t' = WRet (Some s) \<longrightarrow> t' = t)"
proof -
  have inv: "sys_inv \<sigma>" using assms(1) by (rule wreach_sys_inv)
  have "call_ok \<sigma> (WRet (Some s))" using sys_invD(1) [OF inv, of t] assms(2) by simp
  then have s: "s < length (heap \<sigma>)" "handed (heap \<sigma> ! s)" by simp_all
  moreover have "sent_inv (heap \<sigma> ! s)" using sys_invD(5) [OF inv s(1)] by (simp add: stream_inv_def)
  then obtain k where "(k, toPB_create (wgs_initReq (heap \<sigma> ! s))) \<in> set (requested (heap \<sigma> ! s))"
    using s(2) by (auto simp: sent_inv_def)
  moreover have "t' = t" if "calls \<sigma> t' = WRet (Some s)" for t'
    using inv that assms(2) unfolding sys_inv_def one_owner_def by (metis made.simps(2))
  ultimately show ?thesis by (auto dest: requested_cases [where req = "Create r" for r, simplified])
qed

theorem watch_returns_own_stream_witness:
  "\<exists>\<sigma> \<rho>. wreach demo_errors \<sigma> \<and> calls \<sigma> 0 = WRet (Some 0) \<and> sent (heap \<sigma> ! 0) = [] \<and>
     run (heap \<sigma> ! 0) = RSend 0 (Create (wgs_initReq (heap \<sigma> ! 0))) \<and>
     wreach demo_errors \<rho> \<and> run (heap \<rho> ! 0) = RLoop 0 \<and>
     (\<exists>k. (k, toPB_create (wgs_initReq (heap \<rho> ! 0))) \<in> set (sent (heap \<rho> ! 0)))"
proof -
  have "sent demo_asked = []" "run demo_up = RLoop 0"
    by (simp_all add: demo_asked_def take_req_def demo_dialled_def demo_w_def newWatcherGrpcStream_def demo_up_def)
  with watch_returns_own_stream [OF demo_handed, of 0 0] watch_returns_own_stream [OF demo_connected, of 0 0]
    demo_handed demo_connected show ?thesis
    by (intro exI [of _ "demo_sys None False demo_asked (WRet (Some 0)) CIdle"]
        exI [of _ "demo_sys None False demo_up (WRet (Some 0)) CIdle"]) (auto simp: demo_asked_def)
qed

text \<open>
  C19 (liveness).  When no call holds the mutex and the stream's \<^verbatim>\<open>run\<close> is in its main loop,
  \<^verbatim>\<open>CloseStream\<close> can run to its end: the cancel request is sent on the current connection,
  the stream's context is cancelled, \<^verbatim>\<open>donec\<close> is closed, its entry is gone, the mutex is
  free, and no other stream, entry or call has changed.
\<close>

theorem close_stream_completes:
  assumes "wreach g \<sigma>" and "crashed \<sigma> = None" and "mu \<sigma> = None" and "calls \<sigma> t = CLock wid"
    and "streams \<sigma> = Some m" and "mget m wid = Some s" and "run (heap \<sigma> ! s) = RLoop k"
  shows "\<exists>\<sigma>'. wsteps g \<sigma> \<sigma>' \<and> calls \<sigma>' = (calls \<sigma>)(t := CRet) \<and> mu \<sigma>' = None \<and>
    crashed \<sigma>' = None \<and> streams \<sigma>' = Some (mdel wid m) \<and>
    heap \<sigma>' = (heap \<sigma>)[s := (heap \<sigma> ! s)
      \<lparr>sent := sent (heap \<sigma> ! s) @ [(k, toPB_cancel \<lparr>wca_watchID = wid\<rparr>)],
       cancelled := True, donec := True\<rparr>]"
proof -
  let ?w = "heap \<sigma> ! s"
  let ?w1 = "take_req k (close_req wid) ?w"
  let ?\<sigma>1 = "goto t (CSend s wid) (\<sigma>\<lparr>mu := Some t\<rparr>)"
  let ?\<sigma>2 = "goto t (CCancel s wid) (put_stream s ?w1 ?\<sigma>1)"
  let ?w2 = "?w1\<lparr>sent := sent ?w1 @ [(k, toPB (close_req wid))], run := RLoop k\<rparr>"
  let ?\<sigma>2' = "put_stream s ?w2 ?\<sigma>2"
  let ?\<sigma>3 = "goto t (CDonec s wid) (put_stream s (cancel_ctx ?w2) ?\<sigma>2')"
  have loop: "?w\<lparr>sent := x, run := RLoop k, cancelled := True, donec := True\<rparr> =
      ?w\<lparr>sent := x, cancelled := True, donec := True\<rparr>" for x
    using assms(7) by (cases ?w) simp
  have "mapped \<sigma> wid s" using assms(5,6) by (auto simp: mapped_def dest: map_of_SomeD)
  from mapped_open [OF sys_invD(2) [OF wreach_sys_inv [OF assms(1)]] this]
  have s: "s < length (heap \<sigma>)" "\<not> donec ?w" by simp_all
  have "wsteps g \<sigma> \<sigma>" by (simp add: wsteps_def)
  moreover have "wact g \<sigma> ?\<sigma>1"
    using assms(4-6) by (intro wact.close [OF assms(4,3)]) (simp add: CloseStream_locked_def)
  ultimately have "wsteps g \<sigma> ?\<sigma>1" using assms(2) by (blast intro: wsteps_step)
  moreover have "wact g ?\<sigma>1 ?\<sigma>2"
    using wact.close_send [of ?\<sigma>1 t s wid k g] assms(7) by simp
  ultimately have "wsteps g \<sigma> ?\<sigma>2" using assms(2) by (auto intro: wsteps_step)
  moreover have "wact g ?\<sigma>2 ?\<sigma>2'"
    using s run_send [of ?w1 k "close_req wid" g] by (intro wact.stream) simp_all
  ultimately have "wsteps g \<sigma> ?\<sigma>2'" using assms(2) by (auto intro: wsteps_step)
  moreover have "wact g ?\<sigma>2' ?\<sigma>3"
    using wact.close_cancel [of ?\<sigma>2' t s wid g] s by simp
  ultimately have 3: "wsteps g \<sigma> ?\<sigma>3" using assms(2) by (auto intro: wsteps_step)
  let ?\<sigma>4 = "goto t CRet (delete_stream wid (put_stream s (cancel_ctx ?w2\<lparr>donec := True\<rparr>) ?\<sigma>3)\<lparr>mu := None\<rparr>)"
  have "close_donec (cancel_ctx ?w2) = Ret (cancel_ctx ?w2\<lparr>donec := True\<rparr>)"
    using s(2) by (simp add: close_donec_def)
  then have "wact g ?\<sigma>3 ?\<sigma>4"
    using wact.close_done [of ?\<sigma>3 t s wid g] s by (simp add: close_donec_at_def)
  with 3 have "wsteps g \<sigma> ?\<sigma>4" using assms(2) by (auto intro: wsteps_step)
  with s assms(2,5) show ?thesis
    by (intro exI [of _ ?\<sigma>4]) (simp add: take_req_def cancel_ctx_def close_req_def loop)
qed

theorem close_stream_completes_witness:
  "\<exists>\<sigma> \<sigma>'. wreach demo_errors \<sigma> \<and> wsteps demo_errors \<sigma> \<sigma>' \<and> calls \<sigma>' 1 = CRet \<and>
     streams \<sigma>' = Some [] \<and> donec (heap \<sigma>' ! 0)"
proof -
  let ?\<sigma> = "demo_sys None False demo_up (WRet (Some 0)) (CLock ''w'')"
  have r: "wreach demo_errors ?\<sigma>"
    using demo_call [OF demo_connected wact.start [where t = 1 and pc = "CLock ''w''"]] by simp
  from close_stream_completes [OF r, of 1 "''w''" "[(''w'', 0)]" 0 0] r
  show ?thesis by (fastforce simp: demo_up_def)
qed

text \<open>
  The panic does happen: there is an execution in which \<^verbatim>\<open>CloseStream\<close> is
  called once on a connected stream whose consumer keeps reading, and \<^verbatim>\<open>donec\<close> is closed
  by it and again by the stream's own deferred \<^verbatim>\<open>closeStream\<close>.
\<close>

theorem close_stream_can_panic:
  "\<exists>\<sigma>. wreach demo_errors \<sigma> \<and> crashed \<sigma> = Some CloseOfClosed"
  by (rule demo_double_close)

text \<open>
  C38 (liveness).  \<^verbatim>\<open>CloseStream\<close> on a stream whose \<^verbatim>\<open>run\<close> has already returned never
  returns: in every continuation it is still at its send and still holds the mutex, and
  every call that was waiting for the mutex is still waiting.
\<close>

theorem close_stream_deadlock:
  assumes "wreach g \<sigma>" and "calls \<sigma> t = CSend s wid" and "run (heap \<sigma> ! s) = RExit"
    and "wsteps g \<sigma> \<sigma>'"
  shows "calls \<sigma>' t = CSend s wid \<and> mu \<sigma>' = Some t \<and>
    (\<forall>t'. wants_mu (calls \<sigma> t') \<longrightarrow> calls \<sigma>' t' = calls \<sigma> t')"
proof -
  let ?P = "\<lambda>\<rho>. stuck_close \<rho> t s wid \<and> (\<forall>t'. wants_mu (calls \<sigma> t') \<longrightarrow> calls \<rho> t' = calls \<sigma> t')"
  have "?P \<sigma>' \<and> wreach g \<sigma>'"
  proof (rule wsteps_inv [OF assms(4) _ assms(1)])
    show "?P \<sigma>" using assms(2,3) by (simp add: stuck_close_def)
    fix \<rho> \<rho>'
    assume r: "wreach g \<rho>" and P: "?P \<rho>" and st: "wstep g \<rho> \<rho>'"
    note inv = wreach_sys_inv [OF r]
    have act: "wact g \<rho> \<rho>'" using st by (simp add: wstep_def)
    have nd: "calls \<rho> t \<noteq> CDonec s' wid'" for s' wid' using P by (simp add: stuck_close_def)
    have "stuck_close \<rho>' t s wid" using P by (blast intro: stuck_close_step [OF act inv])
    moreover have "calls \<rho>' t' = calls \<rho> t'" if "wants_mu (calls \<rho> t')" for t'
      using P wact_other_calls [OF act stuck_close_mu [OF inv] that nd] by blast
    ultimately show "?P \<rho>'" using P by metis
  qed
  then have f: "stuck_close \<sigma>' t s wid" "wreach g \<sigma>'"
    "\<forall>t'. wants_mu (calls \<sigma> t') \<longrightarrow> calls \<sigma>' t' = calls \<sigma> t'" by blast+
  from stuck_close_mu [OF wreach_sys_inv [OF f(2)] f(1)] f(1,3) show ?thesis
    by (simp add: stuck_close_def)
qed

theorem close_stream_deadlock_witness:
  "\<exists>\<sigma>. wreach demo_errors \<sigma> \<and>
     (\<forall>\<sigma>'. wsteps demo_errors \<sigma> \<sigma>' \<longrightarrow> calls \<sigma>' 1 = CSend 0 ''w'' \<and> mu \<sigma>' = Some 1)"
proof -
  let ?\<sigma> = "demo_sys (Some 1) True (demo_up\<lparr>run := RExit\<rparr>) (WRet (Some 0)) (CSend 0 ''w'')"
  have "calls \<sigma>' 1 = CSend 0 ''w'' \<and> mu \<sigma>' = Some 1" if "wsteps demo_errors ?\<sigma> \<sigma>'" for \<sigma>'
    using close_stream_deadlock [OF demo_dead_close, of 1 0 "''w''"] that by simp
  with demo_dead_close show ?thesis by blast
qed

text \<open>
  When the first connection of a stream fails for good, the \<^verbatim>\<open>Watch\<close> call
  that waits for it does not return an error: unless somebody asks to close the stream it
  waits as long as the caller's own context lives, and \<^verbatim>\<open>run\<close> waits in its deferred
  function for a consumer.
\<close>

theorem watch_hangs_on_failed_connect:
  assumes "wreach g \<sigma>" and "calls \<sigma> t = WWait s wid c app" and "run (heap \<sigma> ! s) = RDeferSend e"
    and "\<not> told_to_close (heap \<sigma> ! s)" and "wsteps g \<sigma> \<sigma>'" and "\<not> over \<sigma>' c"
  shows "calls \<sigma>' t = WWait s wid c app \<and> (\<exists>e. run (heap \<sigma>' ! s) = RDeferSend e)"
proof -
  have over: "over \<rho>' c" if "wact g \<rho> \<rho>'" "over \<rho> c" for \<rho> \<rho>'
    using that
  proof (induction rule: wact.induct)
    case (close_done t s wid)
    then show ?case by (cases "close_donec (heap \<rho> ! s)") (auto simp: close_donec_at_def)
  next
    case (shut_done t s wid xs)
    then show ?case by (cases "close_donec (heap \<rho> ! s)") (auto simp: close_donec_at_def)
  next
    case (run_close s)
    then show ?case by (cases "close_donec (heap \<rho> ! s)") (auto simp: closeStream_def Let_def)
  qed (auto simp: Watch_locked_def CloseStream_locked_def Close_locked_def Let_def split: option.splits)
  let ?P = "\<lambda>\<rho>. over \<rho> c \<or> hung_watch \<rho> t s (WWait s wid c app)"
  have "?P \<sigma>' \<and> wreach g \<sigma>'"
  proof (rule wsteps_inv [OF assms(5) _ assms(1)])
    show "?P \<sigma>" using assms(2-4) by (simp add: hung_watch_def)
    show "?P \<rho>'" if "wreach g \<rho>" "?P \<rho>" "wstep g \<rho> \<rho>'" for \<rho> \<rho>'
      using that over hung_watch_step [OF _ wreach_sys_inv] unfolding wstep_def by blast
  qed
  with assms(6) show ?thesis by (auto simp: hung_watch_def)
qed

theorem watch_hangs_on_failed_connect_witness:
  "\<exists>\<sigma>. wreach demo_errors \<sigma> \<and> \<not> over \<sigma> 0 \<and>
     (\<forall>\<sigma>'. wsteps demo_errors \<sigma> \<sigma>' \<and> \<not> over \<sigma>' 0 \<longrightarrow> calls \<sigma>' 0 = WWait 0 ''w'' 0 demo_app)"
proof -
  let ?w = "demo_w\<lparr>run := RDeferSend demo_denied\<rparr>"
  let ?\<sigma> = "demo_sys None False ?w (WWait 0 ''w'' 0 demo_app) CIdle"
  have "\<not> told_to_close ?w" by (simp add: told_to_close_def requested_def demo_w_def newWatcherGrpcStream_def)
  then have "calls \<sigma>' 0 = WWait 0 ''w'' 0 demo_app" if "wsteps demo_errors ?\<sigma> \<sigma>'" "\<not> over \<sigma>' 0" for \<sigma>'
    using watch_hangs_on_failed_connect [OF demo_refused, of 0 0 "''w''" 0 demo_app demo_denied] that by simp
  with demo_refused show ?thesis by (intro exI [of _ ?\<sigma>]) simp
qed

end
