(* ===== verification/WatchStore.thy ===== *)
theory WatchStore
  imports WatchPB GoStrings
begin

text \<open>
  The server's store of watches, \<^verbatim>\<open>watchserver/watch_store.go\<close>, the buffered channel it
  writes to, and the sequential functions of \<^verbatim>\<open>watchserver/watch_stream.go\<close> and
  \<^verbatim>\<open>watchserver/watchserver.go\<close>.  The concurrent handler is the theory WatchServer.
\<close>

section \<open>Buffered channels\<close>

text \<open>
  A channel of responses with room for 16 of them.  The field \<open>put\<close> records everything that
  was ever sent.
\<close>

record chan =
  buf :: "WatchResponse list"
  chan_closed :: bool
  put :: "WatchResponse list"

definition chan_cap :: nat where "chan_cap = 16"

definition make_chan :: chan where
  "make_chan = \<lparr>buf = [], chan_closed = False, put = []\<rparr>"

definition chan_send :: "WatchResponse \<Rightarrow> chan \<Rightarrow> chan outcome" where
  "chan_send r c =
     (if chan_closed c then Panic SendOnClosed
      else if length (buf c) < chan_cap then Ret (c\<lparr>buf := buf c @ [r], put := put c @ [r]\<rparr>)
      else Blocked)"

text \<open>A receive from a closed and empty channel gives nil, from an open one it waits.\<close>

definition chan_recv :: "chan \<Rightarrow> (WatchResponse option \<times> chan) outcome" where
  "chan_recv c =
     (case buf c of
        r # rs \<Rightarrow> Ret (Some r, c\<lparr>buf := rs\<rparr>)
      | [] \<Rightarrow> (if chan_closed c then Ret (None, c) else Blocked))"

definition chan_close :: "chan \<Rightarrow> chan outcome" where
  "chan_close c = (if chan_closed c then Panic CloseOfClosed else Ret (c\<lparr>chan_closed := True\<rparr>))"

locale fifo_channel =
  fixes send :: "'x \<Rightarrow> 'c \<Rightarrow> 'c outcome"
    and receive :: "'c \<Rightarrow> ('x option \<times> 'c) outcome"
    and content :: "'c \<Rightarrow> 'x list"
    and capacity :: nat
  assumes send_content: "send x c = Ret c' \<Longrightarrow> content c' = content c @ [x]"
    and send_room: "send x c = Ret c' \<Longrightarrow> length (content c) < capacity"
    and recv_content: "receive c = Ret (Some x, c') \<Longrightarrow> content c = x # content c'"
    and recv_nil: "receive c = Ret (None, c') \<Longrightarrow> content c = [] \<and> c' = c"
begin

lemma send_bound: "send x c = Ret c' \<Longrightarrow> length (content c') \<le> capacity"
  using send_content send_room by fastforce

lemma recv_bound: "receive c = Ret (r, c') \<Longrightarrow> length (content c) \<le> capacity \<Longrightarrow> length (content c') \<le> capacity"
  by (cases r) (auto dest: recv_nil recv_content)

text \<open>Sending into an empty channel and receiving gives the value back.\<close>

lemma send_recv: "content c = [] \<Longrightarrow> send x c = Ret c' \<Longrightarrow> receive c' = Ret (Some y, c'') \<Longrightarrow> y = x"
  using send_content recv_content by fastforce

end

interpretation resp_chan: fifo_channel chan_send chan_recv buf chan_cap
  by unfold_locales (auto simp: chan_send_def chan_recv_def split: if_splits list.splits)

section \<open>Watches\<close>

text \<open>A watcher: what it watches and the handler whose channel it writes to.\<close>

record watcher =
  w_name :: string
  w_env :: string
  w_ch :: nat

definition newWatcher :: "App option \<Rightarrow> nat \<Rightarrow> watcher outcome" where
  "newWatcher app ch =
     (case app of
        None \<Rightarrow> Panic NilDeref
      | Some a \<Rightarrow> Ret \<lparr>w_name = app_name a, w_env = app_env a, w_ch = ch\<rparr>)"

definition mock_servers :: "AppServer list" where
  "mock_servers = [\<lparr>ip = ''127.0.0.1'', port = ''9090''\<rparr>]"

definition watcher_app :: "watcher \<Rightarrow> App" where
  "watcher_app w = \<lparr>app_name = w_name w, app_env = w_env w\<rparr>"

text \<open>The three messages the store sends: the mock update, the created and the canceled one.\<close>

definition update_msg :: "watcher \<Rightarrow> WatchResponse" where
  "update_msg w = empty_response\<lparr>event := UPDATE, resp_app := Some (watcher_app w),
     servers := mock_servers\<rparr>"

definition created_msg :: "watcher \<Rightarrow> WatchResponse" where
  "created_msg w = empty_response\<lparr>created := True, event := UPDATE,
     resp_app := Some (watcher_app w), servers := mock_servers\<rparr>"

definition canceled_msg :: "watcher \<Rightarrow> WatchResponse" where
  "canceled_msg w = empty_response\<lparr>canceled := True, cancel_reason := ''client stop'',
     event := UPDATE, resp_app := Some (watcher_app w), servers := mock_servers\<rparr>"

type_synonym watchers = "(string, watcher) gomap"

section \<open>Sequential parts of the handler\<close>

text \<open>The call \<^verbatim>\<open>GetAppServers\<close> answers with fixed data.\<close>

definition GetAppServers :: "App option \<Rightarrow> GetAppResponse + 'err" where
  "GetAppServers app =
     Inl \<lparr>ga_app = Some \<lparr>app_name = ''name'', app_env = ''qa''\<rparr>,
          ga_servers = [\<lparr>ip = ''127.0.0.1'', port = ''8080''\<rparr>]\<rparr>"

definition isClientCtxErr :: "'err grpc_errors \<Rightarrow> 'err option \<Rightarrow> 'err \<Rightarrow> bool" where
  "isClientCtxErr g ctxErr err =
     (if ctxErr \<noteq> None then True
      else
        (let (ev, ok) = FromError g err
         in if \<not> ok then False
            else (case fst ev of
                Canceled \<Rightarrow> True
              | DeadlineExceeded \<Rightarrow> True
              | Unavailable \<Rightarrow>
                  (let msg = snd ev
                   in if msg = ''client disconnected'' then True
                      else HasPrefix msg ''stream error: '' \<and> HasSuffix msg ''; CANCEL'')
              | _ \<Rightarrow> False)))"

text \<open>
  What \<^verbatim>\<open>recvLoop\<close> does with one request: it goes on, leaves its loop, or continues with a
  creation or a cancellation.  The cancel case reads \<^verbatim>\<open>uv.CancelRequest.WatchId\<close> for its log
  line before it tests the pointer.
\<close>

datatype recv_action = Ignore | Leave | DoCreate string watcher | DoCancel string

definition recv_request :: "nat \<Rightarrow> WatchRequest \<Rightarrow> recv_action outcome" where
  "recv_request ch req =
     (case req of
        Some (CreateRequest cr) \<Rightarrow>
          (case cr of
             None \<Rightarrow> Ret Leave
           | Some r \<Rightarrow>
               obind (newWatcher (create_app r) ch)
                 (\<lambda>w. Ret (DoCreate (create_watch_id r) w)))
      | Some (CancelRequest cr) \<Rightarrow>
          (case cr of None \<Rightarrow> Panic NilDeref | Some r \<Rightarrow> Ret (DoCancel (cancel_watch_id r)))
      | None \<Rightarrow> Ret Ignore)"

section \<open>Facts on the sequential parts\<close>

lemma chan_send_Ret:
  "chan_send r c = Ret c' \<longleftrightarrow> \<not> chan_closed c \<and> length (buf c) < chan_cap \<and>
     c' = c\<lparr>buf := buf c @ [r], put := put c @ [r]\<rparr>"
  by (auto simp: chan_send_def)

lemma chan_recv_Ret:
  "chan_recv c = Ret (x, c') \<longleftrightarrow>
     (\<exists>r rs. buf c = r # rs \<and> x = Some r \<and> c' = c\<lparr>buf := rs\<rparr>) \<or>
     (buf c = [] \<and> chan_closed c \<and> x = None \<and> c' = c)"
  by (auto simp: chan_recv_def split: list.splits)

lemma msg_created [simp]: "created (created_msg w)" "\<not> created (update_msg w)" "\<not> created (canceled_msg w)"
  by (simp_all add: created_msg_def update_msg_def canceled_msg_def empty_response_def)

lemma msg_app [simp]:
  "resp_app (created_msg w) = Some (watcher_app w)" "resp_app (update_msg w) = Some (watcher_app w)"
  "resp_app (canceled_msg w) = Some (watcher_app w)"
  by (simp_all add: created_msg_def update_msg_def canceled_msg_def)

lemma recv_request_ch: "recv_request ch req = Ret (DoCreate wid w) \<Longrightarrow> w_ch w = ch"
  by (auto simp: recv_request_def newWatcher_def split: option.splits request_union.splits)

section \<open>Properties\<close>

text \<open>
  What the server classifies as caused by the client: under a live context,
  exactly the status errors with code Canceled or DeadlineExceeded, and those with code
  Unavailable whose message is the disconnect message or is a stream error that ends in
  CANCEL; with gRPC's documented reading of errors, no error that is not a status is one.
\<close>

theorem client_ctx_err_iff:
  assumes "FromError_ok g"
  shows "isClientCtxErr g None err \<longleftrightarrow>
    errCode g err \<in> {Canceled, DeadlineExceeded} \<or>
    (errCode g err = Unavailable \<and>
      (snd (fst (FromError g err)) = ''client disconnected'' \<or>
       (\<exists>a. snd (fst (FromError g err)) = ''stream error: '' @ a) \<and>
       (\<exists>b. snd (fst (FromError g err)) = b @ ''; CANCEL'')))"
proof -
  obtain c msg ok where f: "FromError g err = ((c, msg), ok)" by (metis prod.collapse)
  have "c = Unknown" if "\<not> ok" using assms that f unfolding FromError_ok_def by (metis fst_conv snd_conv)
  then show ?thesis
    by (cases c) (auto simp: isClientCtxErr_def f Let_def HasPrefix_iff HasSuffix_iff)
qed

theorem client_ctx_err_iff_witness:
  "isClientCtxErr demo_errors None (StatusErr Unavailable ''stream error: stream ID 21; CANCEL'')"
proof -
  have "snd (fst (FromError demo_errors (StatusErr Unavailable ''stream error: stream ID 21; CANCEL''))) =
      ''stream error: '' @ ''stream ID 21; CANCEL''"
    "snd (fst (FromError demo_errors (StatusErr Unavailable ''stream error: stream ID 21; CANCEL''))) =
      ''stream error: stream ID 21'' @ ''; CANCEL''"
    "errCode demo_errors (StatusErr Unavailable ''stream error: stream ID 21; CANCEL'') = Unavailable"
    by (simp_all add: demo_errors_def)
  with client_ctx_err_iff [OF demo_errors_ok] show ?thesis by blast
qed

text \<open>
  One request makes the server panic exactly when it creates a watch without an
  app or cancels without a message; any other request is ignored, ends the receive loop, or
  continues with a creation for the request's app on the handler's own channel or with a
  cancellation.
\<close>

theorem recv_request_outcome:
  "(\<exists>p. recv_request ch req = Panic p) =
     (req = Some (CancelRequest None) \<or> (\<exists>wid. req = Some (CreateRequest (Some \<lparr>create_watch_id = wid, create_app = None\<rparr>)))) \<and>
   recv_request ch req \<noteq> Blocked \<and>
   recv_request ch (Some (CreateRequest (Some \<lparr>create_watch_id = wid, create_app = Some a\<rparr>))) =
     Ret (DoCreate wid \<lparr>w_name = app_name a, w_env = app_env a, w_ch = ch\<rparr>) \<and>
   recv_request ch (Some (CancelRequest (Some \<lparr>cancel_watch_id = wid\<rparr>))) = Ret (DoCancel wid)"
proof -
  have "(\<exists>p. recv_request ch req = Panic p) =
     (req = Some (CancelRequest None) \<or> (\<exists>wid. req = Some (CreateRequest (Some \<lparr>create_watch_id = wid, create_app = None\<rparr>))))"
    by (auto simp: recv_request_def newWatcher_def split: option.splits request_union.splits)
      (metis WatchCreateRequest.surjective old.unit.exhaust)
  moreover have "recv_request ch req \<noteq> Blocked"
    by (auto simp: recv_request_def newWatcher_def split: option.splits request_union.splits)
  ultimately show ?thesis by (simp add: recv_request_def newWatcher_def)
qed

end
