(* ===== verification/WatchServer.thy ===== *)
theory WatchServer
  imports WatchStore
begin

text \<open>
  The server at work: any number of concurrent \<^verbatim>\<open>Watch\<close> handlers
  (\<^verbatim>\<open>watchserver/watchserver.go\<close>), each with its goroutines \<^verbatim>\<open>sendLoop\<close> and \<^verbatim>\<open>recvLoop\<close>
  (\<^verbatim>\<open>watchserver/watch_stream.go\<close>), and the goroutine \<^verbatim>\<open>mockWatch\<close>, over the shared store
  (\<^verbatim>\<open>watchserver/watch_store.go\<close>).
\<close>

section \<open>State\<close>

text \<open>\<^verbatim>\<open>sendLoop\<close>: at its select, inside \<open>Send\<close> of a response (nil from a closed channel), gone.\<close>

datatype send_pc = PLoop | PSend "WatchResponse option" | PDone

text \<open>
  \<^verbatim>\<open>recvLoop\<close>: in \<open>Recv\<close>, in \<^verbatim>\<open>createWatch\<close> before its send and before its lock, in
  \<^verbatim>\<open>cancelWatch\<close> before the lock and with the lock at its send, gone.
\<close>

datatype recv_pc =
    VRecv | VCreate string watcher | VStore string watcher
  | VCancel string | VNotify string watcher | VDone

text \<open>
  The handler itself: at its select, in \<^verbatim>\<open>cancelWatch\<close> before the lock and with the lock at its
  send, at \<^verbatim>\<open>close(sws.closec)\<close>, waiting for \<^verbatim>\<open>sendLoop\<close>, returned with an error.
\<close>

datatype 'err main_pc =
    MWait | MCancel string 'err | MNotify string watcher 'err | MClose 'err | MJoin 'err | MDone 'err

text \<open>
  The last three fields record history: the responses gRPC was given, the requests \<^verbatim>\<open>Recv\<close> has
  returned, and the error it has returned.
\<close>

record 'err sws =
  s_watchID :: string
  watchStream :: chan
  closec :: bool
  s_errc :: "'err option"
  s_over :: bool
  sendpc :: send_pc
  recvpc :: recv_pc
  mainpc :: "'err main_pc"
  out :: "WatchResponse list"
  s_got :: "WatchRequest list"
  s_failed :: "'err option"

definition new_sws :: "'err sws" where
  "new_sws = \<lparr>s_watchID = '''', watchStream = make_chan, closec = False, s_errc = None,
     s_over = False, sendpc = PLoop, recvpc = VRecv, mainpc = MWait, out = [],
     s_got = [], s_failed = None\<rparr>"

text \<open>\<^verbatim>\<open>mockWatch\<close>: waiting for its ticker, or in its range with the watchers still to visit.\<close>

datatype mock_pc = Ticking | Visiting "watcher list"

text \<open>Who holds the store's mutex: a receive loop, a handler, or \<^verbatim>\<open>mockWatch\<close> for reading.\<close>

datatype holder = ByRecv nat | ByMain nat | ByMock

record 'err srv =
  watchers :: watchers
  smu :: "holder option"
  handlers :: "'err sws list"
  mock :: mock_pc
  s_crashed :: "panic option"

definition newWatcherStore :: "'err srv" where
  "newWatcherStore = \<lparr>watchers = [], smu = None, handlers = [], mock = Ticking, s_crashed = None\<rparr>"

section \<open>Operations\<close>

definition upd :: "nat \<Rightarrow> ('err sws \<Rightarrow> 'err sws) \<Rightarrow> 'err srv \<Rightarrow> 'err srv" where
  "upd h f \<sigma> = \<sigma>\<lparr>handlers := (handlers \<sigma>)[h := f (handlers \<sigma> ! h)]\<rparr>"

text \<open>A send on the channel of handler \<open>ch\<close>, as it happens inside the store's operations.\<close>

definition send_to :: "nat \<Rightarrow> WatchResponse \<Rightarrow> 'err srv \<Rightarrow> 'err srv outcome" where
  "send_to ch r \<sigma> =
     obind (chan_send r (watchStream (handlers \<sigma> ! ch)))
       (\<lambda>c. Ret (upd ch (\<lambda>s. s\<lparr>watchStream := c\<rparr>) \<sigma>))"

definition store_watch :: "string \<Rightarrow> watcher \<Rightarrow> 'err srv \<Rightarrow> 'err srv" where
  "store_watch wid w \<sigma> = \<sigma>\<lparr>watchers := mput wid w (watchers \<sigma>)\<rparr>"

text \<open>The end of \<^verbatim>\<open>cancelWatch\<close>: delete and unlock.\<close>

definition drop_watch :: "string \<Rightarrow> 'err srv \<Rightarrow> 'err srv" where
  "drop_watch wid \<sigma> = \<sigma>\<lparr>watchers := mdel wid (watchers \<sigma>), smu := None\<rparr>"

text \<open>
  An outcome as a set of next states: a panic ends the program, a blocked operation has no
  next state.
\<close>

inductive becomes :: "'err srv \<Rightarrow> 'err srv outcome \<Rightarrow> 'err srv \<Rightarrow> bool" for \<sigma> where
  ret: "becomes \<sigma> (Ret \<sigma>') \<sigma>'"
| panic: "becomes \<sigma> (Panic p) (\<sigma>\<lparr>s_crashed := Some p\<rparr>)"

inductive_simps becomes_simps [simp]:
  "becomes \<sigma> (Ret \<sigma>') \<sigma>''" "becomes \<sigma> (Panic p) \<sigma>''" "becomes \<sigma> Blocked \<sigma>''"

section \<open>Steps\<close>

definition recv_next :: "nat \<Rightarrow> recv_action \<Rightarrow> 'err srv \<Rightarrow> 'err srv" where
  "recv_next h a =
     upd h (\<lambda>s. s\<lparr>recvpc := (case a of
       Ignore \<Rightarrow> VRecv | Leave \<Rightarrow> VDone | DoCreate wid w \<Rightarrow> VCreate wid w | DoCancel wid \<Rightarrow> VCancel wid)\<rparr>)"

definition took :: "nat \<Rightarrow> WatchRequest \<Rightarrow> 'err srv \<Rightarrow> 'err srv" where
  "took h req = upd h (\<lambda>s. s\<lparr>s_got := s_got s @ [req]\<rparr>)"

inductive hact :: "nat \<Rightarrow> 'err srv \<Rightarrow> 'err srv \<Rightarrow> bool" for h \<sigma> where
  ctx_over: "hact h \<sigma> (upd h (\<lambda>s. s\<lparr>s_over := True\<rparr>) \<sigma>)"
  \<comment> \<open>\<^verbatim>\<open>sendLoop\<close>\<close>
| send_take: "sendpc (handlers \<sigma> ! h) = PLoop \<Longrightarrow>
    chan_recv (watchStream (handlers \<sigma> ! h)) = Ret (x, c) \<Longrightarrow>
    hact h \<sigma> (upd h (\<lambda>s. s\<lparr>watchStream := c, sendpc := PSend x\<rparr>) \<sigma>)"
| send_ok: "sendpc (handlers \<sigma> ! h) = PSend x \<Longrightarrow>
    hact h \<sigma> (upd h (\<lambda>s. s\<lparr>out := out s @ (case x of Some r \<Rightarrow> [r] | None \<Rightarrow> []), sendpc := PLoop\<rparr>) \<sigma>)"
| send_fail: "sendpc (handlers \<sigma> ! h) = PSend x \<Longrightarrow>
    hact h \<sigma> (upd h (\<lambda>s. s\<lparr>sendpc := PDone\<rparr>) \<sigma>)"
| send_closec: "sendpc (handlers \<sigma> ! h) = PLoop \<Longrightarrow> closec (handlers \<sigma> ! h) \<Longrightarrow>
    hact h \<sigma> (upd h (\<lambda>s. s\<lparr>sendpc := PDone\<rparr>) \<sigma>)"
  \<comment> \<open>\<^verbatim>\<open>recvLoop\<close>\<close>
| recv_eof: "recvpc (handlers \<sigma> ! h) = VRecv \<Longrightarrow> hact h \<sigma> (upd h (\<lambda>s. s\<lparr>recvpc := VDone\<rparr>) \<sigma>)"
| recv_err: "recvpc (handlers \<sigma> ! h) = VRecv \<Longrightarrow>
    hact h \<sigma> (upd h (\<lambda>s. s\<lparr>recvpc := VDone, s_errc := Some e, s_failed := Some e\<rparr>) \<sigma>)"
| recv_req: "recvpc (handlers \<sigma> ! h) = VRecv \<Longrightarrow>
    becomes (took h req \<sigma>) (obind (recv_request h req) (\<lambda>a. Ret (recv_next h a (took h req \<sigma>)))) \<sigma>' \<Longrightarrow>
    hact h \<sigma> \<sigma>'"
| create_send: "recvpc (handlers \<sigma> ! h) = VCreate wid w \<Longrightarrow>
    becomes \<sigma> (obind (send_to (w_ch w) (created_msg w) \<sigma>)
      (\<lambda>\<rho>. Ret (upd h (\<lambda>s. s\<lparr>recvpc := VStore wid w\<rparr>) \<rho>))) \<sigma>' \<Longrightarrow> hact h \<sigma> \<sigma>'"
| create_store: "recvpc (handlers \<sigma> ! h) = VStore wid w \<Longrightarrow> smu \<sigma> = None \<Longrightarrow>
    hact h \<sigma> (upd h (\<lambda>s. s\<lparr>s_watchID := wid, recvpc := VRecv\<rparr>) (store_watch wid w \<sigma>))"
| cancel_hit: "recvpc (handlers \<sigma> ! h) = VCancel wid \<Longrightarrow> smu \<sigma> = None \<Longrightarrow>
    mget (watchers \<sigma>) wid = Some w \<Longrightarrow>
    hact h \<sigma> (upd h (\<lambda>s. s\<lparr>recvpc := VNotify wid w\<rparr>) (\<sigma>\<lparr>smu := Some (ByRecv h)\<rparr>))"
| cancel_miss: "recvpc (handlers \<sigma> ! h) = VCancel wid \<Longrightarrow> smu \<sigma> = None \<Longrightarrow>
    mget (watchers \<sigma>) wid = None \<Longrightarrow>
    hact h \<sigma> (upd h (\<lambda>s. s\<lparr>recvpc := VDone\<rparr>) (drop_watch wid \<sigma>))"
| cancel_notify: "recvpc (handlers \<sigma> ! h) = VNotify wid w \<Longrightarrow>
    becomes \<sigma> (obind (send_to (w_ch w) (canceled_msg w) \<sigma>)
      (\<lambda>\<rho>. Ret (upd h (\<lambda>s. s\<lparr>recvpc := VDone\<rparr>) (drop_watch wid \<rho>)))) \<sigma>' \<Longrightarrow> hact h \<sigma> \<sigma>'"
  \<comment> \<open>the handler \<^verbatim>\<open>Watch\<close>\<close>
| main_err: "mainpc (handlers \<sigma> ! h) = MWait \<Longrightarrow> s_errc (handlers \<sigma> ! h) = Some e \<Longrightarrow>
    becomes \<sigma> (obind (chan_close (watchStream (handlers \<sigma> ! h)))
      (\<lambda>c. Ret (upd h (\<lambda>s. s\<lparr>watchStream := c, s_errc := None, mainpc := MCancel (s_watchID s) e\<rparr>) \<sigma>))) \<sigma>' \<Longrightarrow>
    hact h \<sigma> \<sigma>'"
| main_ctx: "mainpc (handlers \<sigma> ! h) = MWait \<Longrightarrow> s_over (handlers \<sigma> ! h) \<Longrightarrow>
    hact h \<sigma> (upd h (\<lambda>s. s\<lparr>mainpc := MCancel (s_watchID s) e\<rparr>) \<sigma>)"
| main_hit: "mainpc (handlers \<sigma> ! h) = MCancel wid e \<Longrightarrow> smu \<sigma> = None \<Longrightarrow>
    mget (watchers \<sigma>) wid = Some w \<Longrightarrow>
    hact h \<sigma> (upd h (\<lambda>s. s\<lparr>mainpc := MNotify wid w e\<rparr>) (\<sigma>\<lparr>smu := Some (ByMain h)\<rparr>))"
| main_miss: "mainpc (handlers \<sigma> ! h) = MCancel wid e \<Longrightarrow> smu \<sigma> = None \<Longrightarrow>
    mget (watchers \<sigma>) wid = None \<Longrightarrow>
    hact h \<sigma> (upd h (\<lambda>s. s\<lparr>mainpc := MClose e\<rparr>) (drop_watch wid \<sigma>))"
| main_notify: "mainpc (handlers \<sigma> ! h) = MNotify wid w e \<Longrightarrow>
    becomes \<sigma> (obind (send_to (w_ch w) (canceled_msg w) \<sigma>)
      (\<lambda>\<rho>. Ret (upd h (\<lambda>s. s\<lparr>mainpc := MClose e\<rparr>) (drop_watch wid \<rho>)))) \<sigma>' \<Longrightarrow> hact h \<sigma> \<sigma>'"
| main_close: "mainpc (handlers \<sigma> ! h) = MClose e \<Longrightarrow>
    hact h \<sigma> (upd h (\<lambda>s. s\<lparr>closec := True, mainpc := MJoin e\<rparr>) \<sigma>)"
| main_join: "mainpc (handlers \<sigma> ! h) = MJoin e \<Longrightarrow> sendpc (handlers \<sigma> ! h) = PDone \<Longrightarrow>
    hact h \<sigma> (upd h (\<lambda>s. s\<lparr>mainpc := MDone e\<rparr>) \<sigma>)"

inductive sact :: "'err srv \<Rightarrow> 'err srv \<Rightarrow> bool" for \<sigma> where
  accept: "sact \<sigma> (\<sigma>\<lparr>handlers := handlers \<sigma> @ [new_sws]\<rparr>)"
| handler: "h < length (handlers \<sigma>) \<Longrightarrow> hact h \<sigma> \<sigma>' \<Longrightarrow> sact \<sigma> \<sigma>'"
  \<comment> \<open>\<^verbatim>\<open>mockWatch\<close>\<close>
| tick: "mock \<sigma> = Ticking \<Longrightarrow> smu \<sigma> = None \<Longrightarrow> mset ws = vals (watchers \<sigma>) \<Longrightarrow>
    sact \<sigma> (\<sigma>\<lparr>smu := Some ByMock, mock := Visiting ws\<rparr>)"
| visit: "mock \<sigma> = Visiting (w # ws) \<Longrightarrow>
    becomes \<sigma> (obind (send_to (w_ch w) (update_msg w) \<sigma>) (\<lambda>\<rho>. Ret (\<rho>\<lparr>mock := Visiting ws\<rparr>))) \<sigma>' \<Longrightarrow>
    sact \<sigma> \<sigma>'"
| visited: "mock \<sigma> = Visiting [] \<Longrightarrow> sact \<sigma> (\<sigma>\<lparr>smu := None, mock := Ticking\<rparr>)"

definition srv_step :: "'err srv \<Rightarrow> 'err srv \<Rightarrow> bool" where
  "srv_step \<sigma> \<sigma>' \<longleftrightarrow> s_crashed \<sigma> = None \<and> sact \<sigma> \<sigma>'"

inductive srv_reach :: "'err srv \<Rightarrow> bool" where
  init: "srv_reach newWatcherStore"
| step: "srv_reach \<sigma> \<Longrightarrow> srv_step \<sigma> \<sigma>' \<Longrightarrow> srv_reach \<sigma>'"

section \<open>The invariant\<close>

text \<open>
  One handler: its messages leave in the order they were put, the first of them is the
  creation notice, an error in \<open>errc\<close> means that \<^verbatim>\<open>recvLoop\<close> is gone, and its channel is
  closed only after the handler left its select because \<^verbatim>\<open>Recv\<close> had failed.
\<close>

fun in_flight :: "send_pc \<Rightarrow> WatchResponse list \<Rightarrow> bool" where
  "in_flight PLoop xs = (xs = [])"
| "in_flight (PSend x) xs = (xs = (case x of Some r \<Rightarrow> [r] | None \<Rightarrow> []))"
| "in_flight PDone xs = (length xs \<le> 1)"

definition sws_ok :: "'err sws \<Rightarrow> bool" where
  "sws_ok s \<longleftrightarrow>
     (\<exists>xs. put (watchStream s) = out s @ xs @ buf (watchStream s) \<and> in_flight (sendpc s) xs) \<and>
     length (buf (watchStream s)) \<le> chan_cap \<and>
     (put (watchStream s) \<noteq> [] \<longrightarrow> created (hd (put (watchStream s)))) \<and>
     (s_errc s \<noteq> None \<longrightarrow> recvpc s = VDone) \<and>
     (s_errc s \<noteq> None \<longrightarrow> s_failed s \<noteq> None) \<and>
     (chan_closed (watchStream s) \<longrightarrow> mainpc s \<noteq> MWait \<and> s_failed s \<noteq> None)"

definition started :: "'err srv \<Rightarrow> watcher \<Rightarrow> bool" where
  "started \<sigma> w \<longleftrightarrow> w_ch w < length (handlers \<sigma>) \<and> put (watchStream (handlers \<sigma> ! w_ch w)) \<noteq> []"

fun recv_ok :: "'err srv \<Rightarrow> nat \<Rightarrow> recv_pc \<Rightarrow> bool" where
  "recv_ok \<sigma> h (VCreate wid w) = (w_ch w = h \<and> smu \<sigma> \<noteq> Some (ByRecv h))"
| "recv_ok \<sigma> h (VStore wid w) = (w_ch w = h \<and> started \<sigma> w \<and> smu \<sigma> \<noteq> Some (ByRecv h))"
| "recv_ok \<sigma> h (VNotify wid w) = (mget (watchers \<sigma>) wid = Some w \<and> smu \<sigma> = Some (ByRecv h))"
| "recv_ok \<sigma> h _ = (smu \<sigma> \<noteq> Some (ByRecv h))"

fun main_ok :: "'err srv \<Rightarrow> nat \<Rightarrow> 'err main_pc \<Rightarrow> bool" where
  "main_ok \<sigma> h (MNotify wid w e) = (mget (watchers \<sigma>) wid = Some w \<and> smu \<sigma> = Some (ByMain h))"
| "main_ok \<sigma> h _ = (smu \<sigma> \<noteq> Some (ByMain h))"

fun mock_ok :: "'err srv \<Rightarrow> mock_pc \<Rightarrow> bool" where
  "mock_ok \<sigma> (Visiting ws) = (smu \<sigma> = Some ByMock \<and> (\<forall>w \<in> set ws. started \<sigma> w))"
| "mock_ok \<sigma> Ticking = (smu \<sigma> \<noteq> Some ByMock)"

definition store_ok :: "'err srv \<Rightarrow> bool" where
  "store_ok \<sigma> \<longleftrightarrow> gomap_ok (watchers \<sigma>) \<and> (\<forall>(wid, w) \<in> set (watchers \<sigma>). started \<sigma> w)"

definition handlers_ok :: "'err srv \<Rightarrow> bool" where
  "handlers_ok \<sigma> \<longleftrightarrow> (\<forall>h < length (handlers \<sigma>). sws_ok (handlers \<sigma> ! h) \<and>
     recv_ok \<sigma> h (recvpc (handlers \<sigma> ! h)) \<and> main_ok \<sigma> h (mainpc (handlers \<sigma> ! h)))"

definition srv_inv :: "'err srv \<Rightarrow> bool" where
  "srv_inv \<sigma> \<longleftrightarrow> handlers_ok \<sigma> \<and> store_ok \<sigma> \<and> mock_ok \<sigma> (mock \<sigma>) \<and>
     (\<forall>h. smu \<sigma> = Some (ByRecv h) \<or> smu \<sigma> = Some (ByMain h) \<longrightarrow> h < length (handlers \<sigma>))"

lemma upd_simps [simp]:
  "handlers (upd h f \<sigma>) = (handlers \<sigma>)[h := f (handlers \<sigma> ! h)]" "watchers (upd h f \<sigma>) = watchers \<sigma>"
  "smu (upd h f \<sigma>) = smu \<sigma>" "mock (upd h f \<sigma>) = mock \<sigma>" "s_crashed (upd h f \<sigma>) = s_crashed \<sigma>"
  "handlers (store_watch wid w \<sigma>) = handlers \<sigma>" "watchers (store_watch wid w \<sigma>) = mput wid w (watchers \<sigma>)"
  "smu (store_watch wid w \<sigma>) = smu \<sigma>" "mock (store_watch wid w \<sigma>) = mock \<sigma>"
  "s_crashed (store_watch wid w \<sigma>) = s_crashed \<sigma>"
  "handlers (drop_watch wid \<sigma>) = handlers \<sigma>" "watchers (drop_watch wid \<sigma>) = mdel wid (watchers \<sigma>)"
  "smu (drop_watch wid \<sigma>) = None" "mock (drop_watch wid \<sigma>) = mock \<sigma>"
  "s_crashed (drop_watch wid \<sigma>) = s_crashed \<sigma>"
  by (simp_all add: upd_def store_watch_def drop_watch_def)

lemma took_simps [simp]:
  "handlers (took h req \<sigma>) = (handlers \<sigma>)[h := (handlers \<sigma> ! h)\<lparr>s_got := s_got (handlers \<sigma> ! h) @ [req]\<rparr>]"
  "watchers (took h req \<sigma>) = watchers \<sigma>" "smu (took h req \<sigma>) = smu \<sigma>" "mock (took h req \<sigma>) = mock \<sigma>"
  "s_crashed (took h req \<sigma>) = s_crashed \<sigma>"
  by (simp_all add: took_def)

lemma recv_next_took:
  "recv_next h a (took h req \<sigma>) = upd h (\<lambda>s. s\<lparr>s_got := s_got s @ [req], recvpc := (case a of
     Ignore \<Rightarrow> VRecv | Leave \<Rightarrow> VDone | DoCreate wid w \<Rightarrow> VCreate wid w | DoCancel wid \<Rightarrow> VCancel wid)\<rparr>) \<sigma>"
  by (cases "h < length (handlers \<sigma>)") (simp_all add: recv_next_def took_def upd_def list_update_beyond)

lemma srv_invD:
  assumes "srv_inv \<sigma>" and "h < length (handlers \<sigma>)"
  shows "sws_ok (handlers \<sigma> ! h)" and "recv_ok \<sigma> h (recvpc (handlers \<sigma> ! h))"
    and "main_ok \<sigma> h (mainpc (handlers \<sigma> ! h))"
  using assms by (simp_all add: srv_inv_def handlers_ok_def)

text \<open>
  A step of handler \<open>h\<close>: the other handlers, the store and \<^verbatim>\<open>mockWatch\<close> keep their part when
  nothing they rely on changes.
\<close>

lemma recv_ok_mono:
  assumes "recv_ok \<sigma> h pc" and "\<And>w. started \<sigma> w \<Longrightarrow> started \<sigma>' w"
    and "smu \<sigma>' = Some (ByRecv h) \<longleftrightarrow> smu \<sigma> = Some (ByRecv h)"
    and "smu \<sigma> = Some (ByRecv h) \<Longrightarrow> watchers \<sigma>' = watchers \<sigma>"
  shows "recv_ok \<sigma>' h pc"
  using assms by (cases pc) auto

lemma main_ok_mono:
  assumes "main_ok \<sigma> h pc" and "smu \<sigma>' = Some (ByMain h) \<longleftrightarrow> smu \<sigma> = Some (ByMain h)"
    and "smu \<sigma> = Some (ByMain h) \<Longrightarrow> watchers \<sigma>' = watchers \<sigma>"
  shows "main_ok \<sigma>' h pc"
  using assms by (cases pc) auto

lemma srv_inv_handler:
  assumes inv: "srv_inv \<sigma>" and h: "h < length (handlers \<sigma>)" and hs: "handlers \<sigma>' = (handlers \<sigma>)[h := s]"
    and s: "sws_ok s" "recv_ok \<sigma>' h (recvpc s)" "main_ok \<sigma>' h (mainpc s)"
    and put: "put (watchStream (handlers \<sigma> ! h)) \<noteq> [] \<Longrightarrow> put (watchStream s) \<noteq> []"
    and store: "gomap_ok (watchers \<sigma>')"
      "\<And>wid w. (wid, w) \<in> set (watchers \<sigma>') \<Longrightarrow> (wid, w) \<in> set (watchers \<sigma>) \<or> started \<sigma> w"
    and m: "mock \<sigma>' = mock \<sigma>" "smu \<sigma>' = Some ByMock \<longleftrightarrow> smu \<sigma> = Some ByMock"
    and others: "\<And>h'. h' \<noteq> h \<Longrightarrow> smu \<sigma>' = Some (ByRecv h') \<longleftrightarrow> smu \<sigma> = Some (ByRecv h')"
      "\<And>h'. h' \<noteq> h \<Longrightarrow> smu \<sigma>' = Some (ByMain h') \<longleftrightarrow> smu \<sigma> = Some (ByMain h')"
      "\<And>h'. h' \<noteq> h \<Longrightarrow> smu \<sigma> = Some (ByRecv h') \<or> smu \<sigma> = Some (ByMain h') \<Longrightarrow> watchers \<sigma>' = watchers \<sigma>"
  shows "srv_inv \<sigma>'"
proof -
  have st: "started \<sigma>' w" if "started \<sigma> w" for w
    using that put h by (cases "w_ch w = h") (auto simp: started_def hs)
  have "sws_ok (handlers \<sigma>' ! h') \<and> recv_ok \<sigma>' h' (recvpc (handlers \<sigma>' ! h')) \<and>
      main_ok \<sigma>' h' (mainpc (handlers \<sigma>' ! h'))" if "h' < length (handlers \<sigma>')" for h'
  proof (cases "h' = h")
    case False
    with that hs have h': "h' < length (handlers \<sigma>)" "handlers \<sigma>' ! h' = handlers \<sigma> ! h'" by auto
    have "recv_ok \<sigma>' h' (recvpc (handlers \<sigma> ! h'))"
      by (rule recv_ok_mono [OF srv_invD(2) [OF inv h'(1)]]) (use st others False in auto)
    moreover have "main_ok \<sigma>' h' (mainpc (handlers \<sigma> ! h'))"
      by (rule main_ok_mono [OF srv_invD(3) [OF inv h'(1)]]) (use others False in auto)
    ultimately show ?thesis using srv_invD(1) [OF inv h'(1)] h'(2) by simp
  qed (use s h hs in simp)
  then have "handlers_ok \<sigma>'" by (simp add: handlers_ok_def)
  moreover have "store_ok \<sigma>'"
    using inv store st by (fastforce simp: srv_inv_def store_ok_def)
  moreover have "mock_ok \<sigma>' (mock \<sigma>')"
    using inv m st by (cases "mock \<sigma>") (auto simp: srv_inv_def)
  moreover have "h' < length (handlers \<sigma>')" if "smu \<sigma>' = Some (ByRecv h') \<or> smu \<sigma>' = Some (ByMain h')" for h'
    using that h others(1,2) [of h'] inv by (cases "h' = h") (auto simp: hs srv_inv_def)
  ultimately show ?thesis by (simp add: srv_inv_def)
qed

text \<open>A message is put into the channel of a handler.\<close>

definition pushed :: "WatchResponse \<Rightarrow> 'err sws \<Rightarrow> 'err sws" where
  "pushed r s = s\<lparr>watchStream := (watchStream s)\<lparr>buf := buf (watchStream s) @ [r],
     put := put (watchStream s) @ [r]\<rparr>\<rparr>"

lemma pushed_simps [simp]:
  "sendpc (pushed r s) = sendpc s" "recvpc (pushed r s) = recvpc s" "mainpc (pushed r s) = mainpc s"
  "out (pushed r s) = out s" "s_errc (pushed r s) = s_errc s" "s_over (pushed r s) = s_over s"
  "s_watchID (pushed r s) = s_watchID s" "closec (pushed r s) = closec s"
  "s_got (pushed r s) = s_got s" "s_failed (pushed r s) = s_failed s"
  "put (watchStream (pushed r s)) = put (watchStream s) @ [r]"
  "buf (watchStream (pushed r s)) = buf (watchStream s) @ [r]"
  "chan_closed (watchStream (pushed r s)) = chan_closed (watchStream s)"
  by (simp_all add: pushed_def)

lemma send_to_Ret:
  "send_to ch r \<sigma> = Ret \<rho> \<longleftrightarrow>
     \<not> chan_closed (watchStream (handlers \<sigma> ! ch)) \<and> length (buf (watchStream (handlers \<sigma> ! ch))) < chan_cap \<and>
     \<rho> = upd ch (pushed r) \<sigma>"
  by (auto simp: send_to_def chan_send_Ret upd_def pushed_def)

lemma send_to_inv:
  assumes inv: "srv_inv \<sigma>" and ch: "ch < length (handlers \<sigma>)" and snd: "send_to ch r \<sigma> = Ret \<rho>"
    and r: "created r \<or> put (watchStream (handlers \<sigma> ! ch)) \<noteq> []"
  shows "srv_inv \<rho>"
proof -
  let ?s = "handlers \<sigma> ! ch"
  note ok = srv_invD [OF inv ch]
  have \<rho>: "\<rho> = upd ch (pushed r) \<sigma>" using snd by (simp add: send_to_Ret)
  have "store_ok \<sigma>" using inv by (simp add: srv_inv_def)
  moreover have "sws_ok (pushed r ?s)"
    using ok(1) r snd by (auto simp: sws_ok_def send_to_Ret hd_append)
  moreover have "recv_ok \<rho> ch (recvpc ?s)" "main_ok \<rho> ch (mainpc ?s)"
    using ch by (auto intro!: recv_ok_mono [OF ok(2)] main_ok_mono [OF ok(3)]
      simp: \<rho> started_def nth_list_update)
  ultimately show ?thesis
    using ch by (intro srv_inv_handler [OF inv ch, where s = "pushed r ?s"]) (auto simp: \<rho> store_ok_def)
qed

section \<open>The invariant is kept\<close>

lemma srv_inv_upd:
  assumes inv: "srv_inv \<sigma>" and h: "h < length (handlers \<sigma>)" and "sws_ok (f (handlers \<sigma> ! h))"
    and "recv_ok \<sigma> h (recvpc (f (handlers \<sigma> ! h)))" and "main_ok \<sigma> h (mainpc (f (handlers \<sigma> ! h)))"
    and p: "put (watchStream (f (handlers \<sigma> ! h))) = put (watchStream (handlers \<sigma> ! h))"
  shows "srv_inv (upd h f \<sigma>)"
proof -
  have st: "started (upd h f \<sigma>) w" if "started \<sigma> w" for w
    using that p h by (cases "w_ch w = h") (auto simp: started_def)
  have "recv_ok (upd h f \<sigma>) h (recvpc (f (handlers \<sigma> ! h)))"
    by (rule recv_ok_mono [OF assms(4)]) (simp_all add: st)
  moreover have "main_ok (upd h f \<sigma>) h (mainpc (f (handlers \<sigma> ! h)))"
    by (rule main_ok_mono [OF assms(5)]) simp_all
  moreover have "gomap_ok (watchers \<sigma>)" using inv by (simp add: srv_inv_def store_ok_def)
  ultimately show ?thesis
    using assms(3) p by (intro srv_inv_handler [OF inv h, where s = "f (handlers \<sigma> ! h)"]) simp_all
qed

text \<open>A handler that starts or ends a critical section of the store.\<close>

lemma srv_inv_store:
  assumes inv: "srv_inv \<sigma>" and h: "h < length (handlers \<sigma>)" and hs: "handlers \<sigma>' = (handlers \<sigma>)[h := s]"
    and ws: "watchStream s = watchStream (handlers \<sigma> ! h)" and s: "sws_ok s"
    and "smu \<sigma> \<in> {None, Some (ByRecv h), Some (ByMain h)}"
    and "smu \<sigma>' \<in> {None, Some (ByRecv h), Some (ByMain h)}"
    and "recv_ok \<sigma>' h (recvpc s)" and "main_ok \<sigma>' h (mainpc s)"
    and m: "watchers \<sigma>' = watchers \<sigma> \<or> watchers \<sigma>' = mdel wid (watchers \<sigma>) \<or>
      (watchers \<sigma>' = mput wid w (watchers \<sigma>) \<and> started \<sigma> w)"
    and "mock \<sigma>' = mock \<sigma>"
  shows "srv_inv \<sigma>'"
proof (rule srv_inv_handler [OF inv h hs s assms(8,9)])
  have "gomap_ok (watchers \<sigma>)" using inv by (simp add: srv_inv_def store_ok_def)
  then show "gomap_ok (watchers \<sigma>')" using m by (auto intro: inv_intros)
  show "(wid', w') \<in> set (watchers \<sigma>') \<Longrightarrow> (wid', w') \<in> set (watchers \<sigma>) \<or> started \<sigma> w'" for wid' w'
    using m by (auto dest: mput_memD mdel_memD)
qed (use assms in auto)

lemma smu_free: "srv_inv \<sigma> \<Longrightarrow> smu \<sigma> = None \<Longrightarrow> mock \<sigma> = Ticking"
  by (cases "mock \<sigma>") (auto simp: srv_inv_def)

lemma store_started: "srv_inv \<sigma> \<Longrightarrow> mget (watchers \<sigma>) wid = Some w \<Longrightarrow> started \<sigma> w"
  by (auto simp: srv_inv_def store_ok_def dest!: map_of_SomeD)

lemma notify_inv:
  assumes inv: "srv_inv \<sigma>" and h: "h < length (handlers \<sigma>)" and w: "mget (watchers \<sigma>) wid = Some w"
    and snd: "send_to (w_ch w) (canceled_msg w) \<sigma> = Ret \<rho>"
    and smu: "smu \<sigma> \<in> {Some (ByRecv h), Some (ByMain h)}"
    and f: "\<And>s. watchStream (f s) = watchStream s" "\<And>s. sws_ok s \<Longrightarrow> sws_ok (f s)"
    and "\<And>s. recvpc (f s) = (if smu \<sigma> = Some (ByRecv h) then VDone else recvpc s)"
    and "\<And>s. mainpc (f s) = (if smu \<sigma> = Some (ByMain h) then MClose e else mainpc s)"
  shows "srv_inv (upd h f (drop_watch wid \<rho>))"
proof -
  have st: "started \<sigma> w" using inv w by (rule store_started)
  then have \<rho>: "srv_inv \<rho>" using snd by (intro send_to_inv [OF inv]) (auto simp: started_def)
  have eq: "\<rho> = upd (w_ch w) (pushed (canceled_msg w)) \<sigma>" using snd by (simp add: send_to_Ret)
  then have sim: "length (handlers \<rho>) = length (handlers \<sigma>)" "smu \<rho> = smu \<sigma>" "watchers \<rho> = watchers \<sigma>"
    "mock \<rho> = mock \<sigma>" by simp_all
  note ok = srv_invD [OF \<rho>, of h]
  have "recv_ok (upd h f (drop_watch wid \<rho>)) h (recvpc (f (handlers \<rho> ! h)))"
    using ok(2) h sim assms(8) smu f(1)
    by (cases "recvpc (handlers \<rho> ! h)") (auto simp: started_def nth_list_update)
  moreover have "main_ok (upd h f (drop_watch wid \<rho>)) h (mainpc (f (handlers \<rho> ! h)))"
    using ok(3) h sim assms(9) smu by (cases "mainpc (handlers \<rho> ! h)") auto
  ultimately show ?thesis
    using h sim smu f ok(1)
    by (intro srv_inv_store [OF \<rho>, where h = h and s = "f (handlers \<rho> ! h)" and wid = wid]) auto
qed

lemma srv_inv_crash: "srv_inv \<sigma> \<Longrightarrow> srv_inv (\<sigma>\<lparr>s_crashed := p\<rparr>)"
proof -
  assume inv: "srv_inv \<sigma>"
  let ?\<sigma> = "\<sigma>\<lparr>s_crashed := p\<rparr>"
  have st: "started ?\<sigma> w = started \<sigma> w" for w by (simp add: started_def)
  have "recv_ok ?\<sigma> h pc = recv_ok \<sigma> h pc" for h pc by (cases pc) (simp_all add: st)
  moreover have "main_ok ?\<sigma> h pc = main_ok \<sigma> h pc" for h pc by (cases pc) simp_all
  moreover have "mock_ok ?\<sigma> pc = mock_ok \<sigma> pc" for pc by (cases pc) (simp_all add: st)
  ultimately show ?thesis using inv by (simp add: srv_inv_def handlers_ok_def store_ok_def st)
qed

lemma becomes_inv:
  "becomes \<sigma> r \<sigma>' \<Longrightarrow> srv_inv \<sigma> \<Longrightarrow> (\<And>\<rho>. r = Ret \<rho> \<Longrightarrow> srv_inv \<rho>) \<Longrightarrow> srv_inv \<sigma>'"
  by (auto elim!: becomes.cases intro: srv_inv_crash)

lemma hact_inv:
  assumes "hact h \<sigma> \<sigma>'" and inv: "srv_inv \<sigma>" and h: "h < length (handlers \<sigma>)"
  shows "srv_inv \<sigma>'"
  using assms(1)
proof (induction rule: hact.induct)
  case ctx_over
  show ?case using srv_invD [OF inv h] by (intro srv_inv_upd [OF inv h]) (auto simp: sws_ok_def)
next
  case (send_take x c)
  then show ?case using srv_invD [OF inv h]
    by (intro srv_inv_upd [OF inv h]) (auto simp: sws_ok_def chan_recv_Ret)
next
  case (send_ok x)
  then show ?case using srv_invD [OF inv h] by (intro srv_inv_upd [OF inv h]) (auto simp: sws_ok_def)
next
  case (send_fail x)
  then show ?case using srv_invD [OF inv h]
    by (intro srv_inv_upd [OF inv h]) (auto simp: sws_ok_def split: option.splits)
next
  case send_closec
  then show ?case using srv_invD [OF inv h] by (intro srv_inv_upd [OF inv h]) (auto simp: sws_ok_def)
next
  case recv_eof
  then show ?case using srv_invD [OF inv h] by (intro srv_inv_upd [OF inv h]) (auto simp: sws_ok_def)
next
  case (recv_err e)
  then show ?case using srv_invD [OF inv h] by (intro srv_inv_upd [OF inv h]) (auto simp: sws_ok_def)
next
  case (recv_req req \<sigma>')
  have inv': "srv_inv (took h req \<sigma>)"
    unfolding took_def using srv_invD [OF inv h] by (intro srv_inv_upd [OF inv h]) (auto simp: sws_ok_def)
  have h': "h < length (handlers (took h req \<sigma>))" using h by simp
  have "srv_inv (recv_next h a (took h req \<sigma>))" if "recv_request h req = Ret a" for a
    unfolding recv_next_def using h recv_req(1) srv_invD [OF inv' h'] that recv_request_ch
    by (intro srv_inv_upd [OF inv' h']) (auto simp: sws_ok_def split: recv_action.splits)
  then show ?case by (intro becomes_inv [OF recv_req(2) inv']) auto
next
  case (create_send wid w \<sigma>')
  have w: "w_ch w = h" using srv_invD(2) [OF inv h] create_send(1) by simp
  have "srv_inv (upd h (\<lambda>s. s\<lparr>recvpc := VStore wid w\<rparr>) \<rho>)"
    if snd: "send_to (w_ch w) (created_msg w) \<sigma> = Ret \<rho>" for \<rho>
  proof -
    have \<rho>: "srv_inv \<rho>" using snd w h by (intro send_to_inv [OF inv]) auto
    have eq: "\<rho> = upd h (pushed (created_msg w)) \<sigma>" using snd w by (simp add: send_to_Ret)
    have h': "h < length (handlers \<rho>)" using eq h by simp
    have "started \<rho> w" using eq h w by (simp add: started_def)
    with srv_invD [OF \<rho> h'] w create_send(1) eq h show ?thesis
      by (intro srv_inv_upd [OF \<rho> h']) (auto simp: sws_ok_def)
  qed
  then show ?case by (intro becomes_inv [OF create_send(2) inv]) auto
next
  case (create_store wid w)
  let ?s = "(handlers \<sigma> ! h)\<lparr>s_watchID := wid, recvpc := VRecv\<rparr>"
  have "main_ok (upd h (\<lambda>_. ?s) (store_watch wid w \<sigma>)) h (mainpc ?s)"
    using create_store srv_invD(3) [OF inv h] by (cases "mainpc (handlers \<sigma> ! h)") auto
  with create_store srv_invD [OF inv h] h show ?case
    by (intro srv_inv_store [OF inv h, where s = ?s and wid = wid and w = w])
      (auto simp: sws_ok_def upd_def)
next
  case (cancel_hit wid w)
  let ?s = "(handlers \<sigma> ! h)\<lparr>recvpc := VNotify wid w\<rparr>"
  have "main_ok (upd h (\<lambda>_. ?s) (\<sigma>\<lparr>smu := Some (ByRecv h)\<rparr>)) h (mainpc ?s)"
    using cancel_hit srv_invD(3) [OF inv h] by (cases "mainpc (handlers \<sigma> ! h)") auto
  with cancel_hit srv_invD [OF inv h] h show ?case
    by (intro srv_inv_store [OF inv h, where s = ?s]) (auto simp: sws_ok_def upd_def)
next
  case (cancel_miss wid)
  let ?s = "(handlers \<sigma> ! h)\<lparr>recvpc := VDone\<rparr>"
  have "main_ok (upd h (\<lambda>_. ?s) (drop_watch wid \<sigma>)) h (mainpc ?s)"
    using cancel_miss srv_invD(3) [OF inv h] by (cases "mainpc (handlers \<sigma> ! h)") auto
  with cancel_miss srv_invD [OF inv h] h show ?case
    by (intro srv_inv_store [OF inv h, where s = ?s]) (auto simp: sws_ok_def upd_def)
next
  case (cancel_notify wid w \<sigma>')
  have c: "mget (watchers \<sigma>) wid = Some w" "smu \<sigma> = Some (ByRecv h)"
    using srv_invD(2) [OF inv h] cancel_notify(1) by simp_all
  show ?case
    by (rule becomes_inv [OF cancel_notify(2) inv])
      (use c in \<open>auto intro!: notify_inv [OF inv h c(1)] simp: sws_ok_def\<close>)
next
  case (main_err e \<sigma>')
  have "srv_inv (upd h (\<lambda>s. s\<lparr>watchStream := c, s_errc := None, mainpc := MCancel (s_watchID s) e\<rparr>) \<sigma>)"
    if "chan_close (watchStream (handlers \<sigma> ! h)) = Ret c" for c
    using that srv_invD [OF inv h] main_err(1,2)
    by (intro srv_inv_upd [OF inv h]) (auto simp: sws_ok_def chan_close_def split: if_splits)
  then show ?case by (intro becomes_inv [OF main_err(3) inv]) auto
next
  case (main_ctx e)
  then show ?case using srv_invD [OF inv h] by (intro srv_inv_upd [OF inv h]) (auto simp: sws_ok_def)
next
  case (main_hit wid e w)
  let ?s = "(handlers \<sigma> ! h)\<lparr>mainpc := MNotify wid w e\<rparr>"
  have "recv_ok (upd h (\<lambda>_. ?s) (\<sigma>\<lparr>smu := Some (ByMain h)\<rparr>)) h (recvpc ?s)"
    using main_hit srv_invD(2) [OF inv h] h
    by (cases "recvpc (handlers \<sigma> ! h)") (auto simp: started_def nth_list_update)
  with main_hit srv_invD [OF inv h] h show ?case
    by (intro srv_inv_store [OF inv h, where s = ?s]) (auto simp: sws_ok_def upd_def)
next
  case (main_miss wid e)
  let ?s = "(handlers \<sigma> ! h)\<lparr>mainpc := MClose e\<rparr>"
  have "recv_ok (upd h (\<lambda>_. ?s) (drop_watch wid \<sigma>)) h (recvpc ?s)"
    using main_miss srv_invD(2) [OF inv h] h
    by (cases "recvpc (handlers \<sigma> ! h)") (auto simp: started_def nth_list_update)
  with main_miss srv_invD [OF inv h] h show ?case
    by (intro srv_inv_store [OF inv h, where s = ?s]) (auto simp: sws_ok_def upd_def)
next
  case (main_notify wid w e \<sigma>')
  have c: "mget (watchers \<sigma>) wid = Some w" "smu \<sigma> = Some (ByMain h)"
    using srv_invD(3) [OF inv h] main_notify(1) by simp_all
  show ?case
    by (rule becomes_inv [OF main_notify(2) inv])
      (use c in \<open>auto intro!: notify_inv [OF inv h c(1)] simp: sws_ok_def\<close>)
next
  case (main_close e)
  then show ?case using srv_invD [OF inv h] by (intro srv_inv_upd [OF inv h]) (auto simp: sws_ok_def)
next
  case (main_join e)
  then show ?case using srv_invD [OF inv h] by (intro srv_inv_upd [OF inv h]) (auto simp: sws_ok_def)
qed

lemma new_sws_ok: "sws_ok new_sws"
  by (simp add: sws_ok_def new_sws_def make_chan_def)

lemma accept_inv:
  assumes inv: "srv_inv \<sigma>"
  shows "srv_inv (\<sigma>\<lparr>handlers := handlers \<sigma> @ [new_sws]\<rparr>)" (is "srv_inv ?\<sigma>")
proof -
  have st: "started ?\<sigma> w" if "started \<sigma> w" for w
    using that by (auto simp: started_def nth_append)
  have hd: "smu \<sigma> \<noteq> Some (ByRecv (length (handlers \<sigma>)))" "smu \<sigma> \<noteq> Some (ByMain (length (handlers \<sigma>)))"
    using inv by (auto simp: srv_inv_def)
  have "sws_ok (handlers ?\<sigma> ! h) \<and> recv_ok ?\<sigma> h (recvpc (handlers ?\<sigma> ! h)) \<and>
      main_ok ?\<sigma> h (mainpc (handlers ?\<sigma> ! h))" if "h < length (handlers ?\<sigma>)" for h
  proof (cases "h < length (handlers \<sigma>)")
    case True
    note ok = srv_invD [OF inv True]
    have "recv_ok ?\<sigma> h (recvpc (handlers \<sigma> ! h))" by (rule recv_ok_mono [OF ok(2)]) (simp_all add: st)
    moreover have "main_ok ?\<sigma> h (mainpc (handlers \<sigma> ! h))" by (rule main_ok_mono [OF ok(3)]) simp_all
    ultimately show ?thesis using True ok(1) by (simp add: nth_append)
  next
    case False
    with that have "h = length (handlers \<sigma>)" by simp
    with hd new_sws_ok show ?thesis by (simp add: nth_append new_sws_def)
  qed
  moreover have "mock_ok ?\<sigma> (mock \<sigma>)" using inv st by (cases "mock \<sigma>") (auto simp: srv_inv_def)
  ultimately show ?thesis
    using inv st by (auto simp: srv_inv_def handlers_ok_def store_ok_def)
qed

text \<open>A step of \<^verbatim>\<open>mockWatch\<close> that takes or gives back the mutex.\<close>

lemma mock_inv:
  assumes inv: "srv_inv \<sigma>" and "smu \<sigma> \<in> {None, Some ByMock}" and "smu \<sigma>' \<in> {None, Some ByMock}"
    and \<sigma>': "handlers \<sigma>' = handlers \<sigma>" "watchers \<sigma>' = watchers \<sigma>" and "mock_ok \<sigma>' (mock \<sigma>')"
  shows "srv_inv \<sigma>'"
proof -
  have st: "started \<sigma>' w = started \<sigma> w" for w by (simp add: started_def \<sigma>')
  have "recv_ok \<sigma>' h (recvpc (handlers \<sigma> ! h))" "main_ok \<sigma>' h (mainpc (handlers \<sigma> ! h))"
    if "h < length (handlers \<sigma>)" for h
    using recv_ok_mono [OF srv_invD(2) [OF inv that], of \<sigma>'] main_ok_mono [OF srv_invD(3) [OF inv that], of \<sigma>']
      assms(2,3) st by auto
  then show ?thesis
    using inv assms(2,3,6) st by (auto simp: srv_inv_def handlers_ok_def store_ok_def \<sigma>')
qed

lemma sact_inv: "sact \<sigma> \<sigma>' \<Longrightarrow> srv_inv \<sigma> \<Longrightarrow> srv_inv \<sigma>'"
proof (induction rule: sact.induct)
  case accept
  then show ?case by (rule accept_inv)
next
  case (handler h \<sigma>')
  then show ?case by (blast intro: hact_inv)
next
  case (tick ws)
  let ?\<sigma> = "\<sigma>\<lparr>smu := Some ByMock, mock := Visiting ws\<rparr>"
  have "started \<sigma> w" if "w \<in> set ws" for w
  proof -
    have "w \<in># vals (watchers \<sigma>)" using that tick(3) by (metis set_mset_mset)
    then show ?thesis using tick(4) by (auto simp: srv_inv_def store_ok_def vals_def)
  qed
  with tick show ?case by (intro mock_inv [OF tick(4)]) (auto simp: started_def)
next
  case (visit w ws \<sigma>')
  have ok: "smu \<sigma> = Some ByMock" "started \<sigma> w" "\<forall>w \<in> set ws. started \<sigma> w"
    using visit(1,3) by (auto simp: srv_inv_def)
  have "srv_inv (\<rho>\<lparr>mock := Visiting ws\<rparr>)" if snd: "send_to (w_ch w) (update_msg w) \<sigma> = Ret \<rho>" for \<rho>
  proof -
    have \<rho>: "srv_inv \<rho>" using ok(2) snd by (intro send_to_inv [OF visit(3)]) (auto simp: started_def)
    have "\<rho> = upd (w_ch w) (pushed (update_msg w)) \<sigma>" using snd by (simp add: send_to_Ret)
    then show ?thesis
      using ok by (intro mock_inv [OF \<rho>]) (auto simp: started_def nth_list_update)
  qed
  then show ?case by (intro becomes_inv [OF visit(2,3)]) auto
next
  case visited
  then show ?case by (intro mock_inv [OF visited(2)]) (auto simp: srv_inv_def)
qed

lemma srv_reach_inv: "srv_reach \<sigma> \<Longrightarrow> srv_inv \<sigma>"
proof (induction rule: srv_reach.induct)
  case init
  show ?case by (simp add: srv_inv_def newWatcherStore_def handlers_ok_def store_ok_def)
next
  case (step \<sigma> \<sigma>')
  then show ?case using sact_inv by (auto simp: srv_step_def)
qed

section \<open>Executions\<close>

definition srv_steps :: "'err srv \<Rightarrow> 'err srv \<Rightarrow> bool" where
  "srv_steps = srv_step\<^sup>*\<^sup>*"

lemma srv_steps_refl [simp]: "srv_steps \<sigma> \<sigma>"
  by (simp add: srv_steps_def)

lemma srv_steps_snoc: "srv_steps \<sigma> \<rho> \<Longrightarrow> s_crashed \<rho> = None \<Longrightarrow> sact \<rho> \<sigma>' \<Longrightarrow> srv_steps \<sigma> \<sigma>'"
  unfolding srv_steps_def by (rule rtranclp.rtrancl_into_rtrancl) (simp_all add: srv_step_def)

lemma srv_reach_act: "srv_reach \<sigma> \<Longrightarrow> s_crashed \<sigma> = None \<Longrightarrow> sact \<sigma> \<sigma>' \<Longrightarrow> srv_reach \<sigma>'"
  by (rule srv_reach.step) (simp_all add: srv_step_def)

lemma srv_steps_inv:
  assumes "srv_steps \<sigma> \<sigma>'" and "P \<sigma>" and "srv_reach \<sigma>"
    and "\<And>\<rho> \<rho>'. srv_reach \<rho> \<Longrightarrow> P \<rho> \<Longrightarrow> srv_step \<rho> \<rho>' \<Longrightarrow> P \<rho>'"
  shows "P \<sigma>' \<and> srv_reach \<sigma>'"
  using assms(1) unfolding srv_steps_def
  by (induction rule: rtranclp_induct) (use assms(2-) srv_reach.step in blast)+

end
