(* ===== verification/ServerProps.thy ===== *)
theory ServerProps
  imports WatchServer
begin

text \<open>
  What the server of WatchServer guarantees, how it can panic, and how its store can stop.
\<close>

section \<open>What every step keeps\<close>

text \<open>The moves of a store operation touch the handler that makes them and one channel.\<close>

lemma send_to_handlers:
  "send_to ch r \<sigma> = Ret \<rho> \<Longrightarrow> \<rho> = upd ch (pushed r) \<sigma>"
  by (simp add: send_to_Ret)

lemma becomes_cases:
  assumes "becomes \<sigma> r \<sigma>'"
  obtains (Ret) "r = Ret \<sigma>'" | (Crash) p where "r = Panic p" "\<sigma>' = \<sigma>\<lparr>s_crashed := Some p\<rparr>"
  using assms by (cases rule: becomes.cases) auto

text \<open>
  The kinds of panic.  A request is malformed when it asks to create a watch for no app, or when it is a
  cancellation without its message.
\<close>

fun malformed :: "WatchRequest \<Rightarrow> bool" where
  "malformed (Some (CreateRequest (Some r))) = (create_app r = None)"
| "malformed (Some (CancelRequest None)) = True"
| "malformed _ = False"

definition reqs_ok :: "'err srv \<Rightarrow> bool" where
  "reqs_ok \<sigma> \<longleftrightarrow> (\<forall>h < length (handlers \<sigma>). \<forall>req \<in> set (s_got (handlers \<sigma> ! h)). \<not> malformed req)"


lemma reqs_simps [simp]:
  "reqs_ok (store_watch wid w \<sigma>) = reqs_ok \<sigma>" "reqs_ok (drop_watch wid \<sigma>) = reqs_ok \<sigma>"
  "reqs_ok (\<sigma>\<lparr>smu := m\<rparr>) = reqs_ok \<sigma>" "reqs_ok (\<sigma>\<lparr>mock := pc\<rparr>) = reqs_ok \<sigma>"
  "reqs_ok (\<sigma>\<lparr>s_crashed := c\<rparr>) = reqs_ok \<sigma>"
  by (simp_all add: reqs_ok_def)

















text \<open>A handler whose receive loop has ended without an error waits for its context.\<close>

definition idle_handler :: "nat \<Rightarrow> 'err srv \<Rightarrow> bool" where
  "idle_handler h \<sigma> \<longleftrightarrow> h < length (handlers \<sigma>) \<and> recvpc (handlers \<sigma> ! h) = VDone \<and>
     s_errc (handlers \<sigma> ! h) = None \<and> mainpc (handlers \<sigma> ! h) = MWait"

lemma idle_upd:
  "idle_handler h \<sigma> \<Longrightarrow> (\<And>s. recvpc (f s) = recvpc s \<and> s_errc (f s) = s_errc s \<and> mainpc (f s) = mainpc s) \<Longrightarrow>
    idle_handler h (upd k f \<sigma>)"
  by (cases "k = h") (auto simp: idle_handler_def)

lemma idle_other: "idle_handler h \<sigma> \<Longrightarrow> k \<noteq> h \<Longrightarrow> idle_handler h (upd k f \<sigma>)"
  by (auto simp: idle_handler_def)

lemma idle_simps [simp]:
  "idle_handler h (store_watch wid w \<sigma>) = idle_handler h \<sigma>" "idle_handler h (drop_watch wid \<sigma>) = idle_handler h \<sigma>"
  "idle_handler h (\<sigma>\<lparr>smu := m\<rparr>) = idle_handler h \<sigma>" "idle_handler h (\<sigma>\<lparr>mock := pc\<rparr>) = idle_handler h \<sigma>"
  "idle_handler h (\<sigma>\<lparr>s_crashed := c\<rparr>) = idle_handler h \<sigma>"
  by (simp_all add: idle_handler_def)

lemma idle_becomes_send:
  assumes "becomes \<sigma> (obind (send_to ch r \<sigma>) (\<lambda>\<rho>. Ret (upd k f (g \<rho>)))) \<sigma>'" and i: "idle_handler h \<sigma>"
    and "\<And>\<rho>. idle_handler h (g \<rho>) = idle_handler h \<rho>" and "k \<noteq> h"
  shows "idle_handler h \<sigma>'"
  using assms(1)
proof (cases rule: becomes_cases)
  case Ret
  then obtain \<rho> where "send_to ch r \<sigma> = Ret \<rho>" "\<sigma>' = upd k f (g \<rho>)" by auto
  moreover from this(1) i have "idle_handler h \<rho>" by (auto dest!: send_to_handlers intro: idle_upd)
  ultimately show ?thesis using assms(3,4) by (auto intro: idle_other)
qed (simp add: i)

lemma hact_idle:
  assumes "hact k \<sigma> \<sigma>'" and i: "idle_handler h \<sigma>" and "\<not> s_over (handlers \<sigma> ! h)"
  shows "idle_handler h \<sigma>'"
proof (cases "k = h")
  case True
  have "recvpc (handlers \<sigma> ! k) = VDone" "mainpc (handlers \<sigma> ! k) = MWait" "s_errc (handlers \<sigma> ! k) = None"
    using i True by (simp_all add: idle_handler_def)
  with assms(1) assms(3) i True show ?thesis
    by (induction rule: hact.induct) (auto intro: idle_upd)
next
  case False
  from assms(1) show ?thesis
  proof (induction rule: hact.induct)
    case (create_send wid w \<sigma>')
    from create_send(2) i show ?case by (rule idle_becomes_send [where g = "\<lambda>\<rho>. \<rho>"]) (use False in auto)
  next
    case (cancel_notify wid w \<sigma>')
    from cancel_notify(2) i show ?case by (rule idle_becomes_send) (use False in auto)
  next
    case (main_notify wid w e \<sigma>')
    from main_notify(2) i show ?case by (rule idle_becomes_send) (use False in auto)
  next
    case (recv_req req \<sigma>')
    from recv_req(2) show ?case
      by (cases rule: becomes_cases) (use i False in \<open>auto simp: recv_next_def took_def intro: idle_other\<close>)
  next
    case (main_err e \<sigma>')
    from main_err(3) show ?case
      by (cases rule: becomes_cases) (use i False in \<open>auto intro: idle_other\<close>)
  qed (use i False in \<open>auto intro: idle_other\<close>)
qed

lemma sact_idle:
  assumes "sact \<sigma> \<sigma>'" and i: "idle_handler h \<sigma>" and "\<not> s_over (handlers \<sigma> ! h)"
  shows "idle_handler h \<sigma>'"
  using assms(1)
proof (induction rule: sact.induct)
  case (handler k \<sigma>')
  then show ?case using i assms(3) by (blast intro: hact_idle)
next
  case (visit w ws \<sigma>')
  from visit(2) show ?case
  proof (cases rule: becomes_cases)
    case Ret
    then obtain \<rho> where "send_to (w_ch w) (update_msg w) \<sigma> = Ret \<rho>" "\<sigma>' = \<rho>\<lparr>mock := Visiting ws\<rparr>" by auto
    with i show ?thesis by (auto dest!: send_to_handlers intro: idle_upd)
  qed (simp add: i)
qed (use i in \<open>auto simp: idle_handler_def nth_append\<close>)

text \<open>A context that is over stays over.\<close>

definition over_at :: "nat \<Rightarrow> 'err srv \<Rightarrow> bool" where
  "over_at h \<sigma> \<longleftrightarrow> h < length (handlers \<sigma>) \<and> s_over (handlers \<sigma> ! h)"

lemma over_simps [simp]:
  "over_at h (store_watch wid w \<sigma>) = over_at h \<sigma>" "over_at h (drop_watch wid \<sigma>) = over_at h \<sigma>"
  "over_at h (\<sigma>\<lparr>smu := m\<rparr>) = over_at h \<sigma>" "over_at h (\<sigma>\<lparr>mock := pc\<rparr>) = over_at h \<sigma>"
  "over_at h (\<sigma>\<lparr>s_crashed := c\<rparr>) = over_at h \<sigma>"
  by (simp_all add: over_at_def)

lemma over_upd: "over_at h \<sigma> \<Longrightarrow> (\<And>s. s_over s \<Longrightarrow> s_over (f s)) \<Longrightarrow> over_at h (upd k f \<sigma>)"
  by (cases "k = h") (auto simp: over_at_def)

lemma over_send: "over_at h \<sigma> \<Longrightarrow> send_to ch r \<sigma> = Ret \<rho> \<Longrightarrow> over_at h \<rho>"
  by (auto dest!: send_to_handlers intro: over_upd)

lemma over_becomes: "becomes \<sigma> r \<sigma>' \<Longrightarrow> over_at h \<sigma> \<Longrightarrow> (\<And>\<rho>. r = Ret \<rho> \<Longrightarrow> over_at h \<rho>) \<Longrightarrow> over_at h \<sigma>'"
  by (cases rule: becomes.cases) auto

lemma sact_over: "sact \<sigma> \<sigma>' \<Longrightarrow> over_at h \<sigma> \<Longrightarrow> over_at h \<sigma>'"
proof (induction rule: sact.induct)
  case accept
  then show ?case by (auto simp: over_at_def nth_append)
next
  case (handler k \<sigma>')
  note send = over_send [OF handler(3)]
  from handler(2) show ?case
  proof (induction rule: hact.induct)
    case (create_send wid w \<sigma>')
    show ?case by (rule over_becomes [OF create_send(2) handler(3)]) (auto intro!: over_upd dest: send)
  next
    case (cancel_notify wid w \<sigma>')
    show ?case by (rule over_becomes [OF cancel_notify(2) handler(3)]) (auto intro!: over_upd dest!: send)
  next
    case (main_notify wid w e \<sigma>')
    show ?case by (rule over_becomes [OF main_notify(2) handler(3)]) (auto intro!: over_upd dest!: send)
  next
    case (recv_req req \<sigma>')
    show ?case
      by (rule over_becomes [OF recv_req(2)])
        (use handler(3) in \<open>auto intro!: over_upd simp: recv_next_def took_def\<close>)
  next
    case (main_err e \<sigma>')
    show ?case
      by (rule over_becomes [OF main_err(3) handler(3)]) (use handler(3) in \<open>auto intro!: over_upd\<close>)
  qed (use handler(3) in \<open>auto intro!: over_upd\<close>)
next
  case (visit w ws \<sigma>')
  show ?case by (rule over_becomes [OF visit(2,3)]) (auto dest: over_send [OF visit(3)])
qed auto

text \<open>
  The store is wedged: \<^verbatim>\<open>mockWatch\<close>, which holds the mutex, is at a send to a full channel
  whose \<^verbatim>\<open>sendLoop\<close> is gone.
\<close>

definition wedged :: "watcher \<Rightarrow> watcher list \<Rightarrow> 'err srv \<Rightarrow> bool" where
  "wedged w ws \<sigma> \<longleftrightarrow> mock \<sigma> = Visiting (w # ws) \<and> w_ch w < length (handlers \<sigma>) \<and>
     sendpc (handlers \<sigma> ! w_ch w) = PDone \<and> length (buf (watchStream (handlers \<sigma> ! w_ch w))) = chan_cap"

lemma wedged_upd:
  "wedged w ws \<sigma> \<Longrightarrow> (k = w_ch w \<Longrightarrow> sendpc (f (handlers \<sigma> ! k)) = PDone \<and>
      buf (watchStream (f (handlers \<sigma> ! k))) = buf (watchStream (handlers \<sigma> ! k))) \<Longrightarrow>
    wedged w ws (upd k f \<sigma>)"
  by (cases "k = w_ch w") (auto simp: wedged_def)

lemma wedged_send:
  "wedged w ws \<sigma> \<Longrightarrow> send_to ch r \<sigma> = Ret \<rho> \<Longrightarrow> wedged w ws \<rho>"
  by (cases "ch = w_ch w") (auto simp: wedged_def send_to_Ret)

lemma wedged_becomes:
  assumes "becomes \<sigma> r \<sigma>'" and "\<And>\<rho>. r = Ret \<rho> \<Longrightarrow> wedged w ws \<rho> \<and> watchers \<rho> = watchers \<sigma>"
  shows "s_crashed \<sigma>' \<noteq> None \<or> (wedged w ws \<sigma>' \<and> watchers \<sigma>' = watchers \<sigma>)"
  using assms by (cases rule: becomes_cases) auto

lemma wedged_step:
  assumes "sact \<sigma> \<sigma>'" and inv: "srv_inv \<sigma>" and wd: "wedged w ws \<sigma>"
  shows "s_crashed \<sigma>' \<noteq> None \<or> (wedged w ws \<sigma>' \<and> watchers \<sigma>' = watchers \<sigma>)"
proof -
  have mu: "smu \<sigma> = Some ByMock" using inv wd by (simp add: srv_inv_def wedged_def)
  show ?thesis using assms(1)
  proof (induction rule: sact.induct)
    case accept
    then show ?case using wd by (auto simp: wedged_def nth_append)
  next
    case (handler h \<sigma>')
    have h: "recv_ok \<sigma> h (recvpc (handlers \<sigma> ! h))" "main_ok \<sigma> h (mainpc (handlers \<sigma> ! h))"
      using srv_invD [OF inv handler(1)] by simp_all
    from handler(2) show ?case
    proof (induction rule: hact.induct)
      case (create_send wid w' \<sigma>')
      show ?case
      proof (rule wedged_becomes [OF create_send(2)])
        fix \<rho>
        assume "obind (send_to (w_ch w') (created_msg w') \<sigma>) (\<lambda>\<rho>. Ret (upd h (\<lambda>s. s\<lparr>recvpc := VStore wid w'\<rparr>) \<rho>)) = Ret \<rho>"
        then obtain \<tau> where t: "send_to (w_ch w') (created_msg w') \<sigma> = Ret \<tau>"
          "\<rho> = upd h (\<lambda>s. s\<lparr>recvpc := VStore wid w'\<rparr>) \<tau>" by auto
        have "wedged w ws \<rho>" unfolding t(2) using wedged_send [OF wd t(1)]
          by (rule wedged_upd) (use wedged_send [OF wd t(1)] in \<open>simp add: wedged_def\<close>)
        then show "wedged w ws \<rho> \<and> watchers \<rho> = watchers \<sigma>"
          using send_to_handlers [OF t(1)] by (simp add: t(2))
      qed
    next
      case (recv_req req \<sigma>')
      have wt: "wedged w ws (took h req \<sigma>)"
        unfolding took_def by (rule wedged_upd [OF wd]) (use wd in \<open>simp add: wedged_def\<close>)
      have "wedged w ws (recv_next h a (took h req \<sigma>))" for a
        unfolding recv_next_def by (rule wedged_upd [OF wt]) (use wt wd in \<open>simp add: wedged_def\<close>)
      then have "s_crashed \<sigma>' \<noteq> None \<or> (wedged w ws \<sigma>' \<and> watchers \<sigma>' = watchers (took h req \<sigma>))"
        by (intro wedged_becomes [OF recv_req(2)]) (auto simp: recv_next_def)
      then show ?case by simp
    next
      case (main_err e \<sigma>')
      show ?case
        by (rule wedged_becomes [OF main_err(3)])
          (use wd handler(1) in \<open>auto simp: chan_close_def wedged_def nth_list_update split: if_splits\<close>)
    qed (use h mu wd handler(1) in \<open>auto simp: wedged_def nth_list_update chan_recv_Ret\<close>)
  next
    case (visit w' ws' \<sigma>')
    show ?case
      by (rule wedged_becomes [OF visit(2)]) (use wd visit(1) in \<open>auto simp: wedged_def send_to_Ret\<close>)
  qed (use wd mu in \<open>auto simp: wedged_def\<close>)
qed

section \<open>Concrete executions\<close>

definition demo_watcher :: watcher where
  "demo_watcher = \<lparr>w_name = ''a'', w_env = ''qa'', w_ch = 0\<rparr>"

definition demo_req :: WatchRequest where
  "demo_req = Some (CreateRequest (Some \<lparr>create_watch_id = ''w'',
     create_app = Some \<lparr>app_name = ''a'', app_env = ''qa''\<rparr>\<rparr>))"

definition demo_srv :: "holder option \<Rightarrow> watchers \<Rightarrow> mock_pc \<Rightarrow> demo_err sws \<Rightarrow> demo_err srv" where
  "demo_srv m ws pc s = \<lparr>watchers = ws, smu = m, handlers = [s], mock = pc, s_crashed = None\<rparr>"

lemma demo_srv_simps [simp]:
  "watchers (demo_srv m ws pc s) = ws" "smu (demo_srv m ws pc s) = m" "handlers (demo_srv m ws pc s) = [s]"
  "mock (demo_srv m ws pc s) = pc" "s_crashed (demo_srv m ws pc s) = None"
  "upd 0 f (demo_srv m ws pc s) = demo_srv m ws pc (f s)"
  "demo_srv m ws pc s\<lparr>smu := m'\<rparr> = demo_srv m' ws pc s"
  "demo_srv m ws pc s\<lparr>mock := pc'\<rparr> = demo_srv m ws pc' s"
  "demo_srv m ws pc s\<lparr>smu := m', mock := pc'\<rparr> = demo_srv m' ws pc' s"
  "store_watch wid w (demo_srv m ws pc s) = demo_srv m (mput wid w ws) pc s"
  "drop_watch wid (demo_srv m ws pc s) = demo_srv None (mdel wid ws) pc s"
  "took 0 req (demo_srv m ws pc s) = demo_srv m ws pc (s\<lparr>s_got := s_got s @ [req]\<rparr>)"
  by (simp_all add: demo_srv_def upd_def store_watch_def drop_watch_def took_def)

lemma demo_handler: "srv_reach (demo_srv m ws pc s) \<Longrightarrow> hact 0 (demo_srv m ws pc s) \<sigma>' \<Longrightarrow> srv_reach \<sigma>'"
  by (erule srv_reach_act) (auto intro: sact.handler)

lemma demo_act: "srv_reach (demo_srv m ws pc s) \<Longrightarrow> sact (demo_srv m ws pc s) \<sigma>' \<Longrightarrow> srv_reach \<sigma>'"
  by (erule srv_reach_act) simp_all

lemma demo_send:
  "\<not> chan_closed (watchStream s) \<Longrightarrow> length (buf (watchStream s)) < chan_cap \<Longrightarrow>
    send_to 0 r (demo_srv m ws pc s) = Ret (demo_srv m ws pc (pushed r s))"
  by (simp add: send_to_Ret)

text \<open>A client has connected and its watch is in the store.\<close>

definition demo_conn :: "demo_err sws" where
  "demo_conn = (pushed (created_msg demo_watcher) new_sws)\<lparr>s_watchID := ''w'', s_got := [demo_req]\<rparr>"

lemma demo_created: "srv_reach (demo_srv None [(''w'', demo_watcher)] Ticking demo_conn)"
proof -
  have 0: "srv_reach (demo_srv None [] Ticking new_sws)"
    using srv_reach_act [OF srv_reach.init _ sact.accept] by (simp add: newWatcherStore_def demo_srv_def)
  have "recv_request 0 demo_req = Ret (DoCreate ''w'' demo_watcher)"
    by (simp add: recv_request_def demo_req_def newWatcher_def demo_watcher_def)
  with demo_handler [OF 0 hact.recv_req [where req = demo_req]]
  have 1: "srv_reach (demo_srv None [] Ticking (new_sws\<lparr>recvpc := VCreate ''w'' demo_watcher, s_got := [demo_req]\<rparr>))"
    by (simp add: new_sws_def recv_next_def)
  let ?s = "new_sws\<lparr>recvpc := VCreate ''w'' demo_watcher, s_got := [demo_req]\<rparr>"
  have snd: "send_to 0 (created_msg demo_watcher) (demo_srv None [] Ticking ?s) =
      Ret (demo_srv None [] Ticking (pushed (created_msg demo_watcher) ?s))"
    by (rule demo_send) (simp_all add: new_sws_def make_chan_def chan_cap_def)
  have "w_ch demo_watcher = 0" by (simp add: demo_watcher_def)
  with demo_handler [OF 1 hact.create_send [where wid = "''w''" and w = demo_watcher]] snd
  have 2: "srv_reach (demo_srv None [] Ticking ((pushed (created_msg demo_watcher) ?s)\<lparr>recvpc := VStore ''w'' demo_watcher\<rparr>))"
    by simp
  from demo_handler [OF 2 hact.create_store [where wid = "''w''" and w = demo_watcher]]
  show ?thesis by (simp add: demo_conn_def pushed_def new_sws_def)
qed

lemma demo_conn_simps [simp]:
  "mainpc demo_conn = MWait" "sendpc demo_conn = PLoop" "recvpc demo_conn = VRecv" "s_errc demo_conn = None"
  "s_watchID demo_conn = ''w''" "chan_closed (watchStream demo_conn) = False" "s_over demo_conn = False"
  "buf (watchStream demo_conn) = [created_msg demo_watcher]" "out demo_conn = []"
  "put (watchStream demo_conn) = [created_msg demo_watcher]" "s_got demo_conn = [demo_req]"
  by (simp_all add: demo_conn_def new_sws_def make_chan_def)

lemma demo_watcher_ch [simp]: "w_ch demo_watcher = 0"
  by (simp add: demo_watcher_def)

text \<open>The creation notice has been sent.\<close>

definition demo_told :: "demo_err sws" where
  "demo_told = demo_conn\<lparr>watchStream := (watchStream demo_conn)\<lparr>buf := []\<rparr>,
     out := [created_msg demo_watcher], sendpc := PLoop\<rparr>"

lemma demo_sending:
  "srv_reach (demo_srv None [(''w'', demo_watcher)] Ticking
     (demo_conn\<lparr>watchStream := (watchStream demo_conn)\<lparr>buf := []\<rparr>, sendpc := PSend (Some (created_msg demo_watcher))\<rparr>))"
proof -
  have "chan_recv (watchStream demo_conn) =
      Ret (Some (created_msg demo_watcher), (watchStream demo_conn)\<lparr>buf := []\<rparr>)"
    by (simp add: chan_recv_Ret)
  with demo_handler [OF demo_created hact.send_take] show ?thesis by simp
qed

lemma demo_delivered: "srv_reach (demo_srv None [(''w'', demo_watcher)] Ticking demo_told)"
  using demo_handler [OF demo_sending hact.send_ok [where x = "Some (created_msg demo_watcher)"]]
  by (simp add: demo_told_def)

text \<open>The client's receive fails.\<close>

lemma demo_recv_failed:
  "srv_reach (demo_srv None [(''w'', demo_watcher)] Ticking (demo_conn\<lparr>recvpc := VDone, s_errc := Some e, s_failed := Some e\<rparr>))"
  using demo_handler [OF demo_created hact.recv_err] by simp

text \<open>The client's context ends.\<close>

lemma demo_ctx_over:
  "srv_reach (demo_srv None [(''w'', demo_watcher)] Ticking (demo_conn\<lparr>s_over := True\<rparr>))"
  using demo_handler [OF demo_created hact.ctx_over] by simp

text \<open>The client cancels its watch.\<close>

definition demo_cancel :: WatchRequest where
  "demo_cancel = Some (CancelRequest (Some \<lparr>cancel_watch_id = ''w''\<rparr>))"

lemma demo_canceled:
  "srv_reach (demo_srv None [] Ticking
     ((pushed (canceled_msg demo_watcher) demo_conn)\<lparr>recvpc := VDone, s_got := [demo_req, demo_cancel]\<rparr>))"
proof -
  let ?ws = "[(''w'', demo_watcher)]"
  let ?c = "demo_conn\<lparr>s_got := [demo_req, demo_cancel]\<rparr>"
  have "recv_request 0 demo_cancel = Ret (DoCancel ''w'')"
    by (simp add: recv_request_def demo_cancel_def)
  with demo_handler [OF demo_created hact.recv_req [where req = demo_cancel]]
  have 1: "srv_reach (demo_srv None ?ws Ticking (?c\<lparr>recvpc := VCancel ''w''\<rparr>))"
    by (simp add: recv_next_def)
  from demo_handler [OF 1 hact.cancel_hit [where wid = "''w''" and w = demo_watcher]]
  have 2: "srv_reach (demo_srv (Some (ByRecv 0)) ?ws Ticking (?c\<lparr>recvpc := VNotify ''w'' demo_watcher\<rparr>))"
    by simp
  let ?s = "?c\<lparr>recvpc := VNotify ''w'' demo_watcher\<rparr>"
  have "send_to 0 (canceled_msg demo_watcher) (demo_srv (Some (ByRecv 0)) ?ws Ticking ?s) =
      Ret (demo_srv (Some (ByRecv 0)) ?ws Ticking (pushed (canceled_msg demo_watcher) ?s))"
    by (rule demo_send) (simp_all add: chan_cap_def)
  with demo_handler [OF 2 hact.cancel_notify [where wid = "''w''" and w = demo_watcher]]
  have "srv_reach (demo_srv None [] Ticking ((pushed (canceled_msg demo_watcher) ?s)\<lparr>recvpc := VDone\<rparr>))" by simp
  moreover have "(pushed (canceled_msg demo_watcher) ?s)\<lparr>recvpc := VDone\<rparr> =
      (pushed (canceled_msg demo_watcher) demo_conn)\<lparr>recvpc := VDone, s_got := [demo_req, demo_cancel]\<rparr>"
    by (simp add: pushed_def)
  ultimately show ?thesis by simp
qed

text \<open>
  The send of the creation notice fails, \<^verbatim>\<open>sendLoop\<close> ends, and \<^verbatim>\<open>mockWatch\<close> fills the channel,
  one message a tick.
\<close>

definition demo_filled :: "nat \<Rightarrow> demo_err sws" where
  "demo_filled n = ((pushed (update_msg demo_watcher) ^^ n)
     (demo_conn\<lparr>watchStream := (watchStream demo_conn)\<lparr>buf := []\<rparr>, sendpc := PDone\<rparr>))"

lemma demo_filled_simps [simp]:
  "buf (watchStream (demo_filled n)) = replicate n (update_msg demo_watcher)"
  "sendpc (demo_filled n) = PDone" "chan_closed (watchStream (demo_filled n)) = False"
  by (induction n) (simp_all add: demo_filled_def replicate_append_same)

lemma demo_filled_Suc: "demo_filled (Suc n) = pushed (update_msg demo_watcher) (demo_filled n)"
  by (simp add: demo_filled_def)

lemma demo_ticked:
  assumes "srv_reach (demo_srv None [(''w'', demo_watcher)] Ticking s)"
  shows "srv_reach (demo_srv (Some ByMock) [(''w'', demo_watcher)] (Visiting [demo_watcher]) s)"
  using demo_act [OF assms sact.tick [where ws = "[demo_watcher]"]] by simp

lemma demo_filling: "n \<le> 16 \<Longrightarrow> srv_reach (demo_srv None [(''w'', demo_watcher)] Ticking (demo_filled n))"
proof (induction n)
  case 0
  have "srv_reach (demo_srv None [(''w'', demo_watcher)] Ticking
      (demo_conn\<lparr>watchStream := (watchStream demo_conn)\<lparr>buf := []\<rparr>, sendpc := PDone\<rparr>))"
    using demo_handler [OF demo_sending hact.send_fail [where x = "Some (created_msg demo_watcher)"]] by simp
  then show ?case by (simp add: demo_filled_def)
next
  case (Suc n)
  let ?ws = "[(''w'', demo_watcher)]"
  have 1: "srv_reach (demo_srv (Some ByMock) ?ws (Visiting [demo_watcher]) (demo_filled n))"
    using Suc by (simp add: demo_ticked)
  have "send_to 0 (update_msg demo_watcher) (demo_srv (Some ByMock) ?ws (Visiting [demo_watcher]) (demo_filled n)) =
      Ret (demo_srv (Some ByMock) ?ws (Visiting [demo_watcher]) (demo_filled (Suc n)))"
    unfolding demo_filled_Suc by (rule demo_send) (use Suc.prems in \<open>simp_all add: chan_cap_def\<close>)
  with demo_act [OF 1 sact.visit [where w = demo_watcher and ws = "[]"]]
  have 2: "srv_reach (demo_srv (Some ByMock) ?ws (Visiting []) (demo_filled (Suc n)))" by simp
  from demo_act [OF 2 sact.visited] show ?case by simp
qed

lemma demo_wedged:
  "srv_reach (demo_srv (Some ByMock) [(''w'', demo_watcher)] (Visiting [demo_watcher]) (demo_filled 16))"
  by (rule demo_ticked [OF demo_filling]) simp

section \<open>Properties of the server\<close>

text \<open>
  C9 (safety).  In every reachable state of the server, what gRPC was given on a stream is a
  prefix of what was put into the handler's channel, in that order and without repetition,
  the rest being at most one message in the hands of \<^verbatim>\<open>sendLoop\<close> and at most 16 in the
  buffer; and the first message a client ever receives is a creation notice.
\<close>

theorem server_responses_fifo:
  assumes "srv_reach \<sigma>" and "h < length (handlers \<sigma>)"
  shows "\<exists>xs. put (watchStream (handlers \<sigma> ! h)) =
      out (handlers \<sigma> ! h) @ xs @ buf (watchStream (handlers \<sigma> ! h)) \<and> length xs \<le> 1 \<and>
    length (buf (watchStream (handlers \<sigma> ! h))) \<le> 16 \<and>
    (out (handlers \<sigma> ! h) \<noteq> [] \<longrightarrow> created (hd (out (handlers \<sigma> ! h))))"
proof -
  have ok: "sws_ok (handlers \<sigma> ! h)" using srv_reach_inv [OF assms(1)] assms(2) by (rule srv_invD(1))
  then obtain xs where xs: "put (watchStream (handlers \<sigma> ! h)) =
      out (handlers \<sigma> ! h) @ xs @ buf (watchStream (handlers \<sigma> ! h))" "in_flight (sendpc (handlers \<sigma> ! h)) xs"
    by (auto simp: sws_ok_def)
  then have "length xs \<le> 1" by (cases "sendpc (handlers \<sigma> ! h)") (auto split: option.splits)
  with xs ok show ?thesis by (intro exI [of _ xs]) (auto simp: sws_ok_def chan_cap_def)
qed

theorem server_responses_fifo_witness:
  "\<exists>\<sigma>. srv_reach \<sigma> \<and> out (handlers \<sigma> ! 0) = [created_msg demo_watcher] \<and>
     created (hd (out (handlers (\<sigma> :: demo_err srv) ! 0)))"
proof -
  have "created (hd (out demo_told))"
    using server_responses_fifo [OF demo_delivered, of 0] by (auto simp: demo_told_def)
  with demo_delivered show ?thesis
    by (intro exI [of _ "demo_srv None [(''w'', demo_watcher)] Ticking demo_told"]) (simp add: demo_told_def)
qed

text \<open>A state reached from \<open>\<sigma>\<close> that differs in one handler, the mutex and the store only.\<close>

definition handler_at ::
    "'err srv \<Rightarrow> nat \<Rightarrow> 'err srv \<Rightarrow> 'err sws \<Rightarrow> holder option \<Rightarrow> watchers \<Rightarrow> bool" where
  "handler_at \<sigma> h \<tau> s m ws \<longleftrightarrow> srv_steps \<sigma> \<tau> \<and> s_crashed \<tau> = None \<and> handlers \<tau> = (handlers \<sigma>)[h := s] \<and>
    smu \<tau> = m \<and> watchers \<tau> = ws"

lemma handler_atD:
  assumes "handler_at \<sigma> h \<tau> s m ws" and "h < length (handlers \<sigma>)"
  shows "handlers \<tau> ! h = s" "smu \<tau> = m" "watchers \<tau> = ws" "s_crashed \<tau> = None" "handlers \<tau> = (handlers \<sigma>)[h := s]"
  using assms by (auto simp: handler_at_def)

lemma handler_at_act:
  assumes "handler_at \<sigma> h \<tau> s m ws" and "hact h \<tau> \<tau>'" and "h < length (handlers \<sigma>)"
    and "handlers \<tau>' = (handlers \<sigma>)[h := s']" "smu \<tau>' = m'" "watchers \<tau>' = ws'" "s_crashed \<tau>' = None"
  shows "handler_at \<sigma> h \<tau>' s' m' ws'"
  using assms srv_steps_snoc [of \<sigma> \<tau> \<tau>'] sact.handler [of h \<tau> \<tau>'] by (auto simp: handler_at_def)

lemma handler_at_upd:
  assumes "handler_at \<sigma> h \<tau> s m ws" and "hact h \<tau> (upd h f \<tau>)" and "h < length (handlers \<sigma>)"
  shows "\<exists>\<tau>'. handler_at \<sigma> h \<tau>' (f s) m ws"
  using handler_at_act [OF assms, of "f s" m ws] handler_atD [OF assms(1,3)] assms(3) by (auto simp: upd_def)

text \<open>
  C30 (liveness).  When a client's context ends, its handler can finish: with the mutex free,
  room in the channel and \<^verbatim>\<open>sendLoop\<close> at its select, it reaches its return with the client's
  watch removed from the store, the cancellation put into its channel, the mutex free and
  every other handler as it was.
\<close>

theorem ctx_end_cleans_up:
  fixes \<sigma> :: "'err srv"
  assumes "srv_reach \<sigma>" and "s_crashed \<sigma> = None" and "smu \<sigma> = None" and h: "h < length (handlers \<sigma>)"
    and "mainpc (handlers \<sigma> ! h) = MWait" and "s_over (handlers \<sigma> ! h)"
    and "sendpc (handlers \<sigma> ! h) = PLoop" and "length (buf (watchStream (handlers \<sigma> ! h))) < 16"
    and "mget (watchers \<sigma>) (s_watchID (handlers \<sigma> ! h)) = Some w" and "w_ch w = h"
  shows "\<exists>\<sigma>' e. srv_steps \<sigma> \<sigma>' \<and> mainpc (handlers \<sigma>' ! h) = MDone e \<and> smu \<sigma>' = None \<and>
    s_crashed \<sigma>' = None \<and> watchers \<sigma>' = mdel (s_watchID (handlers \<sigma> ! h)) (watchers \<sigma>) \<and>
    put (watchStream (handlers \<sigma>' ! h)) = put (watchStream (handlers \<sigma> ! h)) @ [canceled_msg w] \<and>
    (\<forall>k. k \<noteq> h \<longrightarrow> handlers \<sigma>' ! k = handlers \<sigma> ! k)"
proof -
  fix e :: 'err
  let ?s = "handlers \<sigma> ! h"
  let ?id = "s_watchID ?s"
  let ?ws = "watchers \<sigma>"
  have open': "\<not> chan_closed (watchStream ?s)"
    using srv_invD(1) [OF srv_reach_inv [OF assms(1)] h] assms(5) by (auto simp: sws_ok_def)
  let ?at = "handler_at \<sigma> h"
  note go = handler_at_act [OF _ _ h]
  note upd = handler_at_upd [OF _ _ h]
  note atD = handler_atD [OF _ h]
  let ?s1 = "?s\<lparr>mainpc := MCancel ?id e\<rparr>"
  let ?s2 = "?s\<lparr>mainpc := MNotify ?id w e\<rparr>"
  let ?s3 = "(pushed (canceled_msg w) ?s2)\<lparr>mainpc := MClose e\<rparr>"
  let ?s4 = "?s3\<lparr>closec := True, mainpc := MJoin e\<rparr>"
  let ?s5 = "?s4\<lparr>sendpc := PDone\<rparr>"
  let ?s6 = "?s5\<lparr>mainpc := MDone e\<rparr>"
  have 0: "?at \<sigma> ?s None ?ws" using assms by (simp add: handler_at_def)
  have "hact h \<sigma> (upd h (\<lambda>s. s\<lparr>mainpc := MCancel (s_watchID s) e\<rparr>) \<sigma>)"
    using assms(5,6) by (intro hact.main_ctx)
  from upd [OF 0 this] obtain \<tau>1 where 1: "?at \<tau>1 ?s1 None ?ws" by blast
  let ?\<tau>2 = "upd h (\<lambda>s. s\<lparr>mainpc := MNotify ?id w e\<rparr>) (\<tau>1\<lparr>smu := Some (ByMain h)\<rparr>)"
  have "hact h \<tau>1 ?\<tau>2" using atD [OF 1] assms(9) by (intro hact.main_hit) simp_all
  then have "?at ?\<tau>2 ?s2 (Some (ByMain h)) ?ws" by (rule go [OF 1]) (use atD [OF 1] h in simp_all)
  then obtain \<tau>2 where 2: "?at \<tau>2 ?s2 (Some (ByMain h)) ?ws" by blast
  have "send_to h (canceled_msg w) \<tau>2 = Ret (upd h (pushed (canceled_msg w)) \<tau>2)"
    using atD [OF 2] assms(8) open' by (simp add: send_to_Ret chan_cap_def)
  then have "hact h \<tau>2 (upd h (\<lambda>s. s\<lparr>mainpc := MClose e\<rparr>) (drop_watch ?id (upd h (pushed (canceled_msg w)) \<tau>2)))"
    (is "hact h \<tau>2 ?\<tau>3")
    using atD(1) [OF 2] assms(10) by (intro hact.main_notify [where wid = ?id and w = w and e = e]) auto
  then have "?at ?\<tau>3 ?s3 None (mdel ?id ?ws)"
    by (rule go [OF 2]) (use atD [OF 2] h in simp_all)
  then obtain \<tau>3 where 3: "?at \<tau>3 ?s3 None (mdel ?id ?ws)" by blast
  have "hact h \<tau>3 (upd h (\<lambda>s. s\<lparr>closec := True, mainpc := MJoin e\<rparr>) \<tau>3)"
    using atD(1) [OF 3] by (intro hact.main_close [where e = e]) simp
  from upd [OF 3 this] obtain \<tau>4 where 4: "?at \<tau>4 ?s4 None (mdel ?id ?ws)" by blast
  have "hact h \<tau>4 (upd h (\<lambda>s. s\<lparr>sendpc := PDone\<rparr>) \<tau>4)"
    using atD(1) [OF 4] assms(7) by (intro hact.send_closec) simp_all
  from upd [OF 4 this] obtain \<tau>5 where 5: "?at \<tau>5 ?s5 None (mdel ?id ?ws)" by blast
  have "hact h \<tau>5 (upd h (\<lambda>s. s\<lparr>mainpc := MDone e\<rparr>) \<tau>5)"
    using atD(1) [OF 5] by (intro hact.main_join [where e = e]) simp_all
  from upd [OF 5 this] obtain \<tau>6 where 6: "?at \<tau>6 ?s6 None (mdel ?id ?ws)" by blast
  from atD [OF this] this show ?thesis
    by (intro exI [of _ \<tau>6] exI [of _ e]) (simp add: handler_at_def)
qed

theorem ctx_end_cleans_up_witness:
  "\<exists>\<sigma> \<sigma>' e. srv_reach \<sigma> \<and> srv_steps \<sigma> \<sigma>' \<and> mainpc (handlers \<sigma>' ! 0) = MDone (e :: demo_err) \<and>
     watchers \<sigma>' = []"
  using ctx_end_cleans_up [OF demo_ctx_over, of 0 demo_watcher] demo_ctx_over by fastforce

text \<open>
  A failed receive brings the whole server down: when a handler's watch is in the
  store under its own channel and \<^verbatim>\<open>recvLoop\<close> reports an error, the handler closes the
  channel and then cancels the watch through it, which panics.
\<close>

theorem recv_error_panics_server:
  assumes "srv_reach \<sigma>" and "s_crashed \<sigma> = None" and "smu \<sigma> = None" and "h < length (handlers \<sigma>)"
    and "mainpc (handlers \<sigma> ! h) = MWait" and "s_errc (handlers \<sigma> ! h) = Some e"
    and "mget (watchers \<sigma>) (s_watchID (handlers \<sigma> ! h)) = Some w" and "w_ch w = h"
  shows "\<exists>\<sigma>'. srv_steps \<sigma> \<sigma>' \<and> s_crashed \<sigma>' = Some SendOnClosed"
proof -
  let ?s = "handlers \<sigma> ! h"
  let ?c = "(watchStream ?s)\<lparr>chan_closed := True\<rparr>"
  let ?\<sigma>1 = "upd h (\<lambda>s. s\<lparr>watchStream := ?c, s_errc := None, mainpc := MCancel (s_watchID s) e\<rparr>) \<sigma>"
  let ?\<sigma>2 = "upd h (\<lambda>s. s\<lparr>mainpc := MNotify (s_watchID ?s) w e\<rparr>) (?\<sigma>1\<lparr>smu := Some (ByMain h)\<rparr>)"
  have "\<not> chan_closed (watchStream ?s)"
    using srv_invD(1) [OF srv_reach_inv [OF assms(1)] assms(4)] assms(5) by (auto simp: sws_ok_def)
  then have "hact h \<sigma> ?\<sigma>1"
    using assms by (intro hact.main_err [where e = e]) (simp_all add: chan_close_def)
  then have 1: "srv_steps \<sigma> ?\<sigma>1" using assms(2,4) by (blast intro: srv_steps_snoc sact.handler srv_steps_refl)
  have "hact h ?\<sigma>1 ?\<sigma>2" using assms by (intro hact.main_hit) simp_all
  then have 2: "srv_steps \<sigma> ?\<sigma>2" using assms(2,4) by (intro srv_steps_snoc [OF 1] sact.handler) simp_all
  have "send_to h (canceled_msg w) ?\<sigma>2 = Panic SendOnClosed"
    using assms(4) by (simp add: send_to_def chan_send_def)
  then have "hact h ?\<sigma>2 (?\<sigma>2\<lparr>s_crashed := Some SendOnClosed\<rparr>)"
    using assms(4,8) by (intro hact.main_notify [where w = w and e = e and wid = "s_watchID ?s"]) simp_all
  then have "srv_steps \<sigma> (?\<sigma>2\<lparr>s_crashed := Some SendOnClosed\<rparr>)"
    using assms(2,4) by (intro srv_steps_snoc [OF 2] sact.handler) simp_all
  then show ?thesis by (intro exI [of _ "?\<sigma>2\<lparr>s_crashed := Some SendOnClosed\<rparr>"]) simp
qed

theorem recv_error_panics_server_witness:
  "\<exists>\<sigma> \<sigma>'. srv_reach (\<sigma> :: demo_err srv) \<and> s_crashed \<sigma> = None \<and> srv_steps \<sigma> \<sigma>' \<and> s_crashed \<sigma>' = Some SendOnClosed"
  using recv_error_panics_server [OF demo_recv_failed [of "PlainErr ''io''"], of 0]
    demo_recv_failed [of "PlainErr ''io''"] by fastforce






text \<open>
  A handler whose receive loop ended without an error, as it does after it has
  served a cancel request, does not return: it stays at its select as long as the client's
  context lives.
\<close>

theorem cancelled_handler_waits:
  assumes "srv_reach \<sigma>" and "h < length (handlers \<sigma>)" and "recvpc (handlers \<sigma> ! h) = VDone"
    and "s_errc (handlers \<sigma> ! h) = None" and "mainpc (handlers \<sigma> ! h) = MWait"
    and "srv_steps \<sigma> \<sigma>'" and "\<not> s_over (handlers \<sigma>' ! h)"
  shows "mainpc (handlers \<sigma>' ! h) = MWait \<and> s_errc (handlers \<sigma>' ! h) = None"
proof -
  let ?P = "\<lambda>\<rho>. over_at h \<rho> \<or> idle_handler h \<rho>"
  have "?P \<sigma>' \<and> srv_reach \<sigma>'"
  proof (rule srv_steps_inv [OF assms(6) _ assms(1)])
    show "?P \<sigma>" using assms(2-5) by (simp add: idle_handler_def)
    fix \<rho> \<rho>' assume "srv_reach \<rho>" and P: "?P \<rho>" and "srv_step \<rho> \<rho>'"
    then have act: "sact \<rho> \<rho>'" by (simp add: srv_step_def)
    show "?P \<rho>'"
    proof (cases "over_at h \<rho>")
      case True
      then show ?thesis using sact_over [OF act] by blast
    next
      case False
      with P have "idle_handler h \<rho>" "\<not> s_over (handlers \<rho> ! h)"
        by (auto simp: over_at_def idle_handler_def)
      then show ?thesis using sact_idle [OF act] by blast
    qed
  qed
  with assms(7) show ?thesis by (auto simp: over_at_def idle_handler_def)
qed

theorem cancelled_handler_waits_witness:
  "\<exists>\<sigma> :: demo_err srv. srv_reach \<sigma> \<and> watchers \<sigma> = [] \<and>
     (\<forall>\<sigma>'. srv_steps \<sigma> \<sigma>' \<and> \<not> s_over (handlers \<sigma>' ! 0) \<longrightarrow> mainpc (handlers \<sigma>' ! 0) = MWait)"
proof -
  let ?\<sigma> = "demo_srv None [] Ticking ((pushed (canceled_msg demo_watcher) demo_conn)\<lparr>recvpc := VDone,
    s_got := [demo_req, demo_cancel]\<rparr>)"
  have "mainpc (handlers \<sigma>' ! 0) = MWait" if "srv_steps ?\<sigma> \<sigma>'" "\<not> s_over (handlers \<sigma>' ! 0)" for \<sigma>'
    using cancelled_handler_waits [OF demo_canceled, of 0] that by simp
  with demo_canceled show ?thesis by (intro exI [of _ ?\<sigma>]) simp
qed

text \<open>
  One dead client can stop the store: once \<^verbatim>\<open>mockWatch\<close> is at a send to a full
  channel whose \<^verbatim>\<open>sendLoop\<close> has returned, it stays there with the mutex, and until a panic
  ends the program no watch is ever created or cancelled again.
\<close>

theorem dead_client_blocks_store:
  assumes "srv_reach \<sigma>" and "mock \<sigma> = Visiting (w # ws)"
    and "sendpc (handlers \<sigma> ! w_ch w) = PDone" and "length (buf (watchStream (handlers \<sigma> ! w_ch w))) = 16"
    and "srv_steps \<sigma> \<sigma>'"
  shows "s_crashed \<sigma>' \<noteq> None \<or>
    (mock \<sigma>' = Visiting (w # ws) \<and> smu \<sigma>' = Some ByMock \<and> watchers \<sigma>' = watchers \<sigma>)"
proof -
  let ?P = "\<lambda>\<rho>. s_crashed \<rho> \<noteq> None \<or> (wedged w ws \<rho> \<and> watchers \<rho> = watchers \<sigma>)"
  have "?P \<sigma>' \<and> srv_reach \<sigma>'"
  proof (rule srv_steps_inv [OF assms(5) _ assms(1)])
    have "started \<sigma> w" using srv_reach_inv [OF assms(1)] assms(2) by (simp add: srv_inv_def)
    with assms(2-4) show "?P \<sigma>" by (simp add: wedged_def started_def chan_cap_def)
    show "?P \<rho>'" if "srv_reach \<rho>" "?P \<rho>" "srv_step \<rho> \<rho>'" for \<rho> \<rho>'
      using that wedged_step [OF _ srv_reach_inv, of \<rho> \<rho>' w ws] by (auto simp: srv_step_def)
  qed
  then have P: "?P \<sigma>'" "srv_inv \<sigma>'" using srv_reach_inv by blast+
  then show ?thesis by (auto simp: wedged_def srv_inv_def)
qed

theorem dead_client_blocks_store_witness:
  "\<exists>\<sigma> :: demo_err srv. srv_reach \<sigma> \<and> s_crashed \<sigma> = None \<and>
     (\<forall>\<sigma>'. srv_steps \<sigma> \<sigma>' \<longrightarrow> s_crashed \<sigma>' \<noteq> None \<or> smu \<sigma>' = Some ByMock)"
proof -
  let ?\<sigma> = "demo_srv (Some ByMock) [(''w'', demo_watcher)] (Visiting [demo_watcher]) (demo_filled 16)"
  have "s_crashed \<sigma>' \<noteq> None \<or> smu \<sigma>' = Some ByMock" if "srv_steps ?\<sigma> \<sigma>'" for \<sigma>'
    using dead_client_blocks_store [OF demo_wedged, of demo_watcher "[]"] that by auto
  with demo_wedged show ?thesis by (intro exI [of _ ?\<sigma>]) simp
qed

end
