(* ===== verification/ServerApps.thy ===== *)
theory ServerApps
  imports ServerProps
begin

text \<open>
  Where the server's messages come from: every message in a handler's channel is about the app
  of a watcher that writes to this channel, and watchers come from create requests only.
\<close>

section \<open>The watchers of a server\<close>

fun recv_wats :: "recv_pc \<Rightarrow> watcher set" where
  "recv_wats (VCreate wid w) = {w}"
| "recv_wats (VStore wid w) = {w}"
| "recv_wats (VNotify wid w) = {w}"
| "recv_wats _ = {}"

fun main_wats :: "'err main_pc \<Rightarrow> watcher set" where
  "main_wats (MNotify wid w e) = {w}"
| "main_wats _ = {}"

fun mock_wats :: "mock_pc \<Rightarrow> watcher set" where
  "mock_wats (Visiting ws) = set ws"
| "mock_wats Ticking = {}"

definition handler_wats :: "'err sws \<Rightarrow> watcher set" where
  "handler_wats s = recv_wats (recvpc s) \<union> main_wats (mainpc s)"

definition wats :: "'err srv \<Rightarrow> watcher set" where
  "wats \<sigma> = snd ` set (watchers \<sigma>) \<union> (\<Union>s \<in> set (handlers \<sigma>). handler_wats s) \<union> mock_wats (mock \<sigma>)"

lemma wats_simps [simp]:
  "wats (\<sigma>\<lparr>smu := m\<rparr>) = wats \<sigma>" "wats (\<sigma>\<lparr>s_crashed := p\<rparr>) = wats \<sigma>"
  "wats (\<sigma>\<lparr>handlers := handlers \<sigma> @ [new_sws]\<rparr>) = wats \<sigma>" "wats newWatcherStore = {}"
  by (simp_all add: wats_def handler_wats_def new_sws_def newWatcherStore_def)

lemma wats_upd: "wats (upd h f \<sigma>) \<subseteq> wats \<sigma> \<union> handler_wats (f (handlers \<sigma> ! h))"
  using set_update_subset_insert [of "handlers \<sigma>" h "f (handlers \<sigma> ! h)"] by (auto simp: wats_def)

lemma wats_handler: "h < length (handlers \<sigma>) \<Longrightarrow> handler_wats (handlers \<sigma> ! h) \<subseteq> wats \<sigma>"
  by (auto simp: wats_def)

lemma wats_upd_same:
  assumes "h < length (handlers \<sigma>)" and "handler_wats (f (handlers \<sigma> ! h)) \<subseteq> handler_wats (handlers \<sigma> ! h) \<union> W"
  shows "wats (upd h f \<sigma>) \<subseteq> wats \<sigma> \<union> W"
  using wats_upd [of h f \<sigma>] wats_handler [OF assms(1)] assms(2) by blast

lemma wats_pushed: "wats (upd h (pushed r) \<sigma>) \<subseteq> wats \<sigma>"
  using wats_upd_same [of h \<sigma> "pushed r" "{}"]
  by (cases "h < length (handlers \<sigma>)") (auto simp: handler_wats_def upd_def list_update_beyond)

lemma wats_store: "wats (store_watch wid w \<sigma>) \<subseteq> insert w (wats \<sigma>)" "wats (drop_watch wid \<sigma>) \<subseteq> wats \<sigma>"
  by (auto simp: wats_def store_watch_def drop_watch_def dest: mput_memD mdel_memD)

lemma wats_sent: "send_to ch r \<sigma> = Ret \<rho> \<Longrightarrow> wats \<rho> \<subseteq> wats \<sigma>"
  using wats_pushed by (auto simp: send_to_Ret)

lemma wats_mget: "mget (watchers \<sigma>) wid = Some w \<Longrightarrow> w \<in> wats \<sigma>"
  by (force simp: wats_def dest: map_of_SomeD)

lemma wats_becomes: "becomes \<sigma> r \<sigma>' \<Longrightarrow> (\<And>\<rho>. r = Ret \<rho> \<Longrightarrow> wats \<rho> \<subseteq> W) \<Longrightarrow> wats \<sigma> \<subseteq> W \<Longrightarrow> wats \<sigma>' \<subseteq> W"
  by (auto elim!: becomes.cases)

lemma wats_notify:
  assumes "send_to ch r \<sigma> = Ret \<rho>" and "h < length (handlers \<sigma>)"
    and "handler_wats (f (handlers \<rho> ! h)) \<subseteq> handler_wats (handlers \<rho> ! h)"
  shows "wats (upd h f (drop_watch wid \<rho>)) \<subseteq> wats \<sigma>"
proof -
  have "h < length (handlers (drop_watch wid \<rho>))" using assms(1,2) by (auto simp: send_to_Ret)
  then have "wats (upd h f (drop_watch wid \<rho>)) \<subseteq> wats (drop_watch wid \<rho>) \<union> {}"
    using assms(3) by (intro wats_upd_same) simp_all
  then show ?thesis using wats_sent [OF assms(1)] wats_store(2) [of wid \<rho>] by blast
qed

text \<open>New watchers come from a request that is received.\<close>

definition born :: "nat \<Rightarrow> 'err srv \<Rightarrow> 'err srv \<Rightarrow> watcher set" where
  "born h \<sigma> \<sigma>' = {w. \<exists>wid. recvpc (handlers \<sigma> ! h) = VRecv \<and> recvpc (handlers \<sigma>' ! h) = VCreate wid w}"

lemma hact_wats:
  assumes "hact h \<sigma> \<sigma>'" and inv: "srv_inv \<sigma>" and h: "h < length (handlers \<sigma>)"
  shows "wats \<sigma>' \<subseteq> wats \<sigma> \<union> born h \<sigma> \<sigma>'"
  using assms(1)
proof (induction rule: hact.induct)
  case (recv_req req \<sigma>')
  show ?case
  proof (rule wats_becomes [OF recv_req(2)])
    fix \<rho>
    assume "obind (recv_request h req) (\<lambda>a. Ret (recv_next h a (took h req \<sigma>))) = Ret \<rho>"
    moreover from this recv_req(2) have "\<sigma>' = \<rho>" by (auto elim: becomes.cases)
    ultimately obtain a where "\<sigma>' = \<rho>" "\<rho> = recv_next h a (took h req \<sigma>)" by auto
    let ?f = "\<lambda>s. s\<lparr>s_got := s_got s @ [req], recvpc := case a of Ignore \<Rightarrow> VRecv | Leave \<Rightarrow> VDone
      | DoCreate wid w \<Rightarrow> VCreate wid w | DoCancel wid \<Rightarrow> VCancel wid\<rparr>"
    have \<rho>: "\<sigma>' = \<rho>" "\<rho> = upd h ?f \<sigma>"
      using \<open>\<sigma>' = \<rho>\<close> \<open>\<rho> = recv_next h a (took h req \<sigma>)\<close> by (simp_all add: recv_next_took)
    then have "handler_wats (?f (handlers \<sigma> ! h)) \<subseteq> handler_wats (handlers \<sigma> ! h) \<union> born h \<sigma> \<sigma>'"
      using h recv_req(1) by (cases a) (simp_all add: handler_wats_def born_def)
    from wats_upd_same [of h \<sigma> ?f, OF h this] \<rho> show "wats \<rho> \<subseteq> wats \<sigma> \<union> born h \<sigma> \<sigma>'" by simp
  next
    show "wats (took h req \<sigma>) \<subseteq> wats \<sigma> \<union> born h \<sigma> \<sigma>'"
      unfolding took_def by (rule wats_upd_same [OF h]) (simp add: handler_wats_def)
  qed
next
  case (create_send wid w \<sigma>')
  show ?case
  proof (rule wats_becomes [OF create_send(2)])
    fix \<rho>'
    assume "obind (send_to (w_ch w) (created_msg w) \<sigma>) (\<lambda>\<rho>. Ret (upd h (\<lambda>s. s\<lparr>recvpc := VStore wid w\<rparr>) \<rho>)) = Ret \<rho>'"
    then obtain \<rho> where \<rho>: "send_to (w_ch w) (created_msg w) \<sigma> = Ret \<rho>"
      and eq: "\<rho>' = upd h (\<lambda>s. s\<lparr>recvpc := VStore wid w\<rparr>) \<rho>" by auto
    have "w \<in> wats \<sigma>" using wats_handler [OF h] create_send(1) by (auto simp: handler_wats_def)
    moreover have "h < length (handlers \<rho>)" using \<rho> h by (auto simp: send_to_Ret)
    then have "wats \<rho>' \<subseteq> wats \<rho> \<union> {w}"
      unfolding eq by (rule wats_upd_same) (auto simp: handler_wats_def)
    ultimately show "wats \<rho>' \<subseteq> wats \<sigma> \<union> born h \<sigma> \<sigma>'" using wats_sent [OF \<rho>] by blast
  qed simp
next
  case (create_store wid w)
  have "w \<in> wats \<sigma>" using wats_handler [OF h] create_store(1) by (auto simp: handler_wats_def)
  moreover have "wats (upd h (\<lambda>s. s\<lparr>s_watchID := wid, recvpc := VRecv\<rparr>) (store_watch wid w \<sigma>)) \<subseteq> wats (store_watch wid w \<sigma>) \<union> {}"
    using h by (intro wats_upd_same) (auto simp: handler_wats_def)
  ultimately show ?case using wats_store(1) [of wid w \<sigma>] by blast
next
  case (cancel_hit wid w)
  have "wats (upd h (\<lambda>s. s\<lparr>recvpc := VNotify wid w\<rparr>) (\<sigma>\<lparr>smu := Some (ByRecv h)\<rparr>)) \<subseteq> wats (\<sigma>\<lparr>smu := Some (ByRecv h)\<rparr>) \<union> {w}"
    using h by (intro wats_upd_same) (auto simp: handler_wats_def)
  with wats_mget [OF cancel_hit(3)] show ?case by auto
next
  case (cancel_miss wid)
  have "wats (upd h (\<lambda>s. s\<lparr>recvpc := VDone\<rparr>) (drop_watch wid \<sigma>)) \<subseteq> wats (drop_watch wid \<sigma>) \<union> {}"
    using h by (intro wats_upd_same) (auto simp: handler_wats_def)
  with wats_store(2) [of wid \<sigma>] show ?case by blast
next
  case (cancel_notify wid w \<sigma>')
  show ?case
  proof (rule wats_becomes [OF cancel_notify(2)])
    fix \<rho>'
    assume "obind (send_to (w_ch w) (canceled_msg w) \<sigma>)
      (\<lambda>\<rho>. Ret (upd h (\<lambda>s. s\<lparr>recvpc := VDone\<rparr>) (drop_watch wid \<rho>))) = Ret \<rho>'"
    then show "wats \<rho>' \<subseteq> wats \<sigma> \<union> born h \<sigma> \<sigma>'"
      using wats_notify [OF _ h, of "w_ch w" "canceled_msg w" _ "\<lambda>s. s\<lparr>recvpc := VDone\<rparr>" wid]
      by (auto simp: handler_wats_def)
  qed simp
next
  case (main_err e \<sigma>')
  show ?case
  proof (rule wats_becomes [OF main_err(3)])
    fix \<rho>
    assume "obind (chan_close (watchStream (handlers \<sigma> ! h)))
      (\<lambda>c. Ret (upd h (\<lambda>s. s\<lparr>watchStream := c, s_errc := None, mainpc := MCancel (s_watchID s) e\<rparr>) \<sigma>)) = Ret \<rho>"
    then obtain c where "\<rho> = upd h (\<lambda>s. s\<lparr>watchStream := c, s_errc := None, mainpc := MCancel (s_watchID s) e\<rparr>) \<sigma>" by auto
    then show "wats \<rho> \<subseteq> wats \<sigma> \<union> born h \<sigma> \<sigma>'"
      using wats_upd_same [OF h, of "\<lambda>s. s\<lparr>watchStream := c, s_errc := None, mainpc := MCancel (s_watchID s) e\<rparr>" "{}"]
      by (auto simp: handler_wats_def)
  qed simp
next
  case (main_hit wid e w)
  have "wats (upd h (\<lambda>s. s\<lparr>mainpc := MNotify wid w e\<rparr>) (\<sigma>\<lparr>smu := Some (ByMain h)\<rparr>)) \<subseteq> wats (\<sigma>\<lparr>smu := Some (ByMain h)\<rparr>) \<union> {w}"
    using h by (intro wats_upd_same) (auto simp: handler_wats_def)
  with wats_mget [OF main_hit(3)] show ?case by auto
next
  case (main_miss wid e)
  have "wats (upd h (\<lambda>s. s\<lparr>mainpc := MClose e\<rparr>) (drop_watch wid \<sigma>)) \<subseteq> wats (drop_watch wid \<sigma>) \<union> {}"
    using h by (intro wats_upd_same) (auto simp: handler_wats_def)
  with wats_store(2) [of wid \<sigma>] show ?case by blast
next
  case (main_notify wid w e \<sigma>')
  show ?case
  proof (rule wats_becomes [OF main_notify(2)])
    fix \<rho>'
    assume "obind (send_to (w_ch w) (canceled_msg w) \<sigma>)
      (\<lambda>\<rho>. Ret (upd h (\<lambda>s. s\<lparr>mainpc := MClose e\<rparr>) (drop_watch wid \<rho>))) = Ret \<rho>'"
    then show "wats \<rho>' \<subseteq> wats \<sigma> \<union> born h \<sigma> \<sigma>'"
      using wats_notify [OF _ h, of "w_ch w" "canceled_msg w" _ "\<lambda>s. s\<lparr>mainpc := MClose e\<rparr>" wid]
      by (auto simp: handler_wats_def)
  qed simp
qed (rule order_trans [OF wats_upd_same [OF h, where W = "{}"]]; auto simp: handler_wats_def)+

lemma sact_wats:
  assumes "sact \<sigma> \<sigma>'" and inv: "srv_inv \<sigma>"
  shows "wats \<sigma>' \<subseteq> wats \<sigma> \<union> (\<Union>h < length (handlers \<sigma>). born h \<sigma> \<sigma>')"
  using assms(1)
proof (induction rule: sact.induct)
  case (handler h \<sigma>')
  with hact_wats [OF handler(2) inv handler(1)] show ?case by blast
next
  case (tick ws)
  then have "set ws = snd ` set (watchers \<sigma>)" unfolding vals_def by (metis set_image_mset set_mset_mset)
  then show ?case by (auto simp: wats_def)
next
  case (visit w ws \<sigma>')
  have "wats \<sigma>' \<subseteq> wats \<sigma>"
  proof (rule wats_becomes [OF visit(2)])
    fix \<rho>'
    assume "obind (send_to (w_ch w) (update_msg w) \<sigma>) (\<lambda>\<rho>. Ret (\<rho>\<lparr>mock := Visiting ws\<rparr>)) = Ret \<rho>'"
    then obtain \<rho> where \<rho>: "send_to (w_ch w) (update_msg w) \<sigma> = Ret \<rho>" and eq: "\<rho>' = \<rho>\<lparr>mock := Visiting ws\<rparr>" by auto
    have "mock \<rho> = mock \<sigma>" using \<rho> by (auto simp: send_to_Ret)
    then have "wats \<rho>' \<subseteq> wats \<rho>" using visit(1) by (auto simp: eq wats_def)
    then show "wats \<rho>' \<subseteq> wats \<sigma>" using wats_sent [OF \<rho>] by blast
  qed simp
  then show ?case by blast
next
  case visited
  then show ?case by (auto simp: wats_def)
qed simp

section \<open>The messages of a server\<close>

text \<open>A new message of a channel is about the app of a watcher that writes to it.\<close>

definition from_wats :: "'err srv \<Rightarrow> 'err srv \<Rightarrow> bool" where
  "from_wats \<sigma> \<sigma>' \<longleftrightarrow> length (handlers \<sigma>) \<le> length (handlers \<sigma>') \<and>
     (\<forall>j < length (handlers \<sigma>'). \<exists>rs.
        put (watchStream (handlers \<sigma>' ! j)) = (if j < length (handlers \<sigma>) then put (watchStream (handlers \<sigma> ! j)) else []) @ rs \<and>
        (\<forall>r \<in> set rs. \<exists>w \<in> wats \<sigma>. w_ch w = j \<and> resp_app r = Some (watcher_app w)))"

definition puts :: "'err srv \<Rightarrow> WatchResponse list list" where
  "puts \<sigma> = map (\<lambda>s. put (watchStream s)) (handlers \<sigma>)"

lemma puts_nth: "j < length (handlers \<sigma>) \<Longrightarrow> puts \<sigma> ! j = put (watchStream (handlers \<sigma> ! j))"
  by (simp add: puts_def)

lemma puts_length [simp]: "length (puts \<sigma>) = length (handlers \<sigma>)"
  by (simp add: puts_def)

lemma from_wats_same:
  assumes "puts \<sigma>' = puts \<sigma>"
  shows "from_wats \<sigma> \<sigma>'"
proof -
  have "length (handlers \<sigma>') = length (handlers \<sigma>)" using assms by (metis puts_length)
  moreover from this have "put (watchStream (handlers \<sigma>' ! j)) = put (watchStream (handlers \<sigma> ! j))"
    if "j < length (handlers \<sigma>)" for j
    using that puts_nth [of j \<sigma>] puts_nth [of j \<sigma>'] assms by simp
  ultimately show ?thesis by (simp add: from_wats_def)
qed

lemma puts_upd:
  "put (watchStream (f (handlers \<sigma> ! h))) = put (watchStream (handlers \<sigma> ! h)) \<Longrightarrow> puts (upd h f \<sigma>) = puts \<sigma>"
  by (cases "h < length (handlers \<sigma>)") (simp_all add: puts_def map_update list_update_same_conv list_update_beyond)

lemma puts_simps [simp]:
  "puts (drop_watch wid \<sigma>) = puts \<sigma>" "puts (store_watch wid w \<sigma>) = puts \<sigma>" "puts (\<sigma>\<lparr>smu := m\<rparr>) = puts \<sigma>"
  "puts (\<sigma>\<lparr>s_crashed := c\<rparr>) = puts \<sigma>" "puts (\<sigma>\<lparr>mock := k\<rparr>) = puts \<sigma>"
  by (simp_all add: puts_def)

lemma from_wats_send:
  assumes "send_to (w_ch w) r \<sigma> = Ret \<rho>" and "w \<in> wats \<sigma>" and "resp_app r = Some (watcher_app w)"
    and "puts \<sigma>' = puts \<rho>"
  shows "from_wats \<sigma> \<sigma>'"
proof -
  have \<rho>: "\<rho> = upd (w_ch w) (pushed r) \<sigma>" using assms(1) by (simp add: send_to_Ret)
  then have len: "length (handlers \<sigma>') = length (handlers \<sigma>)" using assms(4) by (metis length_list_update puts_length upd_simps(1))
  have nth: "put (watchStream (handlers \<sigma>' ! j)) = put (watchStream (handlers \<rho> ! j))" if "j < length (handlers \<sigma>)" for j
    using that puts_nth [of j \<sigma>'] puts_nth [of j \<rho>] assms(4) len \<rho> by simp
  have "\<exists>rs. put (watchStream (handlers \<sigma>' ! j)) = put (watchStream (handlers \<sigma> ! j)) @ rs \<and>
      (\<forall>r \<in> set rs. \<exists>w \<in> wats \<sigma>. w_ch w = j \<and> resp_app r = Some (watcher_app w))" if "j < length (handlers \<sigma>)" for j
  proof (cases "j = w_ch w")
    case True
    then show ?thesis using that nth [OF that] assms(2,3) by (intro exI [of _ "[r]"]) (auto simp: \<rho>)
  next
    case False
    then have "handlers \<rho> ! j = handlers \<sigma> ! j" by (simp add: \<rho>)
    then show ?thesis using nth [OF that] by simp
  qed
  then show ?thesis using len by (simp add: from_wats_def)
qed

lemma from_wats_becomes:
  "becomes \<sigma> r \<sigma>' \<Longrightarrow> (\<And>\<rho>. r = Ret \<rho> \<Longrightarrow> from_wats \<sigma> \<rho>) \<Longrightarrow> from_wats \<sigma> \<sigma>'"
  by (auto elim!: becomes.cases intro: from_wats_same)

lemma hact_puts:
  assumes "hact h \<sigma> \<sigma>'" and inv: "srv_inv \<sigma>" and h: "h < length (handlers \<sigma>)"
  shows "from_wats \<sigma> \<sigma>'"
  using assms(1)
proof (induction rule: hact.induct)
  case (recv_req req \<sigma>')
  have "puts \<sigma>' = puts \<sigma>"
    using recv_req(2)
  proof (cases rule: becomes_cases)
    case Ret
    then show ?thesis by (auto simp: recv_next_took puts_upd)
  qed (simp add: took_def puts_upd)
  then show ?case by (rule from_wats_same)
next
  case (create_send wid w \<sigma>')
  have w: "w \<in> wats \<sigma>" using wats_handler [OF h] create_send(1) by (auto simp: handler_wats_def)
  show ?case by (rule from_wats_becomes [OF create_send(2)])
      (auto simp: puts_upd intro!: from_wats_send [OF _ w])
next
  case (cancel_notify wid w \<sigma>')
  have w: "w \<in> wats \<sigma>" using wats_handler [OF h] cancel_notify(1) by (auto simp: handler_wats_def)
  show ?case by (rule from_wats_becomes [OF cancel_notify(2)])
      (auto simp: puts_upd intro!: from_wats_send [OF _ w])
next
  case (main_notify wid w e \<sigma>')
  have w: "w \<in> wats \<sigma>" using wats_handler [OF h] main_notify(1) by (auto simp: handler_wats_def)
  show ?case by (rule from_wats_becomes [OF main_notify(2)])
      (auto simp: puts_upd intro!: from_wats_send [OF _ w])
next
  case (main_err e \<sigma>')
  show ?case by (rule from_wats_becomes [OF main_err(3)])
      (auto simp: chan_close_def puts_upd intro!: from_wats_same split: if_splits)
qed (auto intro!: from_wats_same simp: puts_upd chan_recv_Ret)

lemma sact_puts:
  assumes "sact \<sigma> \<sigma>'" and inv: "srv_inv \<sigma>"
  shows "from_wats \<sigma> \<sigma>'"
  using assms(1)
proof (induction rule: sact.induct)
  case accept
  then show ?case by (auto simp: from_wats_def nth_append new_sws_def make_chan_def)
next
  case (handler h \<sigma>')
  then show ?case using hact_puts [OF _ inv] by blast
next
  case (visit w ws \<sigma>')
  have w: "w \<in> wats \<sigma>" using visit(1) by (auto simp: wats_def)
  show ?case by (rule from_wats_becomes [OF visit(2)]) (auto intro!: from_wats_send [OF _ w])
qed (auto intro!: from_wats_same)

text \<open>What a watcher in play knows of its handler.\<close>

lemma wats_ch:
  assumes inv: "srv_inv \<sigma>" and w: "w \<in> wats \<sigma>"
  shows "w_ch w < length (handlers \<sigma>)"
proof -
  have st: "w_ch w < length (handlers \<sigma>)" if "started \<sigma> w" using that by (simp add: started_def)
  consider "w \<in> snd ` set (watchers \<sigma>)" | "w \<in> mock_wats (mock \<sigma>)"
    | h where "h < length (handlers \<sigma>)" "w \<in> recv_wats (recvpc (handlers \<sigma> ! h))"
    | h where "h < length (handlers \<sigma>)" "w \<in> main_wats (mainpc (handlers \<sigma> ! h))"
    using w by (auto simp: wats_def handler_wats_def in_set_conv_nth)
  then show ?thesis
  proof cases
    case 1
    then show ?thesis using inv st by (auto simp: srv_inv_def store_ok_def)
  next
    case 2
    then show ?thesis using inv st by (cases "mock \<sigma>") (auto simp: srv_inv_def)
  next
    case (3 h)
    then show ?thesis using srv_invD(2) [OF inv 3(1)] st store_started [OF inv]
      by (cases "recvpc (handlers \<sigma> ! h)") auto
  next
    case (4 h)
    then show ?thesis using srv_invD(3) [OF inv 4(1)] st store_started [OF inv]
      by (cases "mainpc (handlers \<sigma> ! h)") auto
  qed
qed

end
