(* ===== verification/WatchNet.thy ===== *)
theory WatchNet
  imports WatcherProps ServerApps "HOL-Library.Sublist"
begin

text \<open>
  The watch client and the watch server together: any interleaving of a \<^verbatim>\<open>Watcher\<close> (WatchSys)
  with a server (WatchServer) that other clients use too, over gRPC streams that deliver
  requests and responses in the order they were sent.
\<close>

section \<open>What a stream sends\<close>

definition own_req :: "'err wgs \<Rightarrow> WatchRequest \<Rightarrow> bool" where
  "own_req w q \<longleftrightarrow> q = toPB_create (wgs_initReq w) \<or> (\<exists>c. q = toPB (Cancel c))"

definition stream_grows :: "'err wgs \<Rightarrow> 'err wgs \<Rightarrow> bool" where
  "stream_grows w w' \<longleftrightarrow> wgs_initReq w' = wgs_initReq w \<and> length (serves w) \<le> length (serves w') \<and>
     prefix (recvd w) (recvd w') \<and> (\<forall>x \<in> set (requested w'). x \<in> set (requested w) \<or> own_req w (snd x))"

lemma stream_grows_refl [simp]: "stream_grows w w"
  by (simp add: stream_grows_def)

lemma sstep_grows: "sstep g pdone w w' \<Longrightarrow> stream_grows w w'"
  by (induction rule: sstep.induct) (auto simp: stream_grows_def own_req_def requested_def split: run_pc.splits)

lemma op_grows:
  "stream_grows w (take_req k (close_req wid) w)" "stream_grows w (cancel_ctx w)" "close_donec w = Ret w' \<Longrightarrow> stream_grows w w'"
  "wgs_initReq w = wr \<Longrightarrow> stream_grows w (take_req k (Create wr) w\<lparr>handed := True\<rparr>)"
  by (auto simp: stream_grows_def own_req_def requested_def take_req_def cancel_ctx_def close_donec_def close_req_def split: if_splits)

lemma stream_grows_update: "stream_grows (xs ! s') w \<Longrightarrow> stream_grows (xs ! s) (xs[s' := w] ! s)"
  by (cases "s' = s"; cases "s < length xs") (auto simp: list_update_beyond)

lemma done_grows: "close_donec_at s' \<sigma> = Ret \<rho> \<Longrightarrow> stream_grows (heap \<sigma> ! s) (heap \<rho> ! s)"
  by (cases "close_donec (heap \<sigma> ! s')") (auto simp: close_donec_at_def intro!: stream_grows_update intro: op_grows(3))

lemma wact_grows:
  assumes "wact g \<sigma> \<sigma>'" and "sys_inv \<sigma>" and "s < length (heap \<sigma>)"
  shows "stream_grows (heap \<sigma> ! s) (heap \<sigma>' ! s)"
  using assms
proof (induction rule: wact.induct)
  case (stream s' w)
  then show ?case using sstep_grows [OF stream(2)] by (auto intro: stream_grows_update)
next
  case (watch_sent t s' wid c app k wr)
  have "wgs_initReq (heap \<sigma> ! s') = wr" using sys_invD(1) [OF watch_sent(4), of t] watch_sent(1,3) by simp
  then show ?case by (auto intro!: stream_grows_update op_grows(4))
next
  case (close_done t s' wid)
  then show ?case by (cases "close_donec_at s' \<sigma>") (auto dest: done_grows)
next
  case (shut_done t s' wid xs)
  then show ?case by (cases "close_donec_at s' \<sigma>") (auto dest: done_grows)
next
  case (run_close s')
  show ?case
  proof (cases "close_donec (heap \<sigma> ! s')")
    case (Ret w)
    have "stream_grows (heap \<sigma> ! s') (cancel_ctx w\<lparr>run := RExit\<rparr>)"
      using op_grows(3) [OF Ret] by (auto simp: stream_grows_def cancel_ctx_def requested_def)
    with Ret show ?thesis by (auto simp: closeStream_def Let_def intro: stream_grows_update)
  qed (auto simp: closeStream_def Let_def)
qed (auto simp: Watch_locked_def CloseStream_locked_def Close_locked_def
    Let_def nth_append intro: stream_grows_update op_grows split: option.splits)

lemma wact_new_streams:
  assumes "wact g \<sigma> \<sigma>'" and "length (heap \<sigma>) \<le> s" and "s < length (heap \<sigma>')"
  shows "serves (heap \<sigma>' ! s) = [] \<and> recvd (heap \<sigma>' ! s) = [] \<and> requested (heap \<sigma>' ! s) = []"
  using assms
proof (induction rule: wact.induct)
  case (close_done t s' wid)
  then show ?case by (cases "close_donec (heap \<sigma> ! s')") (auto simp: close_donec_at_def)
next
  case (shut_done t s' wid xs)
  then show ?case by (cases "close_donec (heap \<sigma> ! s')") (auto simp: close_donec_at_def)
next
  case (run_close s')
  then show ?case by (cases "close_donec (heap \<sigma> ! s')") (auto simp: closeStream_def Let_def)
qed (auto simp: Watch_locked_def CloseStream_locked_def Close_locked_def newWatcherGrpcStream_def
    requested_def Let_def nth_append split: option.splits if_splits)

section \<open>The system\<close>

text \<open>
  Handler \<open>h\<close> of the server serves the connection \<open>links ! h\<close>, a connection of a stream of
  the client or of somebody else (None); \<open>arrived h\<close> of the responses it has sent have been
  received, \<open>asked h\<close> of the requests sent on its connection have been read.
\<close>

record 'err net =
  cli :: "'err sys"
  srvr :: "'err srv"
  links :: "(nat \<times> nat) option list"
  arrived :: "nat \<Rightarrow> nat"
  asked :: "nat \<Rightarrow> nat"

definition net_init :: "'err net" where
  "net_init = \<lparr>cli = fresh_watcher, srvr = newWatcherStore, links = [], arrived = (\<lambda>_. 0), asked = (\<lambda>_. 0)\<rparr>"

text \<open>
  A step of the client alone receives nothing, and one of the server alone takes no request
  from the client's connections, though the handler may find such a connection ended.
\<close>

definition quiet_cli :: "'err sys \<Rightarrow> 'err sys \<Rightarrow> bool" where
  "quiet_cli c c' \<longleftrightarrow> (\<forall>s < length (heap c). recvd (heap c' ! s) = recvd (heap c ! s))"

definition quiet_srv :: "(nat \<times> nat) option list \<Rightarrow> 'err srv \<Rightarrow> 'err srv \<Rightarrow> bool" where
  "quiet_srv ls v v' \<longleftrightarrow> length (handlers v') = length (handlers v) \<and>
     (\<forall>h < length (handlers v). ls ! h \<noteq> None \<and> recvpc (handlers v ! h) = VRecv \<longrightarrow>
        recvpc (handlers v' ! h) \<in> {VRecv, VDone})"

definition receive_resp :: "nat \<Rightarrow> nat \<Rightarrow> WatchResponse \<Rightarrow> 'err sys \<Rightarrow> 'err sys" where
  "receive_resp s k r c = put_stream s (serve_to k (SResp r) ((heap c ! s)\<lparr>recvd := recvd (heap c ! s) @ [r]\<rparr>)) c"

inductive nact :: "'err grpc_errors \<Rightarrow> 'err net \<Rightarrow> 'err net \<Rightarrow> bool" for g N where
  client: "wstep g (cli N) c \<Longrightarrow> quiet_cli (cli N) c \<Longrightarrow> nact g N (N\<lparr>cli := c\<rparr>)"
| server: "srv_step (srvr N) v \<Longrightarrow> quiet_srv (links N) (srvr N) v \<Longrightarrow> nact g N (N\<lparr>srvr := v\<rparr>)"
| accept: "crashed (cli N) = None \<Longrightarrow> s_crashed (srvr N) = None \<Longrightarrow>
    l = Some (s, k) \<Longrightarrow> s < length (heap (cli N)) \<Longrightarrow> k < length (serves (heap (cli N) ! s)) \<Longrightarrow> l \<notin> set (links N) \<Longrightarrow>
    nact g N (N\<lparr>srvr := (srvr N)\<lparr>handlers := handlers (srvr N) @ [new_sws]\<rparr>, links := links N @ [l]\<rparr>)"
| accept_other: "s_crashed (srvr N) = None \<Longrightarrow>
    nact g N (N\<lparr>srvr := (srvr N)\<lparr>handlers := handlers (srvr N) @ [new_sws]\<rparr>, links := links N @ [None]\<rparr>)"
| request: "s_crashed (srvr N) = None \<Longrightarrow> h < length (handlers (srvr N)) \<Longrightarrow> links N ! h = Some (s, k) \<Longrightarrow>
    recvpc (handlers (srvr N) ! h) = VRecv \<Longrightarrow> asked N h < length (requests_on k (heap (cli N) ! s)) \<Longrightarrow>
    req = requests_on k (heap (cli N) ! s) ! asked N h \<Longrightarrow>
    becomes (took h req (srvr N)) (obind (recv_request h req)
      (\<lambda>a. Ret (recv_next h a (took h req (srvr N))))) v \<Longrightarrow>
    nact g N (N\<lparr>srvr := v, asked := (asked N)(h := Suc (asked N h))\<rparr>)"
| deliver: "crashed (cli N) = None \<Longrightarrow> h < length (handlers (srvr N)) \<Longrightarrow> links N ! h = Some (s, k) \<Longrightarrow>
    s < length (heap (cli N)) \<Longrightarrow> k < length (serves (heap (cli N) ! s)) \<Longrightarrow> serves (heap (cli N) ! s) ! k = SRecv \<Longrightarrow>
    arrived N h < length (out (handlers (srvr N) ! h)) \<Longrightarrow>
    nact g N (N\<lparr>cli := receive_resp s k (out (handlers (srvr N) ! h) ! arrived N h) (cli N),
      arrived := (arrived N)(h := Suc (arrived N h))\<rparr>)"

inductive nreach :: "'err grpc_errors \<Rightarrow> 'err net \<Rightarrow> bool" for g where
  net_start: "nreach g net_init"
| net_step: "nreach g N \<Longrightarrow> nact g N N' \<Longrightarrow> nreach g N'"

text \<open>Each side is a run of its own model.\<close>

lemma receive_resp_step:
  assumes "s < length (heap c)" and "k < length (serves (heap c ! s))" and "serves (heap c ! s) ! k = SRecv"
  shows "wact g c (receive_resp s k r c)"
  unfolding receive_resp_def using assms by (intro wact.stream sstep.recv_resp)

lemma srv_accept: "s_crashed v = None \<Longrightarrow> srv_step v (v\<lparr>handlers := handlers v @ [new_sws]\<rparr>)"
  by (simp add: srv_step_def sact.accept)

lemma request_step:
  assumes "s_crashed \<sigma> = None" and "h < length (handlers \<sigma>)" and "recvpc (handlers \<sigma> ! h) = VRecv"
    and "becomes (took h req \<sigma>) (obind (recv_request h req) (\<lambda>a. Ret (recv_next h a (took h req \<sigma>)))) v"
  shows "srv_step \<sigma> v"
  unfolding srv_step_def using assms by (intro conjI sact.handler hact.recv_req)

lemma nact_sides:
  assumes "nact g N N'"
  shows "(cli N' = cli N \<or> wstep g (cli N) (cli N')) \<and> (srvr N' = srvr N \<or> srv_step (srvr N) (srvr N'))"
  using assms
proof (cases rule: nact.cases)
  case (accept l s k)
  then show ?thesis using srv_accept [OF accept(3)] by simp
next
  case accept_other
  then show ?thesis using srv_accept [OF accept_other(2)] by simp
next
  case (request h s k req v)
  then show ?thesis using request_step [OF request(2,3,5,8)] by simp
next
  case (deliver h s k)
  then show ?thesis using receive_resp_step [OF deliver(5-7)] by (simp add: wstep_def)
qed simp_all

lemma nreach_sides: "nreach g N \<Longrightarrow> wreach g (cli N) \<and> srv_reach (srvr N)"
proof (induction rule: nreach.induct)
  case net_start
  show ?case by (simp add: net_init_def wreach.init srv_reach.init)
next
  case (net_step N N')
  with nact_sides [OF net_step(2)] show ?case by (metis wreach.step srv_reach.step)
qed

section \<open>What the server does to the output of its handlers\<close>

definition outs_grow :: "'err srv \<Rightarrow> 'err srv \<Rightarrow> bool" where
  "outs_grow v v' \<longleftrightarrow> length (handlers v) \<le> length (handlers v') \<and>
     (\<forall>h < length (handlers v). prefix (out (handlers v ! h)) (out (handlers v' ! h)))"

lemma outs_grow_upd:
  "(\<And>s. prefix (out s) (out (f s))) \<Longrightarrow> outs_grow v (upd h f v)"
  by (auto simp: outs_grow_def) (metis nth_list_update_eq nth_list_update_neq prefix_order.refl)

lemma outs_grow_trans: "outs_grow a b \<Longrightarrow> outs_grow b c \<Longrightarrow> outs_grow a c"
  unfolding outs_grow_def by (meson order_less_le_trans order_trans prefix_order.trans)

lemma outs_grow_same: "handlers v' = handlers v \<Longrightarrow> outs_grow v v'"
  by (simp add: outs_grow_def)

lemma outs_grow_send: "send_to ch r v = Ret v' \<Longrightarrow> outs_grow v v'"
  by (auto simp: send_to_Ret intro: outs_grow_upd)

lemma outs_grow_becomes: "becomes v r v' \<Longrightarrow> (\<And>\<rho>. r = Ret \<rho> \<Longrightarrow> outs_grow v \<rho>) \<Longrightarrow> outs_grow v v'"
  by (auto elim!: becomes.cases intro: outs_grow_same)

lemma outs_grow_then:
  assumes "becomes v (obind (send_to ch r v) (\<lambda>\<rho>. Ret (F \<rho>))) v'" and "\<And>\<rho>. outs_grow \<rho> (F \<rho>)"
  shows "outs_grow v v'"
  by (rule outs_grow_becomes [OF assms(1)]) (auto intro: outs_grow_trans [OF outs_grow_send assms(2)])

lemma outs_grow_drop: "(\<And>s. prefix (out s) (out (f s))) \<Longrightarrow> outs_grow \<rho> (upd h f (drop_watch wid \<rho>))"
  by (rule outs_grow_trans [OF outs_grow_same outs_grow_upd]) auto

lemma hact_outs: "hact h v v' \<Longrightarrow> outs_grow v v'"
proof (induction rule: hact.induct)
  case (recv_req req v')
  have took: "outs_grow v (took h req v)" unfolding took_def by (rule outs_grow_upd) simp
  have "outs_grow (took h req v) v'"
    by (rule outs_grow_becomes [OF recv_req(2)]) (auto simp: recv_next_def intro: outs_grow_upd)
  with took show ?case by (rule outs_grow_trans)
next
  case (create_send wid w v')
  show ?case by (rule outs_grow_then [OF create_send(2)]) (auto intro: outs_grow_upd)
next
  case (create_store wid w)
  show ?case by (rule outs_grow_trans [OF outs_grow_same outs_grow_upd]) auto
next
  case (cancel_hit wid w)
  show ?case by (rule outs_grow_trans [OF outs_grow_same outs_grow_upd]) auto
next
  case (main_hit wid e w)
  show ?case by (rule outs_grow_trans [OF outs_grow_same outs_grow_upd]) auto
next
  case (cancel_notify wid w v')
  show ?case by (rule outs_grow_then [OF cancel_notify(2)]) (rule outs_grow_drop, simp)
next
  case (main_notify wid w e v')
  show ?case by (rule outs_grow_then [OF main_notify(2)]) (rule outs_grow_drop, simp)
next
  case (main_err e v')
  show ?case by (rule outs_grow_becomes [OF main_err(3)]) (auto intro: outs_grow_upd)
qed (rule outs_grow_upd outs_grow_drop; simp)+

lemma sact_outs: "sact v v' \<Longrightarrow> outs_grow v v'"
proof (induction rule: sact.induct)
  case accept
  then show ?case by (simp add: outs_grow_def nth_append)
next
  case (handler h v')
  then show ?case by (rule_tac hact_outs)
next
  case (visit w ws v')
  show ?case by (rule outs_grow_then [OF visit(2)]) (rule outs_grow_same, simp)
qed (simp_all add: outs_grow_same)

section \<open>The requests and the watchers of a connection\<close>

definition sent_ok :: "'err sys \<Rightarrow> bool" where
  "sent_ok c \<longleftrightarrow> (\<forall>s < length (heap c). \<forall>x \<in> set (requested (heap c ! s)). own_req (heap c ! s) (snd x))"

lemma own_req_grows: "stream_grows w w' \<Longrightarrow> own_req w' q = own_req w q"
  by (simp add: stream_grows_def own_req_def)

lemma sent_ok_step:
  assumes "wact g c c'" and "sys_inv c" and "sent_ok c"
  shows "sent_ok c'"
  unfolding sent_ok_def
proof (intro allI impI ballI)
  fix s x
  assume s: "s < length (heap c')" and x: "x \<in> set (requested (heap c' ! s))"
  show "own_req (heap c' ! s) (snd x)"
  proof (cases "s < length (heap c)")
    case True
    note gr = wact_grows [OF assms(1,2) True]
    then have "x \<in> set (requested (heap c ! s)) \<or> own_req (heap c ! s) (snd x)" using x
      by (auto simp: stream_grows_def own_req_def)
    then show ?thesis using assms(3) True own_req_grows [OF gr] by (auto simp: sent_ok_def)
  next
    case False
    then show ?thesis using wact_new_streams [OF assms(1) _ s] x by simp
  qed
qed

lemma wreach_sent_ok: "wreach g c \<Longrightarrow> sent_ok c"
proof (induction rule: wreach.induct)
  case init
  then show ?case by (simp add: sent_ok_def fresh_watcher_def)
next
  case (step c c')
  then have "wact g c c'" by (simp add: wstep_def)
  then show ?case using step sent_ok_step wreach_sys_inv by blast
qed

text \<open>A handler makes of such a request a watcher for the app of the stream.\<close>

lemma own_req_watcher:
  "own_req w q \<Longrightarrow> recv_request h q = Ret (DoCreate wid x) \<Longrightarrow>
    Some (watcher_app x) = wcr_app (wgs_initReq w) \<and> w_ch x = h"
  by (auto simp: own_req_def recv_request_def toPB_create_def toPB_cancel_def newWatcher_def watcher_app_def Let_def
      split: option.splits request_union.splits)

section \<open>What arrives\<close>

definition linked :: "'err net \<Rightarrow> nat \<Rightarrow> nat \<Rightarrow> nat \<Rightarrow> bool" where
  "linked N h s k \<longleftrightarrow> h < length (links N) \<and> links N ! h = Some (s, k)"

definition arrivals :: "'err net \<Rightarrow> nat \<Rightarrow> WatchResponse list" where
  "arrivals N h = take (arrived N h) (out (handlers (srvr N) ! h))"

text \<open>What has been received over connection \<open>k\<close> of stream \<open>s\<close>.\<close>

definition delivered :: "'err net \<Rightarrow> nat \<Rightarrow> nat \<Rightarrow> WatchResponse list" where
  "delivered N s k = (case find (\<lambda>h. links N ! h = Some (s, k)) [0..<length (links N)] of
     Some h \<Rightarrow> arrivals N h | None \<Rightarrow> [])"

definition links_ok :: "'err net \<Rightarrow> bool" where
  "links_ok N \<longleftrightarrow> length (links N) = length (handlers (srvr N)) \<and>
     (\<forall>h s k. linked N h s k \<longrightarrow> s < length (heap (cli N)) \<and> k < length (serves (heap (cli N) ! s))) \<and>
     (\<forall>h h' s k. linked N h s k \<and> linked N h' s k \<longrightarrow> h = h') \<and>
     (\<forall>h. length (links N) \<le> h \<longrightarrow> arrived N h = 0)"

lemma links_okD:
  assumes "links_ok N" and "linked N h s k"
  shows "s < length (heap (cli N))" and "k < length (serves (heap (cli N) ! s))"
    and "linked N h' s k \<Longrightarrow> h' = h"
  using assms unfolding links_ok_def by blast+

lemma delivered_none: "(\<And>h. \<not> linked N h s k) \<Longrightarrow> delivered N s k = []"
  by (auto simp: delivered_def linked_def find_Some_iff split: option.splits)

lemma delivered_one:
  assumes "links_ok N" and "linked N h s k"
  shows "delivered N s k = arrivals N h"
proof (cases "find (\<lambda>h. links N ! h = Some (s, k)) [0..<length (links N)]")
  case None
  then show ?thesis using assms(2) by (auto simp: find_None_iff linked_def)
next
  case (Some h')
  then have "linked N h' s k" by (auto simp: find_Some_iff linked_def)
  then have "h' = h" using assms unfolding links_ok_def by blast
  with Some show ?thesis by (simp add: delivered_def)
qed

lemma delivered_keep:
  assumes "links_ok N" and "links_ok N'" and "length (links N) \<le> length (links N')"
    and "\<And>h. h < length (links N) \<Longrightarrow> links N' ! h = links N ! h \<and> arrivals N' h = arrivals N h"
    and "\<And>h. length (links N) \<le> h \<Longrightarrow> arrived N' h = 0"
  shows "delivered N' s k = delivered N s k"
proof (cases "\<exists>h. linked N' h s k")
  case True
  then obtain h where h: "linked N' h s k" by blast
  show ?thesis
  proof (cases "h < length (links N)")
    case True
    with h assms(4) have "linked N h s k" by (simp add: linked_def)
    with True show ?thesis using delivered_one assms h by metis
  next
    case False
    have "\<not> linked N j s k" for j
    proof
      assume "linked N j s k"
      then have "linked N' j s k" "j < length (links N)" using assms(3,4) by (auto simp: linked_def)
      with h False assms(2) show False unfolding links_ok_def by blast
    qed
    then have "delivered N s k = []" by (rule delivered_none)
    moreover have "arrivals N' h = []" using assms(5) False by (simp add: arrivals_def)
    ultimately show ?thesis using delivered_one [OF assms(2) h] by simp
  qed
next
  case False
  moreover have "\<not> linked N j s k" for j
    using False assms(3,4) by (metis linked_def order_less_le_trans)
  ultimately show ?thesis by (simp add: delivered_none)
qed

definition recvd_ok :: "'err net \<Rightarrow> bool" where
  "recvd_ok N \<longleftrightarrow> (\<forall>h < length (links N). arrived N h \<le> length (out (handlers (srvr N) ! h))) \<and>
     (\<forall>s < length (heap (cli N)). recvd (heap (cli N) ! s) =
        concat (map (delivered N s) [0..<length (serves (heap (cli N) ! s))]))"

lemma concat_map_beyond:
  assumes "n \<le> m" and "\<And>k. n \<le> k \<Longrightarrow> f k = []"
  shows "concat (map f [0..<m]) = concat (map f [0..<n])"
proof -
  have "[0..<m] = [0..<n] @ [n..<m]" using upt_add_eq_append [of 0 n "m - n"] assms(1) by simp
  then show ?thesis using assms(2) by simp
qed

text \<open>A step of the client alone, or of the server alone.\<close>

lemma recvd_ok_client:
  assumes "wact g (cli N) c" and "sys_inv (cli N)" and "quiet_cli (cli N) c" and "links_ok N" and "recvd_ok N"
  shows "links_ok (N\<lparr>cli := c\<rparr>) \<and> recvd_ok (N\<lparr>cli := c\<rparr>)"
proof -
  let ?N = "N\<lparr>cli := c\<rparr>"
  have same: "linked ?N = linked N" "arrivals ?N = arrivals N" by (auto simp: linked_def arrivals_def fun_eq_iff)
  have del: "delivered ?N = delivered N" by (intro ext) (simp add: delivered_def same split: option.split)
  have heap: "s < length (heap c) \<and> length (serves (heap (cli N) ! s)) \<le> length (serves (heap c ! s)) \<and>
      recvd (heap c ! s) = recvd (heap (cli N) ! s)" if "s < length (heap (cli N))" for s
    using wact_evolves [OF assms(1) that] wact_grows [OF assms(1,2) that] assms(3) that
    by (auto simp: stream_grows_def quiet_cli_def)
  have "links_ok ?N"
    unfolding links_ok_def same
  proof (intro conjI allI impI)
    fix h s k
    assume "linked N h s k"
    then have "s < length (heap (cli N))" "k < length (serves (heap (cli N) ! s))"
      using assms(4) by (auto simp: links_ok_def)
    then show "s < length (heap (cli ?N))" "k < length (serves (heap (cli ?N) ! s))" using heap [of s] by auto
  next
    fix h h' s k
    assume "linked N h s k \<and> linked N h' s k"
    then show "h = h'" using assms(4) unfolding links_ok_def by blast
  qed (use assms(4) in \<open>simp_all add: links_ok_def\<close>)
  moreover have "recvd (heap c ! s) = concat (map (delivered N s) [0..<length (serves (heap c ! s))])"
    if "s < length (heap c)" for s
  proof (cases "s < length (heap (cli N))")
    case True
    have "delivered N s k = []" if "length (serves (heap (cli N) ! s)) \<le> k" for k
      using that links_okD(2) [OF assms(4)] by (intro delivered_none) fastforce
    then have "concat (map (delivered N s) [0..<length (serves (heap c ! s))]) =
        concat (map (delivered N s) [0..<length (serves (heap (cli N) ! s))])"
      using heap [OF True] by (intro concat_map_beyond) auto
    then show ?thesis using heap [OF True] assms(5) True by (simp add: recvd_ok_def)
  next
    case False
    then show ?thesis using wact_new_streams [OF assms(1) _ that] by simp
  qed
  ultimately show ?thesis using assms(5) by (simp add: recvd_ok_def del)
qed

lemma prefix_take: "prefix xs ys \<Longrightarrow> n \<le> length xs \<Longrightarrow> take n ys = take n xs"
  by (auto simp: prefix_def)

lemma recvd_ok_server:
  assumes "outs_grow (srvr N) v" and "length (handlers v) = length (links N) + length ls"
    and new: "\<And>j s k. j < length ls \<Longrightarrow> ls ! j = Some (s, k) \<Longrightarrow>
      s < length (heap (cli N)) \<and> k < length (serves (heap (cli N) ! s)) \<and> ls ! j \<notin> set (links N) \<and> length ls = 1"
    and "links_ok N" and "recvd_ok N"
  shows "links_ok (N\<lparr>srvr := v, links := links N @ ls, asked := a\<rparr>) \<and>
    recvd_ok (N\<lparr>srvr := v, links := links N @ ls, asked := a\<rparr>)"
proof -
  let ?N = "N\<lparr>srvr := v, links := links N @ ls, asked := a\<rparr>"
  have len: "length (links N) = length (handlers (srvr N))" using assms(4) by (simp add: links_ok_def)
  have arr: "arrivals ?N h = arrivals N h \<and> arrived N h \<le> length (out (handlers v ! h))" if "h < length (links N)" for h
  proof -
    have "prefix (out (handlers (srvr N) ! h)) (out (handlers v ! h))"
      using assms(1) that by (simp add: outs_grow_def len)
    moreover have "arrived N h \<le> length (out (handlers (srvr N) ! h))" using assms(5) that by (simp add: recvd_ok_def)
    ultimately show ?thesis using prefix_length_le by (fastforce simp: arrivals_def prefix_take)
  qed
  have link: "linked ?N h s k \<longleftrightarrow> linked N h s k \<or> (length (links N) \<le> h \<and> h < length (links N) + length ls \<and>
      ls ! (h - length (links N)) = Some (s, k))" for h s k
    by (auto simp: linked_def nth_append)
  have ok: "links_ok ?N"
    unfolding links_ok_def
  proof (intro conjI allI impI)
    fix h s k
    assume "linked ?N h s k"
    then show "s < length (heap (cli ?N))" "k < length (serves (heap (cli ?N) ! s))"
      using new [of "h - length (links N)"] assms(4) by (fastforce simp: link links_ok_def)+
  next
    fix h h' s k
    assume both: "linked ?N h s k \<and> linked ?N h' s k"
    have "j = length (links N) \<and> Some (s, k) \<notin> set (links N)" if "linked ?N j s k" "\<not> linked N j s k" for j
      using that new [of "j - length (links N)" s k] by (fastforce simp: link)
    moreover have "Some (s, k) \<in> set (links N)" if "linked N j s k" for j
      using that nth_mem by (fastforce simp: linked_def)
    moreover have "h = h'" if "linked N h s k" "linked N h' s k"
      using that assms(4) unfolding links_ok_def by blast
    ultimately show "h = h'" using both by metis
  next
    fix h
    assume "length (links ?N) \<le> h"
    then show "arrived ?N h = 0" using assms(4) by (simp add: links_ok_def)
  qed (use assms(2) in simp)
  have "delivered ?N = delivered N"
    by (intro ext delivered_keep [OF assms(4) ok]) (use arr assms(4) in \<open>auto simp: nth_append links_ok_def\<close>)
  moreover have "arrived ?N h \<le> length (out (handlers v ! h))" if "h < length (links ?N)" for h
    using that arr [of h] assms(4) by (cases "h < length (links N)") (auto simp: links_ok_def)
  ultimately show ?thesis using ok assms(5) by (simp add: recvd_ok_def)
qed

text \<open>A response arrives.\<close>

lemma recvd_ok_deliver:
  assumes l: "linked N h s k" and pc: "serves (heap (cli N) ! s) ! k = SRecv"
    and more: "arrived N h < length (out (handlers (srvr N) ! h))"
    and "sys_inv (cli N)" and "links_ok N" and "recvd_ok N"
  defines "r \<equiv> out (handlers (srvr N) ! h) ! arrived N h"
  defines "N' \<equiv> N\<lparr>cli := receive_resp s k r (cli N), arrived := (arrived N)(h := Suc (arrived N h))\<rparr>"
  shows "links_ok N' \<and> recvd_ok N'"
proof -
  note sk = links_okD [OF assms(5) l]
  let ?w = "heap (cli N) ! s"
  have w: "heap (cli N') ! s' = (if s' = s then serve_to k (SResp r) (?w\<lparr>recvd := recvd ?w @ [r]\<rparr>) else heap (cli N) ! s')"
    and len: "length (heap (cli N')) = length (heap (cli N))" for s'
    using sk by (auto simp: N'_def receive_resp_def put_stream_def)
  have N': "links N' = links N" "srvr N' = srvr N" "arrived N' = (arrived N)(h := Suc (arrived N h))"
    by (simp_all add: N'_def)
  then have lk: "linked N' = linked N" by (simp add: fun_eq_iff linked_def)
  have "length (serves (heap (cli N') ! s')) = length (serves (heap (cli N) ! s'))" for s' by (simp add: w)
  then have "links_ok N'"
    using links_okD [OF assms(5)] assms(5) l unfolding links_ok_def lk len N' linked_def by auto
  have arr: "arrivals N' j = (if j = h then arrivals N h @ [r] else arrivals N j)" for j
    using more by (simp add: arrivals_def N'_def r_def take_Suc_conv_app_nth)
  have del: "delivered N' s' k' = (if s' = s \<and> k' = k then delivered N s k @ [r] else delivered N s' k')" for s' k'
  proof (cases "\<exists>j. linked N j s' k'")
    case True
    then obtain j where j: "linked N j s' k'" by blast
    then have "j = h \<longleftrightarrow> s' = s \<and> k' = k" using l sk(3) [of j] by (metis linked_def option.inject prod.inject)
    moreover have "delivered N' s' k' = arrivals N' j" using j by (intro delivered_one [OF \<open>links_ok N'\<close>]) (simp add: lk)
    moreover have "delivered N s' k' = arrivals N j" "delivered N s k = arrivals N h"
      using j l by (simp_all add: delivered_one [OF assms(5)])
    ultimately show ?thesis using arr [of j] by auto
  next
    case False
    then have "\<not> (s' = s \<and> k' = k)" using l by blast
    then show ?thesis using False by (simp add: delivered_none lk)
  qed
  have k: "length (serves ?w) = Suc k"
    using alive_newest(1) [of ?w k] sys_invD(5) [OF assms(4) sk(1)] pc sk(2) by (simp add: stream_inv_def)
  have "recvd (heap (cli N') ! s') = concat (map (delivered N' s') [0..<length (serves (heap (cli N') ! s'))])"
    if "s' < length (heap (cli N))" for s'
  proof (cases "s' = s")
    case True
    have "concat (map (delivered N' s) [0..<k]) = concat (map (delivered N s) [0..<k])"
      by (intro arg_cong [of _ _ concat] map_cong) (auto simp: del)
    moreover have "recvd ?w = concat (map (delivered N s) [0..<Suc k])" using assms(6) sk(1) k by (simp add: recvd_ok_def)
    ultimately show ?thesis using True k by (simp add: w del [of s k])
  next
    case False
    then have "delivered N' s' = delivered N s'" by (simp add: del fun_eq_iff)
    then show ?thesis using False that assms(6) by (simp add: w recvd_ok_def)
  qed
  moreover have "arrived N' j \<le> length (out (handlers (srvr N') ! j))" if "j < length (links N')" for j
    using that more assms(6) by (auto simp: N'_def recvd_ok_def)
  ultimately show ?thesis using \<open>links_ok N'\<close> by (simp add: recvd_ok_def len)
qed

section \<open>The app of a connection\<close>

text \<open>
  The watchers and the messages of a handler that serves a stream of the client are about the
  app the stream was opened for.
\<close>

definition about :: "'err net \<Rightarrow> nat \<Rightarrow> App option" where
  "about N s = wcr_app (wgs_initReq (heap (cli N) ! s))"

definition apps_ok :: "'err net \<Rightarrow> bool" where
  "apps_ok N \<longleftrightarrow> (\<forall>h s k. linked N h s k \<longrightarrow>
     (\<forall>w \<in> wats (srvr N). w_ch w = h \<longrightarrow> Some (watcher_app w) = about N s) \<and>
     (\<forall>r \<in> set (put (watchStream (handlers (srvr N) ! h))). resp_app r = about N s))"

text \<open>A server step in which no foreign request reaches a linked handler.\<close>

lemma apps_ok_server:
  assumes step: "sact (srvr N) v" and inv: "srv_inv (srvr N)" and ok: "apps_ok N" "links_ok N"
    and born: "\<And>h s k w. linked N h s k \<Longrightarrow> w \<in> born h (srvr N) v \<Longrightarrow> w_ch w = h \<and> Some (watcher_app w) = about N s"
    and own: "\<And>h w. h < length (handlers (srvr N)) \<Longrightarrow> w \<in> born h (srvr N) v \<Longrightarrow> w_ch w = h"
    and N': "links N' = links N @ ls" "srvr N' = v" "\<And>s. about N' s = about N s"
    and new: "\<And>j. j < length ls \<Longrightarrow> handlers v ! (length (links N) + j) = new_sws" "length ls \<le> 1"
  shows "apps_ok N'"
  unfolding apps_ok_def
proof (intro allI impI)
  fix h s k
  assume l: "linked N' h s k"
  have len: "length (links N) = length (handlers (srvr N))" using ok(2) by (simp add: links_ok_def)
  have from_w: "w \<in> wats (srvr N) \<or> (\<exists>h < length (links N). w \<in> born h (srvr N) v \<and> w_ch w = h)" if "w \<in> wats v" for w
    using sact_wats [OF step inv] that own len by auto
  note fw = sact_puts [OF step inv, unfolded from_wats_def]
  show "(\<forall>w \<in> wats (srvr N'). w_ch w = h \<longrightarrow> Some (watcher_app w) = about N' s) \<and>
      (\<forall>r \<in> set (put (watchStream (handlers (srvr N') ! h))). resp_app r = about N' s)"
  proof (cases "h < length (links N)")
    case True
    with l have l0: "linked N h s k" by (simp add: linked_def N' nth_append)
    have old: "Some (watcher_app w) = about N s" if "w \<in> wats (srvr N)" "w_ch w = h" for w
      using that l0 ok(1) unfolding apps_ok_def by blast
    have "Some (watcher_app w) = about N s" if "w \<in> wats v" "w_ch w = h" for w
      using from_w [OF that(1)] that(2) old born [OF l0] by auto
    moreover have "resp_app r = about N s" if "r \<in> set (put (watchStream (handlers v ! h)))" for r
    proof -
      have "h < length (handlers v)" using True len fw by simp
      with fw [THEN conjunct2, THEN spec, THEN mp, OF this] True len obtain rs where rs: "put (watchStream (handlers v ! h)) = put (watchStream (handlers (srvr N) ! h)) @ rs"
        "\<forall>r \<in> set rs. \<exists>w \<in> wats (srvr N). w_ch w = h \<and> resp_app r = Some (watcher_app w)" by auto
      have "r \<in> set (put (watchStream (handlers (srvr N) ! h))) \<or> r \<in> set rs" using that rs(1) by auto
      then show ?thesis using old rs(2) l0 ok(1) unfolding apps_ok_def by metis
    qed
    ultimately show ?thesis by (simp add: N')
  next
    case False
    with l have h: "h = length (links N)" "ls \<noteq> []" using new(2) by (auto simp: linked_def N')
    then have "handlers v ! h = new_sws" using new(1) [of 0] by simp
    moreover have "w_ch w \<noteq> h" if "w \<in> wats v" for w
      using from_w [OF that] wats_ch [OF inv, of w] h len by auto
    ultimately show ?thesis by (auto simp: N' new_sws_def make_chan_def)
  qed
qed

section \<open>Every reachable state\<close>

definition net_ok :: "'err net \<Rightarrow> bool" where
  "net_ok N \<longleftrightarrow> links_ok N \<and> recvd_ok N \<and> apps_ok N"

lemma born_own: "srv_inv v' \<Longrightarrow> h < length (handlers v') \<Longrightarrow> w \<in> born h v v' \<Longrightarrow> w_ch w = h"
  using srv_invD(2) [of v' h] by (auto simp: born_def)

lemma born_request:
  assumes "becomes (took h req v) (obind (recv_request h req) (\<lambda>a. Ret (recv_next h a (took h req v)))) v'" and "w \<in> born j v v'"
    and "h < length (handlers v)"
  shows "j = h \<and> (\<exists>wid. recv_request h req = Ret (DoCreate wid w))"
  using assms
  by (cases "recv_request h req"; cases "j = h")
    (auto simp: born_def recv_next_took split: recv_action.splits)

lemma becomes_request_len:
  "becomes (took h req v) (obind (recv_request h req) (\<lambda>a. Ret (recv_next h a (took h req v)))) v' \<Longrightarrow> length (handlers v') = length (handlers v)"
  by (cases "recv_request h req") (auto simp: recv_next_def)

lemma apps_ok_client:
  assumes "links_ok N" and "apps_ok N" and "linked N' = linked N" and "srvr N' = srvr N"
    and "\<And>s. s < length (heap (cli N)) \<Longrightarrow> about N' s = about N s"
  shows "apps_ok N'"
  using assms(2,5) links_okD(1) [OF assms(1)] unfolding apps_ok_def assms(3,4) by metis

lemma net_ok_quiet:
  assumes ok: "net_ok N" and sides: "srv_inv (srvr N)" and st: "srv_step (srvr N) v"
    and quiet: "quiet_srv (links N) (srvr N) v"
  shows "net_ok (N\<lparr>srvr := v\<rparr>)"
proof -
  have act: "sact (srvr N) v" and inv: "srv_inv v" using st sides sact_inv by (auto simp: srv_step_def)
  have len: "length (handlers v) = length (links N)" using ok quiet by (simp add: quiet_srv_def net_ok_def links_ok_def)
  have none: "born h (srvr N) v = {}" if "linked N h s k" for h s k
    using that quiet ok by (auto simp: born_def quiet_srv_def linked_def net_ok_def links_ok_def)
  have "apps_ok (N\<lparr>srvr := v\<rparr>)"
  proof (rule apps_ok_server [OF act sides, where ls = "[]"])
    show "apps_ok N" "links_ok N" using ok by (simp_all add: net_ok_def)
    show "w_ch w = h \<and> Some (watcher_app w) = about N s" if "linked N h s k" "w \<in> born h (srvr N) v" for h s k w
      using none [OF that(1)] that(2) by simp
    show "w_ch w = h" if "h < length (handlers (srvr N))" "w \<in> born h (srvr N) v" for h w
      using born_own [OF inv _ that(2)] that(1) quiet by (simp add: quiet_srv_def)
  qed (simp_all add: about_def)
  with recvd_ok_server [OF sact_outs [OF act], where ls = "[]" and a = "asked N"] ok len show ?thesis
    by (simp add: net_ok_def)
qed

lemma net_ok_accept:
  assumes ok: "net_ok N" and inv: "srv_inv (srvr N)"
    and l: "\<And>s k. l = Some (s, k) \<Longrightarrow>
      s < length (heap (cli N)) \<and> k < length (serves (heap (cli N) ! s)) \<and> l \<notin> set (links N)"
  shows "net_ok (N\<lparr>srvr := (srvr N)\<lparr>handlers := handlers (srvr N) @ [new_sws]\<rparr>, links := links N @ [l]\<rparr>)"
    (is "net_ok ?N")
proof -
  let ?v = "(srvr N)\<lparr>handlers := handlers (srvr N) @ [new_sws]\<rparr>"
  have act: "sact (srvr N) ?v" by (rule sact.accept)
  have len: "length (links N) = length (handlers (srvr N))" using ok by (simp add: net_ok_def links_ok_def)
  have none: "born h (srvr N) ?v = {}" if "h < length (handlers (srvr N))" for h
    using that by (auto simp: born_def nth_append)
  have "apps_ok ?N"
  proof (rule apps_ok_server [OF act inv, where ls = "[l]"])
    show "apps_ok N" "links_ok N" using ok by (simp_all add: net_ok_def)
    show "w_ch w = h \<and> Some (watcher_app w) = about N s" if "linked N h s k" "w \<in> born h (srvr N) ?v" for h s k w
      using that none [of h] len by (simp add: linked_def)
    show "w_ch w = h" if "h < length (handlers (srvr N))" "w \<in> born h (srvr N) ?v" for h w
      using none [OF that(1)] that(2) by simp
  qed (simp_all add: about_def len nth_append)
  moreover have "?N = N\<lparr>srvr := ?v, links := links N @ [l], asked := asked N\<rparr>" by simp
  moreover have "links_ok (N\<lparr>srvr := ?v, links := links N @ [l], asked := asked N\<rparr>) \<and>
      recvd_ok (N\<lparr>srvr := ?v, links := links N @ [l], asked := asked N\<rparr>)"
    using ok l by (intro recvd_ok_server [OF sact_outs [OF act]]) (auto simp: net_ok_def len)
  ultimately show ?thesis by (simp add: net_ok_def)
qed

lemma net_ok_request:
  assumes ok: "net_ok N" and inv: "srv_inv (srvr N)" and l: "linked N h s k"
    and st: "s_crashed (srvr N) = None" "recvpc (handlers (srvr N) ! h) = VRecv"
    and req: "own_req (heap (cli N) ! s) req"
    and v: "becomes (took h req (srvr N)) (obind (recv_request h req) (\<lambda>a. Ret (recv_next h a (took h req (srvr N))))) v"
  shows "net_ok (N\<lparr>srvr := v, asked := a\<rparr>)"
proof -
  have len: "length (links N) = length (handlers (srvr N))" using ok by (simp add: net_ok_def links_ok_def)
  then have h: "h < length (handlers (srvr N))" using l by (simp add: linked_def)
  have act: "sact (srvr N) v" using request_step [OF st(1) h st(2) v] by (simp add: srv_step_def)
  have lv: "length (handlers v) = length (handlers (srvr N))" using v by (rule becomes_request_len)
  have new: "j = h \<and> w_ch w = h \<and> Some (watcher_app w) = about N s" if "w \<in> born j (srvr N) v" for j w
    using born_request [OF v that h] own_req_watcher [OF req] by (auto simp: about_def)
  have "apps_ok (N\<lparr>srvr := v, asked := a\<rparr>)"
  proof (rule apps_ok_server [OF act inv, where ls = "[]"])
    show "apps_ok N" "links_ok N" using ok by (simp_all add: net_ok_def)
    show "w_ch w = j \<and> Some (watcher_app w) = about N s'" if "linked N j s' k'" "w \<in> born j (srvr N) v" for j s' k' w
      using that new [OF that(2)] l by (auto simp: linked_def)
    show "w_ch w = j" if "j < length (handlers (srvr N))" "w \<in> born j (srvr N) v" for j w
      using new [OF that(2)] by simp
  qed (simp_all add: about_def)
  with recvd_ok_server [OF sact_outs [OF act], where ls = "[]" and a = a] ok len lv show ?thesis
    by (simp add: net_ok_def)
qed

lemma requests_own: "sent_ok c \<Longrightarrow> s < length (heap c) \<Longrightarrow> q \<in> set (requests_on k (heap c ! s)) \<Longrightarrow> own_req (heap c ! s) q"
  by (fastforce simp: sent_ok_def requests_on_def requested_def)

lemma nact_net_ok:
  assumes "nact g N N'" and ok: "net_ok N" and w: "wreach g (cli N)" and v: "srv_reach (srvr N)"
  shows "net_ok N'"
  using assms(1)
proof (cases rule: nact.cases)
  note ci = wreach_sys_inv [OF w] and si = srv_reach_inv [OF v]
  note parts = ok [unfolded net_ok_def]
  have lk: "linked N h s k" if "h < length (handlers (srvr N))" "links N ! h = Some (s, k)" for h s k
    using that parts by (simp add: linked_def links_ok_def)
  {
    case (client c)
    from client(2) have act: "wact g (cli N) c" by (simp add: wstep_def)
    have "apps_ok N'"
    proof (rule apps_ok_client [of N])
      show "about N' s = about N s" if "s < length (heap (cli N))" for s
        using wact_grows [OF act ci that] by (simp add: client(1) about_def stream_grows_def)
    qed (use parts in \<open>simp_all add: client(1) linked_def fun_eq_iff\<close>)
    with recvd_ok_client [OF act ci client(3)] parts show ?thesis by (simp add: client(1) net_ok_def)
  next
    case (server v)
    then show ?thesis using net_ok_quiet [OF ok si] by simp
  next
    case (accept l s k)
    then show ?thesis using net_ok_accept [OF ok si, of l] by simp
  next
    case accept_other
    then show ?thesis using net_ok_accept [OF ok si, of None] by simp
  next
    case (request h s k req v)
    have l: "linked N h s k" using request(3,4) by (rule lk)
    have "own_req (heap (cli N) ! s) req"
      unfolding request(7) using links_okD(1) [OF _ l] parts request(6)
      by (intro requests_own [OF wreach_sent_ok [OF w], where k = k]) auto
    then show ?thesis using net_ok_request [OF ok si l request(2,5) _ request(8)] by (simp add: request(1))
  next
    case (deliver h s k)
    have l: "linked N h s k" using deliver(3,4) by (rule lk)
    have "apps_ok N'"
    proof (rule apps_ok_client [of N])
      show "about N' s' = about N s'" if "s' < length (heap (cli N))" for s'
        using that by (cases "s' = s") (simp_all add: deliver(1) about_def receive_resp_def put_stream_def)
    qed (use parts in \<open>simp_all add: deliver(1) linked_def fun_eq_iff\<close>)
    with recvd_ok_deliver [OF l deliver(7,8) ci] parts show ?thesis by (simp add: deliver(1) net_ok_def)
  }
qed

lemma nreach_net_ok: "nreach g N \<Longrightarrow> net_ok N"
proof (induction rule: nreach.induct)
  case net_start
  show ?case
    by (simp add: net_ok_def links_ok_def recvd_ok_def apps_ok_def linked_def net_init_def fresh_watcher_def newWatcherStore_def)
next
  case (net_step N N')
  then show ?case using nact_net_ok nreach_sides by blast
qed

text \<open>A run of the client in which nothing is received needs no server.\<close>

lemma wact_recvd_nil:
  assumes "wact g c c'" and "sys_inv c" and "\<forall>s < length (heap c'). recvd (heap c' ! s) = []"
  shows "(\<forall>s < length (heap c). recvd (heap c ! s) = []) \<and> quiet_cli c c'"
proof -
  have "recvd (heap c ! s) = [] \<and> recvd (heap c' ! s) = []" if "s < length (heap c)" for s
    using wact_grows [OF assms(1,2) that] wact_evolves [OF assms(1) that] assms(3) by (auto simp: stream_grows_def)
  then show ?thesis by (simp add: quiet_cli_def)
qed

lemma nreach_client:
  assumes "wreach g c" and "\<forall>s < length (heap c). recvd (heap c ! s) = []"
  shows "nreach g (net_init\<lparr>cli := c\<rparr>)"
  using assms
proof (induction rule: wreach.induct)
  case init
  have "net_init\<lparr>cli := fresh_watcher\<rparr> = net_init" by (simp add: net_init_def)
  then show ?case using nreach.net_start by metis
next
  case (step c c')
  have "wact g c c'" using step(2) by (simp add: wstep_def)
  note q = wact_recvd_nil [OF this wreach_sys_inv [OF step(1)] step(4)]
  have "nact g (net_init\<lparr>cli := c\<rparr>) ((net_init\<lparr>cli := c\<rparr>)\<lparr>cli := c'\<rparr>)"
    using step(2) q by (intro nact.client) simp_all
  then show ?case using nreach.net_step [OF step(3)] q by simp
qed

end
