(* ===== verification/EndToEnd.thy ===== *)
theory EndToEnd
  imports WatchNet
begin

text \<open>
  What a consumer of a watch gets of what the server sends it, for the client and the server
  of WatchNet together, and that the next message can always get through.
\<close>

section \<open>A concrete run\<close>

text \<open>The client of \<open>demo_connected\<close>, its only connection served by the server's only handler.\<close>

definition demo_net :: "demo_err sys \<Rightarrow> demo_err sws \<Rightarrow> nat \<Rightarrow> nat \<Rightarrow> demo_err net" where
  "demo_net c s n a = \<lparr>cli = c, srvr = demo_srv None [] Ticking s, links = [Some (0, 0)],
     arrived = (\<lambda>_. 0)(0 := n), asked = (\<lambda>_. 0)(0 := a)\<rparr>"

lemma demo_net_simps [simp]:
  "cli (demo_net c s n a) = c" "srvr (demo_net c s n a) = demo_srv None [] Ticking s"
  "links (demo_net c s n a) = [Some (0, 0)]" "arrived (demo_net c s n a) 0 = n" "asked (demo_net c s n a) 0 = a"
  "demo_net c s n a\<lparr>cli := c'\<rparr> = demo_net c' s n a"
  "demo_net c s n a\<lparr>srvr := demo_srv None [] Ticking s'\<rparr> = demo_net c s' n a"
  "demo_net c s n a\<lparr>asked := (asked (demo_net c1 s1 n1 a1))(0 := a')\<rparr> = demo_net c s n a'"
  "demo_net c s n a\<lparr>arrived := (arrived (demo_net c1 s1 n1 a1))(0 := n')\<rparr> = demo_net c s n' a"
  by (simp_all add: demo_net_def)

abbreviation demo_client :: "demo_err wgs \<Rightarrow> demo_err sys" where
  "demo_client w \<equiv> demo_sys None False w (WRet (Some 0)) CIdle"

lemma demo_server:
  assumes "nreach g (demo_net c s n a)" and "hact 0 (demo_srv None [] Ticking s) (demo_srv None [] Ticking s')"
    and "recvpc s \<noteq> VRecv"
  shows "nreach g (demo_net c s' n a)"
proof -
  have "nact g (demo_net c s n a) (demo_net c s n a\<lparr>srvr := demo_srv None [] Ticking s'\<rparr>)"
    using assms(2,3) by (intro nact.server) (auto simp: srv_step_def quiet_srv_def intro: sact.handler)
  with nreach.net_step [OF assms(1)] show ?thesis by simp
qed

lemma demo_accepted: "nreach demo_errors (demo_net (demo_client demo_up) new_sws 0 0)"
proof -
  let ?c = "demo_client demo_up"
  have 0: "nreach demo_errors (net_init\<lparr>cli := ?c\<rparr>)"
    by (rule nreach_client [OF demo_connected]) (simp add: demo_up_def demo_w_def newWatcherGrpcStream_def)
  have "nact demo_errors (net_init\<lparr>cli := ?c\<rparr>) (demo_net ?c new_sws 0 0)"
    using nact.accept [of "net_init\<lparr>cli := ?c\<rparr>" "Some (0, 0)" 0 0 demo_errors]
    by (simp add: net_init_def newWatcherStore_def demo_up_def demo_net_def demo_srv_def fun_upd_idem)
  with 0 show ?thesis by (rule nreach.net_step)
qed

lemma demo_requested:
  "nreach demo_errors (demo_net (demo_client demo_up) (new_sws\<lparr>recvpc := VCreate ''w'' demo_watcher, s_got := [demo_req]\<rparr>) 0 1)"
proof -
  let ?N = "demo_net (demo_client demo_up) new_sws 0 0"
  have q: "requests_on 0 demo_up = [demo_req]"
    by (simp add: requests_on_def demo_up_def toPB_create_def demo_req_def demo_app_def)
  have "recv_request 0 demo_req = Ret (DoCreate ''w'' demo_watcher)"
    by (simp add: recv_request_def demo_req_def newWatcher_def demo_watcher_def)
  then have "nact demo_errors ?N (demo_net (demo_client demo_up) (new_sws\<lparr>recvpc := VCreate ''w'' demo_watcher, s_got := [demo_req]\<rparr>) 0 1)"
    using nact.request [of ?N 0 0 0 demo_req _ demo_errors] q by (simp add: new_sws_def recv_next_def)
  with demo_accepted show ?thesis by (rule nreach.net_step)
qed

definition demo_out :: "demo_err sws" where
  "demo_out = (pushed (created_msg demo_watcher) new_sws)\<lparr>recvpc := VStore ''w'' demo_watcher,
     watchStream := make_chan\<lparr>put := [created_msg demo_watcher]\<rparr>,
     out := [created_msg demo_watcher], s_got := [demo_req]\<rparr>"

lemma demo_sent: "nreach demo_errors (demo_net (demo_client demo_up) demo_out 0 1)"
proof -
  let ?s = "new_sws\<lparr>recvpc := VCreate ''w'' demo_watcher, s_got := [demo_req]\<rparr>" and ?r = "created_msg demo_watcher"
  let ?t = "(pushed ?r ((new_sws :: demo_err sws)\<lparr>s_got := [demo_req]\<rparr>))\<lparr>recvpc := VStore ''w'' demo_watcher\<rparr>"
  have "send_to 0 ?r (demo_srv None [] Ticking ?s) = Ret (demo_srv None [] Ticking (pushed ?r ?s))"
    by (rule demo_send) (simp_all add: new_sws_def make_chan_def chan_cap_def)
  with hact.create_send [of "demo_srv None [] Ticking ?s" 0 "''w''" demo_watcher]
  have "hact 0 (demo_srv None [] Ticking ?s) (demo_srv None [] Ticking ?t)" by (simp add: pushed_def)
  then have 1: "nreach demo_errors (demo_net (demo_client demo_up) ?t 0 1)"
    by (rule demo_server [OF demo_requested]) simp
  let ?u = "?t\<lparr>watchStream := (watchStream ?t)\<lparr>buf := []\<rparr>, sendpc := PSend (Some ?r)\<rparr>"
  have "chan_recv (watchStream ?t) = Ret (Some ?r, (watchStream ?t)\<lparr>buf := []\<rparr>)"
    by (simp add: chan_recv_Ret new_sws_def make_chan_def)
  with hact.send_take [of "demo_srv None [] Ticking ?t" 0]
  have "hact 0 (demo_srv None [] Ticking ?t) (demo_srv None [] Ticking ?u)" by (simp add: new_sws_def)
  then have 2: "nreach demo_errors (demo_net (demo_client demo_up) ?u 0 1)"
    by (rule demo_server [OF 1]) simp
  have "hact 0 (demo_srv None [] Ticking ?u) (demo_srv None [] Ticking demo_out)"
    using hact.send_ok [of "demo_srv None [] Ticking ?u" 0 "Some ?r"] by (simp add: demo_out_def new_sws_def pushed_def make_chan_def)
  then show ?thesis by (rule demo_server [OF 2]) simp
qed

lemma demo_arrived:
  "nreach demo_errors (demo_net (demo_client (demo_up\<lparr>recvd := [created_msg demo_watcher],
     taken := [created_msg demo_watcher]\<rparr>)) demo_out 1 1)"
proof -
  let ?r = "created_msg demo_watcher"
  let ?w = "demo_up\<lparr>serves := [SResp ?r], recvd := [?r]\<rparr>" and ?x = "demo_up\<lparr>recvd := [?r], taken := [?r]\<rparr>"
  let ?N = "demo_net (demo_client demo_up) demo_out 0 1"
  have "receive_resp 0 0 ?r (demo_client demo_up) = demo_client ?w"
    by (simp add: receive_resp_def serve_to_def demo_up_def demo_w_def newWatcherGrpcStream_def)
  then have "nact demo_errors ?N (demo_net (demo_client ?w) demo_out 1 1)"
    using nact.deliver [of ?N 0 0 0 demo_errors] by (simp add: demo_out_def demo_up_def)
  with demo_sent have 1: "nreach demo_errors (demo_net (demo_client ?w) demo_out 1 1)" by (rule nreach.net_step)
  have "sstep demo_errors False ?w (serve_to 0 SRecv (?w\<lparr>taken := taken ?w @ [?r]\<rparr>))"
    by (rule give_resp) (simp_all add: demo_up_def)
  moreover have "serve_to 0 SRecv (?w\<lparr>taken := taken ?w @ [?r]\<rparr>) = ?x"
    by (simp add: serve_to_def demo_up_def demo_w_def newWatcherGrpcStream_def)
  ultimately have "sstep demo_errors False ?w ?x" by metis
  moreover have "wgs_pctx ?w = 0" by (simp add: demo_up_def demo_w_def newWatcherGrpcStream_def)
  ultimately have "wact demo_errors (demo_client ?w) (demo_client ?x)"
    using wact.stream [of 0 "demo_client ?w" demo_errors ?x] by simp
  then have "nact demo_errors (demo_net (demo_client ?w) demo_out 1 1) (demo_net (demo_client ?x) demo_out 1 1)"
    using nact.client [of demo_errors "demo_net (demo_client ?w) demo_out 1 1" "demo_client ?x"]
    by (simp add: wstep_def quiet_cli_def)
  with 1 show ?thesis by (rule nreach.net_step)
qed

section \<open>From end to end\<close>

text \<open>
  C2 (safety).  Client and server together, whatever else happens to either: what the consumer of a
  stream has been given, up to one response on its way, consists of one part for each of the
  connections the stream has had, in the order they were made; the part of a connection is
  an initial piece of what the server put into the channel of the one handler that serves
  it, nothing lost, repeated or reordered, and starts with the creation notice; and every
  response is about the app for which the stream was opened, although the server serves
  other clients and other streams at the same time.
\<close>

theorem end_to_end:
  assumes "nreach g N" and "s < length (heap (cli N))" and "w = heap (cli N) ! s"
  shows "\<exists>parts rest. taken w @ rest = concat parts \<and> length rest \<le> 1 \<and> length parts = length (serves w) \<and>
    (\<forall>k < length parts. parts ! k \<noteq> [] \<longrightarrow>
       (\<exists>h < length (handlers (srvr N)). links N ! h = Some (s, k) \<and>
          prefix (parts ! k) (put (watchStream (handlers (srvr N) ! h))) \<and> created (hd (parts ! k)))) \<and>
    (\<forall>r \<in> set (taken w). resp_app r = wcr_app (wgs_initReq w))"
proof -
  note ok = nreach_net_ok [OF assms(1), unfolded net_ok_def]
  note sides = nreach_sides [OF assms(1)]
  define parts where "parts = map (delivered N s) [0..<length (serves w)]"
  have recvd: "recvd w = concat parts" using ok assms(2,3) by (simp add: parts_def recvd_ok_def)
  have part: "\<exists>h < length (handlers (srvr N)). links N ! h = Some (s, k) \<and>
      prefix (delivered N s k) (put (watchStream (handlers (srvr N) ! h))) \<and> created (hd (delivered N s k)) \<and>
      (\<forall>r \<in> set (delivered N s k). resp_app r = about N s)" if ne: "delivered N s k \<noteq> []" for k
  proof -
    obtain h where h: "linked N h s k" using ne delivered_none by blast
    then have len: "h < length (handlers (srvr N))" using ok by (simp add: linked_def links_ok_def)
    have eq: "delivered N s k = arrivals N h" using ok h by (simp add: delivered_one)
    note sws = srv_invD(1) [OF srv_reach_inv len] 
    have pre: "prefix (delivered N s k) (put (watchStream (handlers (srvr N) ! h)))"
      using sws sides unfolding eq arrivals_def sws_ok_def by (metis append_prefixD prefix_def take_is_prefix)
    then have "created (hd (delivered N s k))" using sws sides ne by (auto simp: sws_ok_def prefix_def hd_append)
    moreover have "resp_app r = about N s" if "r \<in> set (delivered N s k)" for r
      using that pre ok h set_mono_prefix unfolding apps_ok_def by blast
    ultimately show ?thesis using h len pre by (auto simp: linked_def)
  qed
  have "stream_inv w" using sys_invD(5) [OF wreach_sys_inv] sides assms(2,3) by blast
  then obtain rest where rest: "recvd w = taken w @ rest" "length rest \<le> 1"
    by (auto simp: stream_inv_def deliver_inv_def pending_def split: serve_pc.splits)
  have "resp_app r = wcr_app (wgs_initReq w)" if "r \<in> set (taken w)" for r
  proof -
    have "r \<in> set (concat parts)" using that rest recvd by (metis Un_iff set_append)
    then obtain k where "r \<in> set (delivered N s k)" by (auto simp: parts_def)
    moreover from this have "delivered N s k \<noteq> []" by auto
    ultimately show ?thesis using part [of k] assms(3) by (auto simp: about_def)
  qed
  moreover have "\<exists>h < length (handlers (srvr N)). links N ! h = Some (s, k) \<and>
      prefix (parts ! k) (put (watchStream (handlers (srvr N) ! h))) \<and> created (hd (parts ! k))"
    if "k < length parts" "parts ! k \<noteq> []" for k
    using part [of k] that by (auto simp: parts_def)
  ultimately show ?thesis
    using rest recvd by (intro exI [of _ parts] exI [of _ rest]) (simp add: parts_def)
qed

theorem end_to_end_witness:
  "\<exists>N (w :: demo_err wgs) parts rest. nreach demo_errors N \<and> w = heap (cli N) ! 0 \<and>
     taken w = [created_msg demo_watcher] \<and> taken w @ rest = concat parts \<and> length rest \<le> 1 \<and>
     length parts = 1 \<and> resp_app (created_msg demo_watcher) = demo_app"
proof -
  let ?w = "demo_up\<lparr>recvd := [created_msg demo_watcher], taken := [created_msg demo_watcher]\<rparr>"
  let ?N = "demo_net (demo_client ?w) demo_out 1 1"
  have w: "?w = heap (cli ?N) ! 0" by simp
  from end_to_end [OF demo_arrived _ w] obtain parts rest where
    "taken ?w @ rest = concat parts" "length rest \<le> 1" "length parts = length (serves ?w)"
    "\<forall>r \<in> set (taken ?w). resp_app r = wcr_app (wgs_initReq ?w)" by auto
  moreover have "length (serves ?w) = 1" "wcr_app (wgs_initReq ?w) = demo_app"
    by (simp_all add: demo_up_def demo_w_def newWatcherGrpcStream_def)
  ultimately show ?thesis using demo_arrived w
    by (intro exI [of _ ?N] exI [of _ ?w] exI [of _ parts] exI [of _ rest]) simp
qed

section \<open>Progress\<close>

text \<open>A step of one handler that leaves its receive loop alone.\<close>

lemma handler_moves:
  assumes "s_crashed (srvr N) = None" and "h < length (handlers (srvr N))" and "hact h (srvr N) (upd h f (srvr N))"
    and "recvpc (f (handlers (srvr N) ! h)) = recvpc (handlers (srvr N) ! h)"
  shows "nact g N (N\<lparr>srvr := upd h f (srvr N)\<rparr>)"
proof (rule nact.server)
  show "srv_step (srvr N) (upd h f (srvr N))" using assms(1-3) by (auto simp: srv_step_def intro: sact.handler)
  have "recvpc (handlers (upd h f (srvr N)) ! j) = recvpc (handlers (srvr N) ! j)" for j
    using assms(2,4) by (cases "j = h") simp_all
  then show "quiet_srv (links N) (srvr N) (upd h f (srvr N))" by (auto simp: quiet_srv_def)
qed

text \<open>
  A net that differs in one handler only, with one more message sent and its channel's history
  as before.
\<close>

definition sent_one :: "nat \<Rightarrow> WatchResponse \<Rightarrow> 'err net \<Rightarrow> 'err net \<Rightarrow> bool" where
  "sent_one h r N N' \<longleftrightarrow> cli N' = cli N \<and> links N' = links N \<and> arrived N' = arrived N \<and>
     s_crashed (srvr N') = None \<and> length (handlers (srvr N')) = length (handlers (srvr N)) \<and>
     out (handlers (srvr N') ! h) = out (handlers (srvr N) ! h) @ [r]"

lemma sends_in_hand:
  assumes "s_crashed (srvr N) = None" and h: "h < length (handlers (srvr N))"
    and "sendpc (handlers (srvr N) ! h) = PSend (Some r)"
  shows "\<exists>N'. nact g N N' \<and> sent_one h r N N'"
proof -
  let ?f = "\<lambda>s. s\<lparr>out := out s @ [r], sendpc := PLoop\<rparr> :: 'a sws"
  have "hact h (srvr N) (upd h ?f (srvr N))" using hact.send_ok [OF assms(3)] by simp
  from handler_moves [OF assms(1) h this, of g] assms(1) h show ?thesis
    by (intro exI [of _ "N\<lparr>srvr := upd h ?f (srvr N)\<rparr>"]) (simp add: sent_one_def)
qed

lemma sends_next:
  assumes "s_crashed (srvr N) = None" and h: "h < length (handlers (srvr N))"
    and "sendpc (handlers (srvr N) ! h) = PLoop" and b: "buf (watchStream (handlers (srvr N) ! h)) = r # rs"
  shows "\<exists>N'. (nact g)\<^sup>*\<^sup>* N N' \<and> sent_one h r N N'"
proof -
  let ?c = "(watchStream (handlers (srvr N) ! h))\<lparr>buf := rs\<rparr>"
  let ?f = "\<lambda>s. s\<lparr>watchStream := ?c, sendpc := PSend (Some r)\<rparr> :: 'a sws"
  let ?N = "N\<lparr>srvr := upd h ?f (srvr N)\<rparr>"
  have "chan_recv (watchStream (handlers (srvr N) ! h)) = Ret (Some r, ?c)" using b by (simp add: chan_recv_Ret)
  from handler_moves [OF assms(1) h hact.send_take [OF assms(3) this], of g] have 1: "nact g N ?N" by simp
  obtain N' where "nact g ?N N'" "sent_one h r ?N N'"
    using sends_in_hand [of ?N h r g] assms(1) h by auto
  with 1 h show ?thesis
    by (intro exI [of _ N']) (auto simp: sent_one_def intro: converse_rtranclp_into_rtranclp)
qed

lemma sends_more:
  assumes cr: "s_crashed (srvr N) = None" and h: "h < length (handlers (srvr N))"
    and ok: "sws_ok (handlers (srvr N) ! h)" and pc: "sendpc (handlers (srvr N) ! h) \<noteq> PDone"
    and put: "put (watchStream (handlers (srvr N) ! h)) = out (handlers (srvr N) ! h) @ r # rest"
  shows "\<exists>N'. (nact g)\<^sup>*\<^sup>* N N' \<and> sent_one h r N N'"
proof -
  obtain xs where xs: "r # rest = xs @ buf (watchStream (handlers (srvr N) ! h))" "in_flight (sendpc (handlers (srvr N) ! h)) xs"
    using ok put by (auto simp: sws_ok_def)
  show ?thesis
  proof (cases "sendpc (handlers (srvr N) ! h)")
    case PLoop
    with xs have "buf (watchStream (handlers (srvr N) ! h)) = r # rest" by simp
    with cr h PLoop show ?thesis by (rule sends_next)
  next
    case (PSend x)
    show ?thesis
    proof (cases x)
      case (Some r')
      with PSend xs have "r' = r" by simp
      with PSend Some sends_in_hand [OF cr h] show ?thesis by blast
    next
      case None
      let ?f = "\<lambda>s. s\<lparr>sendpc := PLoop\<rparr> :: 'a sws"
      let ?N = "N\<lparr>srvr := upd h ?f (srvr N)\<rparr>"
      have "hact h (srvr N) (upd h ?f (srvr N))" using hact.send_ok [OF PSend] None by simp
      from handler_moves [OF cr h this, of g] have 1: "nact g N ?N" by simp
      have "buf (watchStream (handlers (srvr N) ! h)) = r # rest" using xs PSend None by simp
      then obtain N' where "(nact g)\<^sup>*\<^sup>* ?N N'" "sent_one h r ?N N'"
        using sends_next [of ?N h r rest g] cr h by auto
      with 1 h show ?thesis
        by (intro exI [of _ N']) (auto simp: sent_one_def intro: converse_rtranclp_into_rtranclp)
    qed
  qed (use pc in simp)
qed

text \<open>A response that has been sent is received and taken.\<close>

lemma takes_next:
  assumes ok: "net_ok N" "sys_inv (cli N)" and cr: "crashed (cli N) = None" and l: "linked N h s k"
    and pc: "serves (heap (cli N) ! s) ! k = SRecv" "handed (heap (cli N) ! s)"
    and more: "arrived N h < length (out (handlers (srvr N) ! h))"
  shows "\<exists>N'. (nact g)\<^sup>*\<^sup>* N N' \<and>
    taken (heap (cli N') ! s) = taken (heap (cli N) ! s) @ [out (handlers (srvr N) ! h) ! arrived N h]"
proof -
  let ?r = "out (handlers (srvr N) ! h) ! arrived N h"
  note sk = links_okD(1,2) [OF ok(1) [unfolded net_ok_def, THEN conjunct1] l]
  let ?N1 = "N\<lparr>cli := receive_resp s k ?r (cli N), arrived := (arrived N)(h := Suc (arrived N h))\<rparr>"
  have lh: "h < length (handlers (srvr N))" "links N ! h = Some (s, k)"
    using l ok(1) by (simp_all add: linked_def net_ok_def links_ok_def)
  have 1: "nact g N ?N1" using cr lh sk pc(1) more by (intro nact.deliver) simp_all
  let ?w = "serve_to k (SResp ?r) ((heap (cli N) ! s)\<lparr>recvd := recvd (heap (cli N) ! s) @ [?r]\<rparr>)"
  let ?w' = "serve_to k SRecv (?w\<lparr>taken := taken ?w @ [?r]\<rparr>)"
  have c: "heap (cli ?N1) ! s = ?w" "length (heap (cli ?N1)) = length (heap (cli N))" "crashed (cli ?N1) = None"
    using sk cr by (simp_all add: receive_resp_def put_stream_def)
  have "sstep g (over (cli ?N1) (wgs_pctx ?w)) ?w ?w'" using sk pc(2) by (intro sstep.give_resp) simp_all
  then have "wstep g (cli ?N1) (put_stream s ?w' (cli ?N1))"
    using c sk(1) by (simp only: wstep_def) (intro conjI wact.stream; simp)
  moreover have "recvd (heap (put_stream s ?w' (cli ?N1)) ! j) = recvd (heap (cli ?N1) ! j)" for j
    using c sk(1) by (cases "j = s") (simp_all add: put_stream_def)
  then have "quiet_cli (cli ?N1) (put_stream s ?w' (cli ?N1))"
    by (simp add: quiet_cli_def put_stream_def)
  ultimately have "nact g ?N1 (?N1\<lparr>cli := put_stream s ?w' (cli ?N1)\<rparr>)" by (rule nact.client)
  with 1 have "(nact g)\<^sup>*\<^sup>* N (?N1\<lparr>cli := put_stream s ?w' (cli ?N1)\<rparr>)"
    by (meson converse_rtranclp_into_rtranclp r_into_rtranclp)
  moreover have "taken (heap (put_stream s ?w' (cli ?N1)) ! s) = taken (heap (cli N) ! s) @ [?r]"
    using c sk(1) by (simp add: put_stream_def)
  ultimately show ?thesis by (intro exI [of _ "?N1\<lparr>cli := put_stream s ?w' (cli ?N1)\<rparr>"]) simp
qed

text \<open>
  C3 (liveness).  Nothing gets stuck on the way: as long as the handler's \<^verbatim>\<open>sendLoop\<close> and the
  stream's receiving goroutine are there and \<^verbatim>\<open>Watch\<close> has returned, the next message in the
  history of the handler's channel that has not arrived yet can reach the consumer: there are
  steps of the two programs and of gRPC after which the consumer has taken exactly that message
  more.
\<close>

theorem response_reaches_consumer:
  assumes "nreach g N" and "crashed (cli N) = None" and "s_crashed (srvr N) = None"
    and h: "h < length (handlers (srvr N))" "links N ! h = Some (s, k)"
    and "serves (heap (cli N) ! s) ! k = SRecv" and "handed (heap (cli N) ! s)"
    and "sendpc (handlers (srvr N) ! h) \<noteq> PDone"
    and put: "put (watchStream (handlers (srvr N) ! h)) = before @ r # rest" "length before = arrived N h"
  shows "\<exists>N'. (nact g)\<^sup>*\<^sup>* N N' \<and> taken (heap (cli N') ! s) = taken (heap (cli N) ! s) @ [r]"
proof -
  note ok = nreach_net_ok [OF assms(1)]
  note sides = nreach_sides [OF assms(1)]
  let ?s = "handlers (srvr N) ! h"
  have l: "linked N h s k" using ok h by (simp add: linked_def net_ok_def links_ok_def)
  have sws: "sws_ok ?s" using sides srv_invD(1) [OF srv_reach_inv h(1)] by blast
  then obtain more where more: "put (watchStream ?s) = out ?s @ more" by (auto simp: sws_ok_def)
  have "arrived N h \<le> length (out ?s)" using ok h l by (auto simp: net_ok_def recvd_ok_def linked_def)
  show ?thesis
  proof (cases "arrived N h < length (out ?s)")
    case True
    then have "out ?s ! arrived N h = r" using more put by (metis nth_append nth_append_length)
    with takes_next [OF ok wreach_sys_inv assms(2) l assms(6,7) True] sides show ?thesis by auto
  next
    case False
    then have len: "arrived N h = length (out ?s)" using \<open>arrived N h \<le> _\<close> by simp
    then have "before = out ?s" "more = r # rest" using more put by (simp_all add: append_eq_append_conv)
    then obtain N1 where N1: "(nact g)\<^sup>*\<^sup>* N N1" "sent_one h r N N1"
      using sends_more [OF assms(3) h(1) sws assms(8)] more by auto
    have reach: "nreach g N1" using N1(1) assms(1) by (induction rule: rtranclp.induct) (auto intro: nreach.net_step)
    note sides1 = nreach_sides [OF reach]
    have "\<exists>N'. (nact g)\<^sup>*\<^sup>* N1 N' \<and> taken (heap (cli N') ! s) = taken (heap (cli N1) ! s) @ [r]"
      using takes_next [OF nreach_net_ok [OF reach] wreach_sys_inv, of g h s k g] sides1 N1(2) l assms(2,6,7) len
      by (auto simp: sent_one_def linked_def)
    with N1 show ?thesis by (auto simp: sent_one_def intro: rtranclp_trans)
  qed
qed

theorem response_reaches_consumer_witness:
  "\<exists>N N'. nreach demo_errors N \<and> (nact demo_errors)\<^sup>*\<^sup>* N N' \<and> taken (heap (cli N) ! 0) = [] \<and>
     taken (heap (cli N') ! 0) = [created_msg demo_watcher]"
proof -
  have "put (watchStream demo_out) = [] @ created_msg demo_watcher # []" by (simp add: demo_out_def)
  then obtain N' where "(nact demo_errors)\<^sup>*\<^sup>* (demo_net (demo_client demo_up) demo_out 0 1) N'"
    "taken (heap (cli N') ! 0) = taken demo_up @ [created_msg demo_watcher]"
    using response_reaches_consumer [OF demo_sent, of 0 0 0 "[]"]
    by (auto simp: demo_up_def demo_out_def new_sws_def pushed_def)
  with demo_sent show ?thesis
    by (intro exI [of _ "demo_net (demo_client demo_up) demo_out 0 1"] exI [of _ N'])
      (simp add: demo_up_def demo_w_def newWatcherGrpcStream_def)
qed

end
