(* ===== verification/StoreOps.thy ===== *)
theory StoreOps
  imports ServerProps
begin

text \<open>
  The operations of \<^verbatim>\<open>watchserver/watch_store.go\<close> each in one piece, as a caller sees them, and how
  the interleaved steps of WatchServer implement them.
\<close>

section \<open>The operations\<close>

definition createWatch :: "string \<Rightarrow> watcher \<Rightarrow> 'err srv \<Rightarrow> 'err srv outcome" where
  "createWatch watchID w \<sigma> =
     obind (send_to (w_ch w) (created_msg w) \<sigma>) (\<lambda>\<sigma>. Ret (store_watch watchID w \<sigma>))"

definition cancelWatch :: "string \<Rightarrow> 'err srv \<Rightarrow> 'err srv outcome" where
  "cancelWatch watchID \<sigma> =
     obind (case mget (watchers \<sigma>) watchID of
              Some w \<Rightarrow> send_to (w_ch w) (canceled_msg w) \<sigma>
            | None \<Rightarrow> Ret \<sigma>)
       (\<lambda>\<sigma>. Ret (drop_watch watchID \<sigma>))"

lemma sent_pcs:
  "send_to ch r \<sigma> = Ret \<rho> \<Longrightarrow> length (handlers \<rho>) = length (handlers \<sigma>) \<and> s_crashed \<rho> = s_crashed \<sigma> \<and>
    mainpc (handlers \<rho> ! h) = mainpc (handlers \<sigma> ! h) \<and> recvpc (handlers \<rho> ! h) = recvpc (handlers \<sigma> ! h)"
  by (cases "h = ch"; cases "ch < length (handlers \<sigma>)") (auto simp: send_to_Ret list_update_beyond)

section \<open>createWatch\<close>

text \<open>\<^verbatim>\<open>recvLoop\<close> in \<^verbatim>\<open>createWatch\<close> can run it to its end when the mutex is free.\<close>

lemma createWatch_runs:
  assumes "s_crashed \<sigma> = None" and "smu \<sigma> = None" and h: "h < length (handlers \<sigma>)"
    and pc: "recvpc (handlers \<sigma> ! h) = VCreate wid w" and "createWatch wid w \<sigma> = Ret \<rho>"
  shows "srv_steps \<sigma> (upd h (\<lambda>s. s\<lparr>s_watchID := wid, recvpc := VRecv\<rparr>) \<rho>)"
proof -
  obtain \<tau> where \<tau>: "send_to (w_ch w) (created_msg w) \<sigma> = Ret \<tau>" and \<rho>: "\<rho> = store_watch wid w \<tau>"
    using assms(5) by (auto simp: createWatch_def)
  note pcs = sent_pcs [OF \<tau>]
  let ?\<tau> = "upd h (\<lambda>s. s\<lparr>recvpc := VStore wid w\<rparr>) \<tau>"
  have "hact h \<sigma> ?\<tau>" by (rule hact.create_send [OF pc]) (simp only: \<tau> obind.simps becomes_simps)
  then have 1: "srv_steps \<sigma> ?\<tau>" using assms(1) h by (blast intro: srv_steps_snoc sact.handler srv_steps_refl)
  have "smu \<tau> = None" using \<tau> assms(2) by (auto simp: send_to_Ret)
  then have "hact h ?\<tau> (upd h (\<lambda>s. s\<lparr>s_watchID := wid, recvpc := VRecv\<rparr>) (store_watch wid w ?\<tau>))"
    using h pcs by (intro hact.create_store) simp_all
  then have "srv_steps \<sigma> (upd h (\<lambda>s. s\<lparr>s_watchID := wid, recvpc := VRecv\<rparr>) (store_watch wid w ?\<tau>))"
    using assms(1) h pcs by (intro srv_steps_snoc [OF 1] sact.handler) simp_all
  moreover have "upd h (\<lambda>s. s\<lparr>s_watchID := wid, recvpc := VRecv\<rparr>) (store_watch wid w ?\<tau>) =
      upd h (\<lambda>s. s\<lparr>s_watchID := wid, recvpc := VRecv\<rparr>) \<rho>"
    using h pcs by (simp add: \<rho> upd_def store_watch_def)
  ultimately show ?thesis by simp
qed

section \<open>cancelWatch is atomic\<close>

text \<open>
  The step in which a handler leaves \<^verbatim>\<open>cancelWatch\<close> has the whole effect of it, on the store as it
  is at that moment: between the lookup and the deletion the mutex is held, so the watcher that
  was found is still the one in the store.
\<close>

theorem cancelWatch_atomic_main:
  assumes "srv_reach \<sigma>" and h: "h < length (handlers \<sigma>)" and "hact h \<sigma> \<sigma>'" and "s_crashed \<sigma>' = s_crashed \<sigma>"
    and "mainpc (handlers \<sigma>' ! h) = MClose e" and "mainpc (handlers \<sigma> ! h) \<noteq> MClose e"
    and "s_crashed \<sigma> = None"
  shows "\<exists>wid \<rho>. cancelWatch wid \<sigma> = Ret \<rho> \<and> \<sigma>' = upd h (\<lambda>s. s\<lparr>mainpc := MClose e\<rparr>) \<rho> \<and>
    (mainpc (handlers \<sigma> ! h) = MCancel wid e \<or> (\<exists>w. mainpc (handlers \<sigma> ! h) = MNotify wid w e))"
  using assms(3)
proof (cases rule: hact.cases)
  case (main_miss wid e')
  then have "e' = e" using assms(5) h by simp
  with main_miss show ?thesis by (intro exI [of _ wid] exI [of _ "drop_watch wid \<sigma>"]) (simp add: cancelWatch_def)
next
  case (main_notify wid w e')
  have "mget (watchers \<sigma>) wid = Some w"
    using srv_invD(3) [OF srv_reach_inv [OF assms(1)] h] main_notify(1) by simp
  then have c: "cancelWatch wid \<sigma> = obind (send_to (w_ch w) (canceled_msg w) \<sigma>) (\<lambda>\<sigma>. Ret (drop_watch wid \<sigma>))"
    by (simp add: cancelWatch_def)
  show ?thesis
  proof (cases "send_to (w_ch w) (canceled_msg w) \<sigma>")
    case (Ret \<rho>)
    then have s: "\<sigma>' = upd h (\<lambda>s. s\<lparr>mainpc := MClose e'\<rparr>) (drop_watch wid \<rho>)" using main_notify(2) by simp
    have "length (handlers \<rho>) = length (handlers \<sigma>)" using Ret by (auto simp: send_to_Ret)
    then have "e' = e" using assms(5) h s by simp
    with s c Ret main_notify(1) show ?thesis by (intro exI [of _ wid] exI [of _ "drop_watch wid \<rho>"]) simp
  qed (use main_notify(2) assms(4,7) in auto)
next
  case (recv_req req)
  then show ?thesis using assms(4-7) h by (cases "recv_request h req") (auto simp: recv_next_took)
next
  case (create_send wid w)
  then show ?thesis using assms(4-7) h
    by (cases "send_to (w_ch w) (created_msg w) \<sigma>") (auto simp: sent_pcs)
next
  case (cancel_notify wid w)
  then show ?thesis using assms(4-7) h
    by (cases "send_to (w_ch w) (canceled_msg w) \<sigma>") (auto simp: sent_pcs)
next
  case (main_err e')
  then show ?thesis using assms(4-7) h by (auto simp: chan_close_def split: if_splits)
qed (use assms(5,6) h in auto)

text \<open>The same for \<^verbatim>\<open>recvLoop\<close>.\<close>

theorem cancelWatch_atomic_recv:
  assumes "srv_reach \<sigma>" and h: "h < length (handlers \<sigma>)" and "hact h \<sigma> \<sigma>'" and "s_crashed \<sigma>' = s_crashed \<sigma>"
    and "recvpc (handlers \<sigma>' ! h) = VDone" and "recvpc (handlers \<sigma> ! h) \<notin> {VRecv, VDone}"
    and "s_crashed \<sigma> = None"
  shows "\<exists>wid \<rho>. cancelWatch wid \<sigma> = Ret \<rho> \<and> \<sigma>' = upd h (\<lambda>s. s\<lparr>recvpc := VDone\<rparr>) \<rho> \<and>
    (recvpc (handlers \<sigma> ! h) = VCancel wid \<or> (\<exists>w. recvpc (handlers \<sigma> ! h) = VNotify wid w))"
  using assms(3)
proof (cases rule: hact.cases)
  case (cancel_miss wid)
  then show ?thesis by (intro exI [of _ wid] exI [of _ "drop_watch wid \<sigma>"]) (simp add: cancelWatch_def)
next
  case (cancel_notify wid w)
  have "mget (watchers \<sigma>) wid = Some w"
    using srv_invD(2) [OF srv_reach_inv [OF assms(1)] h] cancel_notify(1) by simp
  then have c: "cancelWatch wid \<sigma> = obind (send_to (w_ch w) (canceled_msg w) \<sigma>) (\<lambda>\<sigma>. Ret (drop_watch wid \<sigma>))"
    by (simp add: cancelWatch_def)
  show ?thesis
  proof (cases "send_to (w_ch w) (canceled_msg w) \<sigma>")
    case (Ret \<rho>)
    with cancel_notify c show ?thesis by (intro exI [of _ wid] exI [of _ "drop_watch wid \<rho>"]) simp
  qed (use cancel_notify(2) assms(4,7) in auto)
next
  case (create_send wid w)
  then show ?thesis using assms(4-7) h
    by (cases "send_to (w_ch w) (created_msg w) \<sigma>") (auto simp: sent_pcs)
next
  case (main_notify wid w e)
  then show ?thesis using assms(4-7) h
    by (cases "send_to (w_ch w) (canceled_msg w) \<sigma>") (auto simp: sent_pcs)
next
  case (main_err e)
  then show ?thesis using assms(4-7) h by (auto simp: chan_close_def split: if_splits)
qed (use assms(5,6) h in auto)

end
