(* ===== verification/ServerRaces.thy ===== *)
theory ServerRaces
  imports StoreOps
begin

text \<open>
  Two handlers and one watch identifier: \<^verbatim>\<open>watcherStore\<close> has one entry for an identifier, whoever
  uses it, and a handler that ends removes the entry of its identifier without looking whose
  it is.
\<close>

section \<open>A create request is served\<close>

lemma srv_steps_trans: "srv_steps a b \<Longrightarrow> srv_steps b c \<Longrightarrow> srv_steps a c"
  unfolding srv_steps_def by simp

lemma srv_steps_reach: "srv_steps \<sigma> \<sigma>' \<Longrightarrow> srv_reach \<sigma> \<Longrightarrow> srv_reach \<sigma>'"
  unfolding srv_steps_def by (induction rule: rtranclp.induct) (auto intro: srv_reach.step)

definition created_at :: "nat \<Rightarrow> WatchRequest \<Rightarrow> string \<Rightarrow> watcher \<Rightarrow> 'err srv \<Rightarrow> 'err srv" where
  "created_at k req wid w \<sigma> = store_watch wid w
     (upd k (\<lambda>s. (pushed (created_msg w) (s\<lparr>s_got := s_got s @ [req]\<rparr>))\<lparr>s_watchID := wid, recvpc := VRecv\<rparr>) \<sigma>)"

lemma create_served:
  assumes "s_crashed \<sigma> = None" and "smu \<sigma> = None" and k: "k < length (handlers \<sigma>)"
    and "recvpc (handlers \<sigma> ! k) = VRecv" and "\<not> chan_closed (watchStream (handlers \<sigma> ! k))"
    and "length (buf (watchStream (handlers \<sigma> ! k))) < chan_cap"
    and req: "recv_request k req = Ret (DoCreate wid w)" and w: "w_ch w = k"
  shows "srv_steps \<sigma> (created_at k req wid w \<sigma>)"
proof -
  let ?\<sigma>1 = "upd k (\<lambda>s. s\<lparr>s_got := s_got s @ [req], recvpc := VCreate wid w\<rparr>) \<sigma>"
  have "hact k \<sigma> ?\<sigma>1"
    using assms(4) req by (intro hact.recv_req [where req = req]) (simp_all add: recv_next_took)
  then have 1: "srv_steps \<sigma> ?\<sigma>1" using assms(1) k by (blast intro: srv_steps_snoc sact.handler srv_steps_refl)
  let ?\<rho> = "store_watch wid w (upd k (pushed (created_msg w)) ?\<sigma>1)"
  have "createWatch wid w ?\<sigma>1 = Ret ?\<rho>"
    using assms(5,6) k w by (simp add: createWatch_def send_to_Ret)
  then have "srv_steps ?\<sigma>1 (upd k (\<lambda>s. s\<lparr>s_watchID := wid, recvpc := VRecv\<rparr>) ?\<rho>)"
    using assms(1,2) k by (intro createWatch_runs) simp_all
  with 1 have "srv_steps \<sigma> (upd k (\<lambda>s. s\<lparr>s_watchID := wid, recvpc := VRecv\<rparr>) ?\<rho>)" by (rule srv_steps_trans)
  moreover have "upd k (\<lambda>s. s\<lparr>s_watchID := wid, recvpc := VRecv\<rparr>) ?\<rho> = created_at k req wid w \<sigma>"
    using k by (simp add: created_at_def store_watch_def upd_def pushed_def)
  ultimately show ?thesis by simp
qed

section \<open>A handler that ends takes the watch of another one with it\<close>

lemma stale_cleanup:
  fixes \<sigma> :: "'err srv"
  assumes "s_crashed \<sigma> = None" and "smu \<sigma> = None" and h: "h < length (handlers \<sigma>)"
    and k: "k < length (handlers \<sigma>)" "h \<noteq> k"
    and "mainpc (handlers \<sigma> ! h) = MWait" and "s_over (handlers \<sigma> ! h)" and "sendpc (handlers \<sigma> ! h) = PLoop"
    and "\<not> chan_closed (watchStream (handlers \<sigma> ! k))" and "length (buf (watchStream (handlers \<sigma> ! k))) < chan_cap"
    and "mget (watchers \<sigma>) (s_watchID (handlers \<sigma> ! h)) = Some w" and "w_ch w = k"
  shows "\<exists>\<sigma>' e. srv_steps \<sigma> \<sigma>' \<and> s_crashed \<sigma>' = None \<and> smu \<sigma>' = None \<and>
    watchers \<sigma>' = mdel (s_watchID (handlers \<sigma> ! h)) (watchers \<sigma>) \<and>
    mainpc (handlers \<sigma>' ! h) = MDone e \<and> handlers \<sigma>' ! k = pushed (canceled_msg w) (handlers \<sigma> ! k)"
proof -
  fix e :: 'err
  let ?s = "handlers \<sigma> ! h"
  let ?id = "s_watchID ?s" and ?ws = "watchers \<sigma>"
  note go = handler_at_act [OF _ _ h] and upd = handler_at_upd [OF _ _ h] and atD = handler_atD [OF _ h]
  have 0: "handler_at \<sigma> h \<sigma> ?s None ?ws" using assms by (simp add: handler_at_def)
  have "hact h \<sigma> (upd h (\<lambda>s. s\<lparr>mainpc := MCancel (s_watchID s) e\<rparr>) \<sigma>)"
    using assms(6,7) by (intro hact.main_ctx)
  from upd [OF 0 this] obtain \<tau>1 where 1: "handler_at \<sigma> h \<tau>1 (?s\<lparr>mainpc := MCancel ?id e\<rparr>) None ?ws" by blast
  let ?\<tau>2 = "upd h (\<lambda>s. s\<lparr>mainpc := MNotify ?id w e\<rparr>) (\<tau>1\<lparr>smu := Some (ByMain h)\<rparr>)"
  let ?s2 = "?s\<lparr>mainpc := MNotify ?id w e\<rparr>"
  have "hact h \<tau>1 ?\<tau>2" using atD [OF 1] assms(11) by (intro hact.main_hit) simp_all
  then have "handler_at \<sigma> h ?\<tau>2 ?s2 (Some (ByMain h)) ?ws" by (rule go [OF 1]) (use atD [OF 1] h in simp_all)
  then obtain \<tau>2 where 2: "handler_at \<sigma> h \<tau>2 ?s2 (Some (ByMain h)) ?ws" by blast
  note at2 = atD [OF 2]
  have k2: "handlers \<tau>2 ! k = handlers \<sigma> ! k" using at2(5) k by simp
  have len2: "length (handlers \<tau>2) = length (handlers \<sigma>)" using at2(5) by simp
  let ?\<tau>3 = "upd h (\<lambda>s. s\<lparr>mainpc := MClose e\<rparr>) (drop_watch ?id (upd k (pushed (canceled_msg w)) \<tau>2))"
  have "send_to k (canceled_msg w) \<tau>2 = Ret (upd k (pushed (canceled_msg w)) \<tau>2)"
    using assms(9,10) k2 by (simp add: send_to_Ret)
  then have "hact h \<tau>2 ?\<tau>3"
    using assms(12) at2(1) by (intro hact.main_notify [where wid = ?id and w = w and e = e]) simp_all
  then have act: "sact \<tau>2 ?\<tau>3" using h len2 by (intro sact.handler [of h]) simp_all
  have "srv_steps \<sigma> \<tau>2" "s_crashed \<tau>2 = None" using 2 by (simp_all add: handler_at_def)
  then have "srv_steps \<sigma> ?\<tau>3" using act by (rule srv_steps_snoc)
  moreover have "handlers ?\<tau>3 ! h = ?s\<lparr>mainpc := MClose e\<rparr>" using h k len2 at2(1) by simp
  moreover have "handlers ?\<tau>3 ! k = pushed (canceled_msg w) (handlers \<sigma> ! k)" using k k2 len2 by simp
  moreover have "length (handlers ?\<tau>3) = length (handlers \<sigma>)" using len2 by simp
  moreover have "smu ?\<tau>3 = None" "watchers ?\<tau>3 = mdel ?id ?ws" "s_crashed ?\<tau>3 = None" using at2 by simp_all
  ultimately obtain \<tau>3 where steps: "srv_steps \<sigma> \<tau>3" and n3: "handlers \<tau>3 ! h = ?s\<lparr>mainpc := MClose e\<rparr>"
    "handlers \<tau>3 ! k = pushed (canceled_msg w) (handlers \<sigma> ! k)" and l3: "length (handlers \<tau>3) = length (handlers \<sigma>)"
    and g3: "smu \<tau>3 = None" "watchers \<tau>3 = mdel ?id ?ws" "s_crashed \<tau>3 = None" by blast
  let ?s3 = "?s\<lparr>mainpc := MClose e\<rparr>"
  have l3: "h < length (handlers \<tau>3)" using h l3 by simp
  have 3: "handler_at \<tau>3 h \<tau>3 ?s3 None (mdel ?id ?ws)"
    using n3(1) g3 list_update_id [of "handlers \<tau>3" h] by (simp add: handler_at_def)
  note upd = handler_at_upd [OF _ _ l3] and atD = handler_atD [OF _ l3]
  have "hact h \<tau>3 (upd h (\<lambda>s. s\<lparr>closec := True, mainpc := MJoin e\<rparr>) \<tau>3)"
    using n3 by (intro hact.main_close [where e = e]) simp
  from upd [OF 3 this] obtain \<tau>4 where 4: "handler_at \<tau>3 h \<tau>4 (?s3\<lparr>closec := True, mainpc := MJoin e\<rparr>) None (mdel ?id ?ws)" by blast
  have "hact h \<tau>4 (upd h (\<lambda>s. s\<lparr>sendpc := PDone\<rparr>) \<tau>4)"
    using atD(1) [OF 4] assms(8) by (intro hact.send_closec) simp_all
  from upd [OF 4 this] obtain \<tau>5 where
    5: "handler_at \<tau>3 h \<tau>5 (?s3\<lparr>closec := True, mainpc := MJoin e, sendpc := PDone\<rparr>) None (mdel ?id ?ws)" by auto
  have "hact h \<tau>5 (upd h (\<lambda>s. s\<lparr>mainpc := MDone e\<rparr>) \<tau>5)"
    using atD(1) [OF 5] by (intro hact.main_join [where e = e]) simp_all
  from upd [OF 5 this] obtain \<tau>6 where
    6: "handler_at \<tau>3 h \<tau>6 (?s3\<lparr>closec := True, sendpc := PDone, mainpc := MDone e\<rparr>) None (mdel ?id ?ws)" by auto
  have "srv_steps \<sigma> \<tau>6" using srv_steps_trans [OF steps] 6 by (simp add: handler_at_def)
  moreover have "handlers \<tau>6 ! k = pushed (canceled_msg w) (handlers \<sigma> ! k)" using atD(5) [OF 6] n3 k by simp
  ultimately show ?thesis using atD [OF 6] by (intro exI [of _ \<tau>6] exI [of _ e]) simp
qed

text \<open>
  C31 (liveness).  A reconnect can lose its watch for good.  A handler \<open>h\<close> whose client context has
  ended has not cleaned up yet, and the create request for the same identifier arrives at
  handler \<open>k\<close>, the one of the new connection: then the server can take over the watch, tell the
  new connection that it is created, and let the old handler's \<^verbatim>\<open>cancelWatch\<close> tell the new
  connection that it is canceled and remove its watch, while handler \<open>k\<close> stays as it is,
  waiting for requests of a client that gets no updates any more.
\<close>

theorem reconnect_loses_watch:
  assumes "srv_reach \<sigma>" and "s_crashed \<sigma> = None" and "smu \<sigma> = None"
    and h: "h < length (handlers \<sigma>)" and k: "k < length (handlers \<sigma>)" "h \<noteq> k"
    and old: "mainpc (handlers \<sigma> ! h) = MWait" "s_over (handlers \<sigma> ! h)" "sendpc (handlers \<sigma> ! h) = PLoop"
      "s_watchID (handlers \<sigma> ! h) = wid"
    and new: "recvpc (handlers \<sigma> ! k) = VRecv" "mainpc (handlers \<sigma> ! k) = MWait"
      "length (buf (watchStream (handlers \<sigma> ! k))) < 15"
    and req: "recv_request k req = Ret (DoCreate wid w)"
  shows "\<exists>\<sigma>' e. srv_steps \<sigma> \<sigma>' \<and> s_crashed \<sigma>' = None \<and> smu \<sigma>' = None \<and> mainpc (handlers \<sigma>' ! h) = MDone e \<and>
    mget (watchers \<sigma>') wid = None \<and>
    put (watchStream (handlers \<sigma>' ! k)) = put (watchStream (handlers \<sigma> ! k)) @ [created_msg w, canceled_msg w] \<and>
    mainpc (handlers \<sigma>' ! k) = MWait \<and> recvpc (handlers \<sigma>' ! k) = VRecv"
proof -
  have w: "w_ch w = k" using req by (rule recv_request_ch)
  have open': "\<not> chan_closed (watchStream (handlers \<sigma> ! k))"
    using srv_invD(1) [OF srv_reach_inv [OF assms(1)] k(1)] new(2) by (auto simp: sws_ok_def)
  have steps: "srv_steps \<sigma> (created_at k req wid w \<sigma>)"
    using assms(2,3) k new open' req w by (intro create_served) (simp_all add: chan_cap_def)
  have at: "handlers (created_at k req wid w \<sigma>) ! h = handlers \<sigma> ! h"
    "handlers (created_at k req wid w \<sigma>) ! k =
      (pushed (created_msg w) ((handlers \<sigma> ! k)\<lparr>s_got := s_got (handlers \<sigma> ! k) @ [req]\<rparr>))\<lparr>s_watchID := wid, recvpc := VRecv\<rparr>"
    "s_crashed (created_at k req wid w \<sigma>) = None" "smu (created_at k req wid w \<sigma>) = None"
    "length (handlers (created_at k req wid w \<sigma>)) = length (handlers \<sigma>)"
    "mget (watchers (created_at k req wid w \<sigma>)) wid = Some w"
    using assms(2,3) h k by (simp_all add: created_at_def am.get_put)
  obtain \<tau> where \<tau>: "\<tau> = created_at k req wid w \<sigma>" by simp
  obtain \<sigma>' e where "srv_steps \<tau> \<sigma>'" "s_crashed \<sigma>' = None" "smu \<sigma>' = None"
    "watchers \<sigma>' = mdel wid (watchers \<tau>)" "mainpc (handlers \<sigma>' ! h) = MDone e"
    "handlers \<sigma>' ! k = pushed (canceled_msg w) (handlers \<tau> ! k)"
    using stale_cleanup [of \<tau> h k w] at h k old new open' w by (auto simp: \<tau> chan_cap_def)
  with steps at(2) new(2) show ?thesis
    by (intro exI [of _ \<sigma>'] exI [of _ e]) (auto simp: \<tau> am.get_del intro: srv_steps_trans)
qed

lemma demo_two_handlers:
  "srv_reach (demo_srv None [(''w'', demo_watcher)] Ticking s) \<Longrightarrow>
    srv_reach (demo_srv None [(''w'', demo_watcher)] Ticking s\<lparr>handlers := [s, new_sws]\<rparr>)"
  using demo_act [OF _ sact.accept] by fastforce

theorem reconnect_loses_watch_witness:
  "\<exists>\<sigma> \<sigma>' w. srv_reach (\<sigma> :: demo_err srv) \<and> mget (watchers \<sigma>) ''w'' = Some demo_watcher \<and> srv_steps \<sigma> \<sigma>' \<and>
     mget (watchers \<sigma>') ''w'' = None \<and> put (watchStream (handlers \<sigma>' ! 1)) = [created_msg w, canceled_msg w]"
proof -
  let ?w = "demo_watcher\<lparr>w_ch := 1\<rparr>"
  have "recv_request 1 demo_req = Ret (DoCreate ''w'' ?w)"
    by (simp add: recv_request_def demo_req_def newWatcher_def demo_watcher_def)
  note this = reconnect_loses_watch [OF demo_two_handlers [OF demo_ctx_over] _ _ _ _ _ _ _ _ _ _ _ _ this, where h = 0]
  then obtain \<sigma>' where "srv_steps (demo_srv None [(''w'', demo_watcher)] Ticking (demo_conn\<lparr>s_over := True\<rparr>)
      \<lparr>handlers := [demo_conn\<lparr>s_over := True\<rparr>, new_sws]\<rparr>) \<sigma>'"
    "mget (watchers \<sigma>') ''w'' = None" "put (watchStream (handlers \<sigma>' ! 1)) = [created_msg ?w, canceled_msg ?w]"
    by (auto simp: new_sws_def make_chan_def)
  with demo_two_handlers [OF demo_ctx_over] show ?thesis by (intro exI conjI) simp_all
qed

end
