(* ===== verification/ServerLeaks.thy ===== *)
theory ServerLeaks
  imports ServerRaces
begin

text \<open>
  Watches that outlive their handler.  A handler that returns cancels the watch it knows of and
  does not wait for its \<^verbatim>\<open>recvLoop\<close>, which may still be about to create one; nobody reads that
  watch's channel any more, and \<^verbatim>\<open>mockWatch\<close> goes on filling it.
\<close>

section \<open>A handler that ends without a watch\<close>

lemma handler_leaves:
  fixes \<sigma> :: "'err srv"
  assumes "s_crashed \<sigma> = None" and "smu \<sigma> = None" and h: "h < length (handlers \<sigma>)"
    and "mainpc (handlers \<sigma> ! h) = MWait" and "s_over (handlers \<sigma> ! h)" and "sendpc (handlers \<sigma> ! h) = PLoop"
    and "mget (watchers \<sigma>) (s_watchID (handlers \<sigma> ! h)) = None"
  shows "\<exists>\<tau>. handler_at \<sigma> h \<tau> ((handlers \<sigma> ! h)\<lparr>closec := True, sendpc := PDone, mainpc := MDone e\<rparr>) None
    (mdel (s_watchID (handlers \<sigma> ! h)) (watchers \<sigma>))"
proof -
  let ?s = "handlers \<sigma> ! h"
  let ?id = "s_watchID ?s" and ?ws = "watchers \<sigma>"
  note go = handler_at_act [OF _ _ h] and upd = handler_at_upd [OF _ _ h] and atD = handler_atD [OF _ h]
  have 0: "handler_at \<sigma> h \<sigma> ?s None ?ws" using assms by (simp add: handler_at_def)
  have "hact h \<sigma> (upd h (\<lambda>s. s\<lparr>mainpc := MCancel (s_watchID s) e\<rparr>) \<sigma>)"
    using assms(4,5) by (intro hact.main_ctx)
  from upd [OF 0 this] obtain \<tau>1 where 1: "handler_at \<sigma> h \<tau>1 (?s\<lparr>mainpc := MCancel ?id e\<rparr>) None ?ws" by blast
  let ?\<tau>2 = "upd h (\<lambda>s. s\<lparr>mainpc := MClose e\<rparr>) (drop_watch ?id \<tau>1)"
  have "hact h \<tau>1 ?\<tau>2" using atD [OF 1] assms(7) by (intro hact.main_miss) simp_all
  then have "handler_at \<sigma> h ?\<tau>2 (?s\<lparr>mainpc := MClose e\<rparr>) None (mdel ?id ?ws)"
    by (rule go [OF 1]) (use atD [OF 1] h in simp_all)
  then obtain \<tau>2 where 2: "handler_at \<sigma> h \<tau>2 (?s\<lparr>mainpc := MClose e\<rparr>) None (mdel ?id ?ws)" by blast
  have "hact h \<tau>2 (upd h (\<lambda>s. s\<lparr>closec := True, mainpc := MJoin e\<rparr>) \<tau>2)"
    using atD(1) [OF 2] by (intro hact.main_close [where e = e]) simp
  from upd [OF 2 this] obtain \<tau>3 where 3: "handler_at \<sigma> h \<tau>3 (?s\<lparr>closec := True, mainpc := MJoin e\<rparr>) None (mdel ?id ?ws)"
    by auto
  have "hact h \<tau>3 (upd h (\<lambda>s. s\<lparr>sendpc := PDone\<rparr>) \<tau>3)"
    using atD(1) [OF 3] assms(6) by (intro hact.send_closec) simp_all
  from upd [OF 3 this] obtain \<tau>4 where
    4: "handler_at \<sigma> h \<tau>4 (?s\<lparr>closec := True, mainpc := MJoin e, sendpc := PDone\<rparr>) None (mdel ?id ?ws)" by auto
  have "hact h \<tau>4 (upd h (\<lambda>s. s\<lparr>mainpc := MDone e\<rparr>) \<tau>4)"
    using atD(1) [OF 4] by (intro hact.main_join [where e = e]) simp_all
  from upd [OF 4 this] show ?thesis by auto
qed

section \<open>A channel that nobody reads\<close>

text \<open>The only watch of the store belongs to a channel whose \<^verbatim>\<open>sendLoop\<close> is gone.\<close>

definition orphaned :: "string \<Rightarrow> watcher \<Rightarrow> 'err srv \<Rightarrow> bool" where
  "orphaned wid w \<sigma> \<longleftrightarrow> s_crashed \<sigma> = None \<and> smu \<sigma> = None \<and> mock \<sigma> = Ticking \<and> watchers \<sigma> = [(wid, w)] \<and>
     w_ch w < length (handlers \<sigma>) \<and> sendpc (handlers \<sigma> ! w_ch w) = PDone \<and>
     \<not> chan_closed (watchStream (handlers \<sigma> ! w_ch w))"

text \<open>One round of \<^verbatim>\<open>mockWatch\<close> puts one message more into it.\<close>

lemma mock_round:
  assumes "orphaned wid w \<sigma>" and "length (buf (watchStream (handlers \<sigma> ! w_ch w))) < chan_cap"
  shows "srv_steps \<sigma> (upd (w_ch w) (pushed (update_msg w)) \<sigma>)"
proof -
  note o = assms(1) [unfolded orphaned_def]
  let ?\<sigma>1 = "\<sigma>\<lparr>smu := Some ByMock, mock := Visiting [w]\<rparr>"
  have "sact \<sigma> ?\<sigma>1" using o by (intro sact.tick) (simp_all add: vals_def)
  then have 1: "srv_steps \<sigma> ?\<sigma>1" using o by (intro srv_steps_snoc [OF srv_steps_refl]) simp_all
  let ?\<sigma>2 = "(upd (w_ch w) (pushed (update_msg w)) ?\<sigma>1)\<lparr>mock := Visiting []\<rparr>"
  have snd: "send_to (w_ch w) (update_msg w) ?\<sigma>1 = Ret (upd (w_ch w) (pushed (update_msg w)) ?\<sigma>1)"
    using o assms(2) by (simp add: send_to_Ret)
  have "sact ?\<sigma>1 ?\<sigma>2"
    by (rule sact.visit [where w = w and ws = "[]"]) (simp, simp only: snd obind.simps becomes_simps)
  then have 2: "srv_steps \<sigma> ?\<sigma>2" using o by (intro srv_steps_snoc [OF 1]) simp_all
  have "sact ?\<sigma>2 (?\<sigma>2\<lparr>smu := None, mock := Ticking\<rparr>)" by (rule sact.visited) simp
  then have "srv_steps \<sigma> (?\<sigma>2\<lparr>smu := None, mock := Ticking\<rparr>)" using o by (intro srv_steps_snoc [OF 2]) simp_all
  moreover have "?\<sigma>2\<lparr>smu := None, mock := Ticking\<rparr> = upd (w_ch w) (pushed (update_msg w)) \<sigma>"
    using o by (simp add: upd_def)
  ultimately show ?thesis by simp
qed

text \<open>So the next round but the sixteenth at most is stuck.\<close>

lemma mock_gets_stuck:
  assumes "orphaned wid w \<sigma>" and "length (buf (watchStream (handlers \<sigma> ! w_ch w))) \<le> chan_cap"
  shows "\<exists>\<sigma>'. srv_steps \<sigma> \<sigma>' \<and> s_crashed \<sigma>' = None \<and> wedged w [] \<sigma>' \<and> watchers \<sigma>' = [(wid, w)] \<and>
    mainpc (handlers \<sigma>' ! w_ch w) = mainpc (handlers \<sigma> ! w_ch w)"
  using assms
proof (induction "chan_cap - length (buf (watchStream (handlers \<sigma> ! w_ch w)))" arbitrary: \<sigma>)
  case 0
  note o = 0(2) [unfolded orphaned_def]
  let ?\<sigma> = "\<sigma>\<lparr>smu := Some ByMock, mock := Visiting [w]\<rparr>"
  have "sact \<sigma> ?\<sigma>" using o by (intro sact.tick) (simp_all add: vals_def)
  then have "srv_steps \<sigma> ?\<sigma>" using o by (intro srv_steps_snoc [OF srv_steps_refl]) simp_all
  then show ?case using 0 o by (intro exI [of _ ?\<sigma>]) (simp add: wedged_def)
next
  case (Suc n)
  let ?\<sigma> = "upd (w_ch w) (pushed (update_msg w)) \<sigma>"
  note o = Suc.prems(1) [unfolded orphaned_def]
  have room: "length (buf (watchStream (handlers \<sigma> ! w_ch w))) < chan_cap" using Suc.hyps(2) by linarith
  have at: "handlers ?\<sigma> ! w_ch w = pushed (update_msg w) (handlers \<sigma> ! w_ch w)" using o by simp
  have "orphaned wid w ?\<sigma>" using o by (simp add: orphaned_def)
  moreover have "n = chan_cap - length (buf (watchStream (handlers ?\<sigma> ! w_ch w)))"
    using Suc.hyps(2) at by simp
  moreover have "length (buf (watchStream (handlers ?\<sigma> ! w_ch w))) \<le> chan_cap" using room at by simp
  ultimately obtain \<sigma>' where "srv_steps ?\<sigma> \<sigma>'" "s_crashed \<sigma>' = None" "wedged w [] \<sigma>'" "watchers \<sigma>' = [(wid, w)]"
    "mainpc (handlers \<sigma>' ! w_ch w) = mainpc (handlers ?\<sigma> ! w_ch w)"
    using Suc.hyps(1) by blast
  with mock_round [OF Suc.prems(1) room] at show ?case by (auto intro: srv_steps_trans)
qed

section \<open>One client that leaves stops the server\<close>

text \<open>
  C39 (liveness).  A client that leaves at the wrong moment stops the server for everybody.  Let a
  handler have received its first create request while its client's context ends, no other
  watch being there: then the handler can return, the watch be created after that, and
  \<^verbatim>\<open>mockWatch\<close> fill its channel, which nobody reads; from then on, unless a panic ends the program,
  \<^verbatim>\<open>mockWatch\<close> keeps the store's mutex, and no watch is ever created, updated or cancelled again.
\<close>

theorem leaving_client_stops_store:
  fixes \<sigma> :: "'err srv"
  assumes "srv_reach \<sigma>" and "s_crashed \<sigma> = None" and "smu \<sigma> = None" and "watchers \<sigma> = []"
    and h: "h < length (handlers \<sigma>)" and "mainpc (handlers \<sigma> ! h) = MWait" and "s_over (handlers \<sigma> ! h)"
    and "sendpc (handlers \<sigma> ! h) = PLoop" and "length (buf (watchStream (handlers \<sigma> ! h))) < 16"
    and "recvpc (handlers \<sigma> ! h) = VCreate wid w"
  shows "\<exists>\<sigma>' e. srv_steps \<sigma> \<sigma>' \<and> s_crashed \<sigma>' = None \<and> mainpc (handlers \<sigma>' ! h) = MDone e \<and>
    (\<forall>\<sigma>''. srv_steps \<sigma>' \<sigma>'' \<longrightarrow> s_crashed \<sigma>'' \<noteq> None \<or>
       smu \<sigma>'' = Some ByMock \<and> mock \<sigma>'' = Visiting [w] \<and> watchers \<sigma>'' = [(wid, w)])"
proof -
  fix e :: 'err
  let ?s = "handlers \<sigma> ! h"
  note inv = srv_invD [OF srv_reach_inv [OF assms(1)] h]
  have w: "w_ch w = h" and open': "\<not> chan_closed (watchStream ?s)"
    using inv assms(6,10) by (auto simp: sws_ok_def)
  let ?t = "?s\<lparr>closec := True, sendpc := PDone, mainpc := MDone e\<rparr>"
  have "mdel (s_watchID ?s) (watchers \<sigma>) = []" using assms(4) by simp
  then obtain \<tau> where at: "handler_at \<sigma> h \<tau> ?t None []"
    using handler_leaves [OF assms(2,3) h assms(6,7,8), of e] assms(4) by auto
  note \<tau> = handler_atD [OF at h]
  have len: "h < length (handlers \<tau>)" using \<tau>(5) h by simp
  let ?\<rho> = "store_watch wid w (upd h (pushed (created_msg w)) \<tau>)"
  have "createWatch wid w \<tau> = Ret ?\<rho>"
    using \<tau>(1) open' assms(9) w by (simp add: createWatch_def send_to_Ret chan_cap_def)
  then have "srv_steps \<tau> (upd h (\<lambda>s. s\<lparr>s_watchID := wid, recvpc := VRecv\<rparr>) ?\<rho>)"
    using \<tau> assms(10) by (intro createWatch_runs [OF _ _ len]) simp_all
  then obtain \<rho> where steps: "srv_steps \<tau> \<rho>" and \<rho>: "\<rho> = upd h (\<lambda>s. s\<lparr>s_watchID := wid, recvpc := VRecv\<rparr>) ?\<rho>"
    by blast
  have \<rho>steps: "srv_steps \<sigma> \<rho>" using at steps by (auto simp: handler_at_def intro: srv_steps_trans)
  have \<rho>h: "handlers \<rho> ! h = (pushed (created_msg w) ?t)\<lparr>s_watchID := wid, recvpc := VRecv\<rparr>"
    and \<rho>o: "s_crashed \<rho> = None" "smu \<rho> = None" "watchers \<rho> = [(wid, w)]" "h < length (handlers \<rho>)"
    using \<tau> len by (simp_all add: \<rho>)
  have "srv_inv \<rho>" using srv_reach_inv srv_steps_reach [OF \<rho>steps assms(1)] by blast
  then have "mock \<rho> = Ticking" using \<rho>o(2) by (cases "mock \<rho>") (simp_all add: srv_inv_def)
  then have orph: "orphaned wid w \<rho>" using \<rho>o \<rho>h open' w by (simp add: orphaned_def)
  moreover have "length (buf (watchStream (handlers \<rho> ! w_ch w))) \<le> chan_cap"
    using \<rho>h assms(9) w by (simp add: chan_cap_def)
  ultimately obtain \<sigma>' where \<sigma>': "srv_steps \<rho> \<sigma>'" "s_crashed \<sigma>' = None" "wedged w [] \<sigma>'" "watchers \<sigma>' = [(wid, w)]"
    "mainpc (handlers \<sigma>' ! h) = MDone e"
    using mock_gets_stuck [OF orph] \<rho>h w by auto
  have steps': "srv_steps \<sigma> \<sigma>'" using srv_steps_trans [OF \<rho>steps \<sigma>'(1)] .
  have "s_crashed \<sigma>'' \<noteq> None \<or> smu \<sigma>'' = Some ByMock \<and> mock \<sigma>'' = Visiting [w] \<and> watchers \<sigma>'' = [(wid, w)]"
    if "srv_steps \<sigma>' \<sigma>''" for \<sigma>''
    using dead_client_blocks_store [OF srv_steps_reach [OF steps' assms(1)] _ _ _ that, of w "[]"] \<sigma>'(3,4)
    by (auto simp: wedged_def chan_cap_def)
  with steps' \<sigma>'(2,5) show ?thesis by blast
qed

text \<open>The handler of \<open>demo_req\<close>, whose client leaves as soon as it has asked for its watch.\<close>

theorem leaving_client_stops_store_witness:
  "\<exists>\<sigma> \<sigma>' :: demo_err srv. srv_reach \<sigma> \<and> watchers \<sigma> = [] \<and> srv_steps \<sigma> \<sigma>' \<and> s_crashed \<sigma>' = None \<and>
     (\<forall>\<sigma>''. srv_steps \<sigma>' \<sigma>'' \<longrightarrow> s_crashed \<sigma>'' \<noteq> None \<or>
       smu \<sigma>'' = Some ByMock \<and> mock \<sigma>'' = Visiting [demo_watcher] \<and> watchers \<sigma>'' = [(''w'', demo_watcher)])"
proof -
  let ?s = "new_sws\<lparr>recvpc := VCreate ''w'' demo_watcher, s_got := [demo_req]\<rparr>"
  have 0: "srv_reach (demo_srv None [] Ticking new_sws)"
    using srv_reach_act [OF srv_reach.init _ sact.accept] by (simp add: newWatcherStore_def demo_srv_def)
  have "recv_request 0 demo_req = Ret (DoCreate ''w'' demo_watcher)"
    by (simp add: recv_request_def demo_req_def newWatcher_def demo_watcher_def)
  with demo_handler [OF 0 hact.recv_req [where req = demo_req]]
  have "srv_reach (demo_srv None [] Ticking ?s)" by (simp add: new_sws_def recv_next_def)
  from demo_handler [OF this hact.ctx_over] have 1: "srv_reach (demo_srv None [] Ticking (?s\<lparr>s_over := True\<rparr>))" by simp
  from leaving_client_stops_store [OF 1, of 0 "''w''" demo_watcher] obtain \<sigma>' where
    "srv_steps (demo_srv None [] Ticking (?s\<lparr>s_over := True\<rparr>)) \<sigma>'" "s_crashed \<sigma>' = None"
    "\<forall>\<sigma>''. srv_steps \<sigma>' \<sigma>'' \<longrightarrow> s_crashed \<sigma>'' \<noteq> None \<or>
       smu \<sigma>'' = Some ByMock \<and> mock \<sigma>'' = Visiting [demo_watcher] \<and> watchers \<sigma>'' = [(''w'', demo_watcher)]"
    by (auto simp: new_sws_def make_chan_def)
  with 1 show ?thesis by (intro exI [of _ "demo_srv None [] Ticking (?s\<lparr>s_over := True\<rparr>)"] exI [of _ \<sigma>']) simp
qed

end
