(* ===== verification/Etcd.thy ===== *)
theory Etcd
  imports GoStrings
begin

text \<open>
  The vocabulary of the etcd client that \<^verbatim>\<open>grpclient/concurrency\<close> uses: the requests it
  builds and the responses it reads.  The server is not part of the repository: every
  operation of it is a parameter of the definitions that call it, and what they rely on is
  the named hypothesis \<open>etcd_ok\<close>, stated over the history of the key space.
\<close>

section \<open>Requests and responses\<close>

record kv =
  kv_key :: string
  kv_value :: string
  create_rev :: int
  mod_rev :: int

datatype put_opt = WithLease int

record get_opts =
  at_rev :: "int option"
  local_read :: bool

definition no_opts :: get_opts where
  "no_opts = \<lparr>at_rev = None, local_read = False\<rparr>"

datatype op =
    OpPut string string "put_opt list"
  | OpDelete string
  | OpGet string get_opts
  | OpFirst string

datatype cmp =
    ModEq string int
  | ModLess string int
  | CreateEq string int

text \<open>
  A range response, and the response to a transaction; \<^verbatim>\<open>GetResponseRange\<close> gives nil for the
  response to a write.
\<close>

record getresp =
  hdr_rev :: int
  kvs :: "kv list"

record txnresp =
  succeeded :: bool
  tx_rev :: int
  responses :: "getresp option list"

text \<open>
  A transaction with its comparisons, its \<^verbatim>\<open>Then\<close> and its \<^verbatim>\<open>Else\<close> operations; the first
  argument counts the calls, since the server's state changes between them.
\<close>

type_synonym 'err txn = "nat \<Rightarrow> cmp list \<Rightarrow> op list \<Rightarrow> op list \<Rightarrow> txnresp + 'err"

section \<open>What etcd documents\<close>

text \<open>
  The history of the key space: what a key held as of a revision.  Revisions are positive, a
  key's modification revision is not later than the revision at which it is seen, and two
  sightings of a key with the same modification revision are the same.
\<close>

type_synonym view = "string \<Rightarrow> kv option"

type_synonym history = "int \<Rightarrow> view"

definition history_ok :: "history \<Rightarrow> bool" where
  "history_ok V \<longleftrightarrow>
     (\<forall>r k x. V r k = Some x \<longrightarrow> kv_key x = k \<and> 0 < create_rev x \<and> create_rev x \<le> mod_rev x \<and> mod_rev x \<le> r) \<and>
     (\<forall>r q k x y. V r k = Some x \<longrightarrow> V q k = Some y \<longrightarrow> mod_rev x = mod_rev y \<longrightarrow> x = y)"

text \<open>An absent key has revision 0.\<close>

definition rev_of :: "(kv \<Rightarrow> int) \<Rightarrow> kv option \<Rightarrow> int" where
  "rev_of f x = (case x of None \<Rightarrow> 0 | Some x \<Rightarrow> f x)"

fun cmp_holds :: "view \<Rightarrow> cmp \<Rightarrow> bool" where
  "cmp_holds W (ModEq k r) = (rev_of mod_rev (W k) = r)"
| "cmp_holds W (ModLess k r) = (rev_of mod_rev (W k) < r)"
| "cmp_holds W (CreateEq k r) = (rev_of create_rev (W k) = r)"

definition opt_list :: "'a option \<Rightarrow> 'a list" where
  "opt_list x = (case x of None \<Rightarrow> [] | Some x \<Rightarrow> [x])"

fun is_read :: "op \<Rightarrow> bool" where
  "is_read (OpGet k opts) = True"
| "is_read _ = False"

fun is_local :: "op \<Rightarrow> bool" where
  "is_local (OpGet k opts) = local_read opts"
| "is_local _ = False"

text \<open>
  A read at revision \<open>r\<close>: it reports \<open>r\<close> and finds the key as of \<open>r\<close>, or as of the revision
  it asks for, which is not a future one.
\<close>

fun not_future :: "int \<Rightarrow> op \<Rightarrow> bool" where
  "not_future r (OpGet k opts) = (case at_rev opts of Some q \<Rightarrow> q \<le> r | None \<Rightarrow> True)"
| "not_future r _ = True"

fun read_answer :: "history \<Rightarrow> int \<Rightarrow> op \<Rightarrow> getresp option \<Rightarrow> bool" where
  "read_answer V r (OpGet k opts) x =
     (not_future r (OpGet k opts) \<and>
      x = Some \<lparr>hdr_rev = r, kvs = opt_list (V (case at_rev opts of Some q \<Rightarrow> q | None \<Rightarrow> r) k)\<rparr>)"
| "read_answer V r _ x = (x = None)"

text \<open>
  A transaction without an error: its comparisons are evaluated at the store's current
  revision, the chosen operations are answered one by one, and reads are all answered at one
  revision, the current one unless serializable (local) reads were asked for.
\<close>

definition etcd_ok :: "history \<Rightarrow> (nat \<Rightarrow> int) \<Rightarrow> 'err txn \<Rightarrow> bool" where
  "etcd_ok V revs txn \<longleftrightarrow> history_ok V \<and>
     (\<forall>i cmps thens elses resp. txn i cmps thens elses = Inl resp \<longrightarrow>
        succeeded resp = (\<forall>c \<in> set cmps. cmp_holds (V (revs i)) c) \<and>
        (let ops = (if succeeded resp then thens else elses)
         in length (responses resp) = length ops \<and>
            ((\<forall>p \<in> set ops. is_read p) \<longrightarrow>
              (\<exists>r \<le> revs i. ((\<forall>p \<in> set ops. \<not> is_local p) \<longrightarrow> r = revs i) \<and>
                (\<forall>j < length ops. read_answer V r (ops ! j) (responses resp ! j))))))"

text \<open>A concrete server that answers this way from a given history.\<close>

definition answer :: "history \<Rightarrow> int \<Rightarrow> op \<Rightarrow> getresp option" where
  "answer V r p = (case p of
     OpGet k opts \<Rightarrow> Some \<lparr>hdr_rev = r, kvs = opt_list (V (case at_rev opts of Some q \<Rightarrow> q | None \<Rightarrow> r) k)\<rparr>
   | _ \<Rightarrow> None)"

definition history_txn :: "'err \<Rightarrow> history \<Rightarrow> (nat \<Rightarrow> int) \<Rightarrow> 'err txn" where
  "history_txn err V revs i cmps thens elses =
     (let ok = list_all (cmp_holds (V (revs i))) cmps;
          ops = (if ok then thens else elses)
      in if list_all (not_future (revs i)) ops
         then Inl \<lparr>succeeded = ok, tx_rev = revs i, responses = map (answer V (revs i)) ops\<rparr>
         else Inr err)"

lemma answer_ok: "is_read p \<Longrightarrow> not_future r p \<Longrightarrow> read_answer V r p (answer V r p)"
  by (cases p) (simp_all add: answer_def)

lemma history_txn_ok: "history_ok V \<Longrightarrow> etcd_ok V revs (history_txn err V revs)"
  by (auto simp: etcd_ok_def history_txn_def Let_def list_all_iff answer_ok split: if_splits
      intro!: exI [of _ "revs _"])

text \<open>The consequences the clients use.\<close>

lemma same_mod_rev:
  assumes "history_ok V" and "rev_of mod_rev (V r k) = rev_of mod_rev (V q k)"
  shows "V r k = V q k"
proof -
  have pos: "0 < mod_rev x" if "V r k = Some x" for r x
    using that assms(1) unfolding history_ok_def by fastforce
  show ?thesis
  proof (cases "V r k")
    case None
    with assms(2) pos [of q] show ?thesis by (auto simp: rev_of_def split: option.splits)
  next
    case (Some x)
    with assms pos [of r] obtain y where "V q k = Some y" "mod_rev x = mod_rev y"
      by (auto simp: rev_of_def split: option.splits)
    with Some assms(1) show ?thesis unfolding history_ok_def by metis
  qed
qed

lemma etcd_okD:
  assumes "etcd_ok V revs txn" and "txn i cmps thens elses = Inl resp"
  shows "succeeded resp \<longleftrightarrow> (\<forall>c \<in> set cmps. cmp_holds (V (revs i)) c)"
    and "length (responses resp) = length (if succeeded resp then thens else elses)"
  using assms by (auto simp: etcd_ok_def Let_def)

lemma etcd_reads:
  assumes "etcd_ok V revs txn" and "txn i cmps thens elses = Inl resp"
    and "(if succeeded resp then thens else elses) = map (\<lambda>k. OpGet k opts) keys"
  obtains r where "r \<le> revs i" and "\<not> local_read opts \<or> keys = [] \<longrightarrow> r = revs i"
    and "keys \<noteq> [] \<longrightarrow> (\<forall>q. at_rev opts = Some q \<longrightarrow> q \<le> r)"
    and "responses resp = map (\<lambda>k. Some \<lparr>hdr_rev = r,
      kvs = opt_list (V (case at_rev opts of Some q \<Rightarrow> q | None \<Rightarrow> r) k)\<rparr>) keys"
proof -
  let ?ops = "map (\<lambda>k. OpGet k opts) keys"
  note ok = assms(1) [unfolded etcd_ok_def, THEN conjunct2, THEN spec, THEN spec, THEN spec, THEN spec,
      THEN spec, THEN mp, OF assms(2), THEN conjunct2, unfolded Let_def assms(3)]
  have "length (responses resp) = length ?ops \<and> ((\<forall>p \<in> set ?ops. is_read p) \<longrightarrow>
      (\<exists>r \<le> revs i. ((\<forall>p \<in> set ?ops. \<not> is_local p) \<longrightarrow> r = revs i) \<and>
        (\<forall>j < length ?ops. read_answer V r (?ops ! j) (responses resp ! j))))"
    using ok by simp
  then obtain r where r: "r \<le> revs i" "(\<forall>p \<in> set ?ops. \<not> is_local p) \<longrightarrow> r = revs i"
    "\<forall>j < length keys. read_answer V r (OpGet (keys ! j) opts) (responses resp ! j)"
    "length (responses resp) = length keys"
    by auto
  have "responses resp = map (\<lambda>k. Some \<lparr>hdr_rev = r,
      kvs = opt_list (V (case at_rev opts of Some q \<Rightarrow> q | None \<Rightarrow> r) k)\<rparr>) keys"
    using r(3,4) by (intro nth_equalityI) simp_all
  moreover have "\<not> local_read opts \<or> keys = [] \<longrightarrow> r = revs i" using r(2) by auto
  moreover have le: "q \<le> r" if "keys \<noteq> []" "at_rev opts = Some q" for q
    using r(3) that by (cases keys) fastforce+
  moreover have "keys \<noteq> [] \<longrightarrow> (\<forall>q. at_rev opts = Some q \<longrightarrow> q \<le> r)" using le by blast
  ultimately show ?thesis using r(1) that by blast
qed

end
