(* ===== verification/Stm.thy ===== *)
theory Stm
  imports Etcd
begin

text \<open>
  The software transactional memory of \<^verbatim>\<open>grpclient/concurrency/stm.go\<close>: its read and write
  sets, the two implementations \<^verbatim>\<open>stm\<close> and \<^verbatim>\<open>stmSerializable\<close> of the interface \<^verbatim>\<open>STM\<close>, and the
  retry loop \<^verbatim>\<open>runSTM\<close>.
\<close>

section \<open>Data\<close>

datatype Isolation = SerializableSnapshot | Serializable | RepeatableReads | ReadCommitted

text \<open>
  The operations panic with an \<^verbatim>\<open>stmError\<close> to give up the transaction (\<open>Abort\<close>); any other
  panic goes through (\<open>Crash\<close>).
\<close>

datatype ('a, 'err) res = Done 'a | Abort 'err | Crash panic

fun rbind :: "('a, 'err) res \<Rightarrow> ('a \<Rightarrow> ('b, 'err) res) \<Rightarrow> ('b, 'err) res" where
  "rbind (Done x) f = f x"
| "rbind (Abort e) f = Abort e"
| "rbind (Crash p) f = Crash p"

lemma rbind_Done [simp]: "rbind m f = Done y \<longleftrightarrow> (\<exists>x. m = Done x \<and> f x = Done y)"
  by (cases m) auto

text \<open>
  A read set maps keys to responses (pointers, so possibly nil), a write set maps keys to the
  value put and the operation that puts it.
\<close>

type_synonym readSet = "(string, getresp option) gomap"

record stmPut =
  put_val :: string
  put_op :: op

type_synonym writeSet = "(string, stmPut) gomap"

text \<open>
  The fields of \<^verbatim>\<open>stm\<close> and \<^verbatim>\<open>stmSerializable\<close>; \<open>iso\<close> stands for the closure \<^verbatim>\<open>conflicts\<close> that
  \<^verbatim>\<open>mkSTM\<close> installs, and \<open>rpcs\<close> counts the transactions sent to the server.
\<close>

record stm =
  iso :: Isolation
  rset :: readSet
  wset :: writeSet
  getOpts :: get_opts
  prefetch :: readSet
  rpcs :: nat

definition mkSTM :: "Isolation \<Rightarrow> stm" where
  "mkSTM lvl = \<lparr>iso = lvl, rset = [], wset = [],
     getOpts = (case lvl of
         SerializableSnapshot \<Rightarrow> no_opts
       | Serializable \<Rightarrow> no_opts
       | RepeatableReads \<Rightarrow> no_opts\<lparr>local_read := True\<rparr>
       | ReadCommitted \<Rightarrow> no_opts\<lparr>local_read := True\<rparr>),
     prefetch = [], rpcs = 0\<rparr>"

text \<open>Go's levels are integers; \<^verbatim>\<open>mkSTM\<close> panics on any other one.\<close>

definition isolation :: "int \<Rightarrow> Isolation option" where
  "isolation lvl =
     (if lvl = 0 then Some SerializableSnapshot else if lvl = 1 then Some Serializable
      else if lvl = 2 then Some RepeatableReads else if lvl = 3 then Some ReadCommitted else None)"

definition mkSTM_at :: "int \<Rightarrow> stm outcome" where
  "mkSTM_at lvl = (case isolation lvl of Some l \<Rightarrow> Ret (mkSTM l) | None \<Rightarrow> Panic (PanicMsg ''unsupported stm''))"

lemma mkSTM_at_panics: "(\<exists>p. mkSTM_at lvl = Panic p) \<longleftrightarrow> lvl < 0 \<or> 3 < lvl"
  by (auto simp: mkSTM_at_def isolation_def)

fun serializable :: "Isolation \<Rightarrow> bool" where
  "serializable SerializableSnapshot = True"
| "serializable Serializable = True"
| "serializable RepeatableReads = False"
| "serializable ReadCommitted = False"

section \<open>Read sets and write sets\<close>

text \<open>\<^verbatim>\<open>readSet.add\<close>: more responses than keys are an index out of range.\<close>

fun rs_add :: "string list \<Rightarrow> getresp option list \<Rightarrow> readSet \<Rightarrow> (readSet, 'err) res" where
  "rs_add keys [] rs = Done rs"
| "rs_add (k # keys) (resp # resps) rs = rs_add keys resps (mput k resp rs)"
| "rs_add [] (resp # resps) rs = Crash IndexOutOfRange"

text \<open>\<^verbatim>\<open>readSet.first\<close>: the least revision, starting below the largest 64-bit integer.\<close>

definition max_first :: int where "max_first = 2 ^ 63 - 2"

fun rs_first :: "readSet \<Rightarrow> (int, 'err) res" where
  "rs_first [] = Done max_first"
| "rs_first ((k, resp) # rs) =
     (case resp of
        None \<Rightarrow> Crash NilDeref
      | Some r \<Rightarrow> rbind (rs_first rs) (\<lambda>ret. Done (if hdr_rev r < ret then hdr_rev r else ret)))"

definition isKeyCurrent :: "string \<Rightarrow> getresp option \<Rightarrow> (cmp, 'err) res" where
  "isKeyCurrent k resp =
     (case resp of
        None \<Rightarrow> Crash NilDeref
      | Some r \<Rightarrow> Done (case kvs r of x # _ \<Rightarrow> ModEq k (mod_rev x) | [] \<Rightarrow> ModEq k 0))"

fun rs_cmps :: "readSet \<Rightarrow> (cmp list, 'err) res" where
  "rs_cmps [] = Done []"
| "rs_cmps ((k, resp) # rs) =
     rbind (isKeyCurrent k resp) (\<lambda>c. rbind (rs_cmps rs) (\<lambda>cs. Done (c # cs)))"

definition respToValue :: "getresp option \<Rightarrow> string" where
  "respToValue resp =
     (case resp of None \<Rightarrow> '''' | Some r \<Rightarrow> (case kvs r of [] \<Rightarrow> '''' | x # _ \<Rightarrow> kv_value x))"

text \<open>The first of the keys that is in a map.\<close>

fun first_in :: "(string, 'v) gomap \<Rightarrow> string list \<Rightarrow> 'v option" where
  "first_in m [] = None"
| "first_in m (k # keys) = (case mget m k of Some v \<Rightarrow> Some v | None \<Rightarrow> first_in m keys)"

definition ws_get :: "writeSet \<Rightarrow> string list \<Rightarrow> stmPut option" where
  "ws_get ws keys = first_in ws keys"

definition ws_cmps :: "int \<Rightarrow> writeSet \<Rightarrow> cmp list" where
  "ws_cmps r ws = map (\<lambda>(k, _). ModLess k r) ws"

definition ws_puts :: "writeSet \<Rightarrow> op list" where
  "ws_puts ws = map (\<lambda>(_, p). put_op p) ws"

section \<open>The operations of stm\<close>

definition stm_fetch :: "'err txn \<Rightarrow> string list \<Rightarrow> stm \<Rightarrow> (getresp option \<times> stm, 'err) res" where
  "stm_fetch txn keys s =
     (if keys = [] then Done (None, s)
      else case first_in (rset s) keys of
          Some resp \<Rightarrow> Done (resp, s)
        | None \<Rightarrow>
            (case txn (rpcs s) [] (map (\<lambda>k. OpGet k (getOpts s)) keys) [] of
               Inr err \<Rightarrow> Abort err
             | Inl txnresp \<Rightarrow>
                 rbind (rs_add keys (responses txnresp) (rset s)) (\<lambda>rs.
                   case responses txnresp of
                     [] \<Rightarrow> Crash IndexOutOfRange
                   | resp # _ \<Rightarrow> Done (resp, s\<lparr>rset := rs, rpcs := Suc (rpcs s)\<rparr>))))"

definition stm_Get :: "'err txn \<Rightarrow> string list \<Rightarrow> stm \<Rightarrow> (string \<times> stm, 'err) res" where
  "stm_Get txn keys s =
     (case ws_get (wset s) keys of
        Some wv \<Rightarrow> Done (put_val wv, s)
      | None \<Rightarrow> rbind (stm_fetch txn keys s) (\<lambda>(resp, s). Done (respToValue resp, s)))"

definition stm_Put :: "string \<Rightarrow> string \<Rightarrow> put_opt list \<Rightarrow> stm \<Rightarrow> stm" where
  "stm_Put key val opts s = s\<lparr>wset := mput key \<lparr>put_val = val, put_op = OpPut key val opts\<rparr> (wset s)\<rparr>"

definition stm_Del :: "string \<Rightarrow> stm \<Rightarrow> stm" where
  "stm_Del key s = s\<lparr>wset := mput key \<lparr>put_val = '''', put_op = OpDelete key\<rparr> (wset s)\<rparr>"

definition resp_rev :: "getresp option \<Rightarrow> int" where
  "resp_rev resp = (case resp of None \<Rightarrow> 0 | Some r \<Rightarrow> (case kvs r of [] \<Rightarrow> 0 | x # _ \<Rightarrow> mod_rev x))"

definition stm_Rev :: "'err txn \<Rightarrow> string \<Rightarrow> stm \<Rightarrow> (int \<times> stm, 'err) res" where
  "stm_Rev txn key s = rbind (stm_fetch txn [key] s) (\<lambda>(resp, s). Done (resp_rev resp, s))"

text \<open>The closure \<^verbatim>\<open>conflicts\<close>, by isolation level.\<close>

definition conflicts :: "stm \<Rightarrow> (cmp list, 'err) res" where
  "conflicts s =
     (case iso s of
        SerializableSnapshot \<Rightarrow>
          rbind (rs_cmps (rset s)) (\<lambda>cs. rbind (rs_first (rset s))
            (\<lambda>first. Done (cs @ ws_cmps (first + 1) (wset s))))
      | Serializable \<Rightarrow> rs_cmps (rset s)
      | RepeatableReads \<Rightarrow> rs_cmps (rset s)
      | ReadCommitted \<Rightarrow> Done [])"

definition stm_commit :: "'err txn \<Rightarrow> stm \<Rightarrow> (txnresp option \<times> stm, 'err) res" where
  "stm_commit txn s =
     rbind (conflicts s) (\<lambda>cmps.
       case txn (rpcs s) cmps (ws_puts (wset s)) [] of
         Inr err \<Rightarrow> Abort err
       | Inl txnresp \<Rightarrow>
           Done (if succeeded txnresp then Some txnresp else None, s\<lparr>rpcs := Suc (rpcs s)\<rparr>))"

definition reset :: "stm \<Rightarrow> stm" where
  "reset s = s\<lparr>rset := [], wset := []\<rparr>"

section \<open>The operations of stmSerializable\<close>

fun take_prefetched :: "string list \<Rightarrow> stm \<Rightarrow> stm" where
  "take_prefetched [] s = s"
| "take_prefetched (key # keys) s =
     take_prefetched keys
       (case mget (prefetch s) key of
          Some resp \<Rightarrow> s\<lparr>prefetch := mdel key (prefetch s), rset := mput key resp (rset s)\<rparr>
        | None \<Rightarrow> s)"

definition ser_Get :: "'err txn \<Rightarrow> string list \<Rightarrow> stm \<Rightarrow> (string \<times> stm, 'err) res" where
  "ser_Get txn keys s =
     (case ws_get (wset s) keys of
        Some wv \<Rightarrow> Done (put_val wv, s)
      | None \<Rightarrow>
          (let firstRead = (rset s = [])
           in rbind (stm_fetch txn keys (take_prefetched keys s)) (\<lambda>(resp, s).
                if firstRead
                then (case resp of
                        None \<Rightarrow> Crash NilDeref
                      | Some r \<Rightarrow>
                          Done (respToValue resp,
                            s\<lparr>getOpts := \<lparr>at_rev = Some (hdr_rev r), local_read = True\<rparr>\<rparr>))
                else Done (respToValue resp, s))))"

definition ser_Rev :: "'err txn \<Rightarrow> string \<Rightarrow> stm \<Rightarrow> (int \<times> stm, 'err) res" where
  "ser_Rev txn key s = rbind (ser_Get txn [key] s) (\<lambda>(_, s). stm_Rev txn key s)"

definition gets :: "stm \<Rightarrow> string list \<times> op list" where
  "gets s = (map fst (rset s), map (\<lambda>(k, _). OpGet k no_opts) (rset s))"

definition ser_commit :: "'err txn \<Rightarrow> stm \<Rightarrow> (txnresp option \<times> stm, 'err) res" where
  "ser_commit txn s =
     (let (keys, getops) = gets s
      in rbind (conflicts s) (\<lambda>cmps.
           case txn (rpcs s) cmps (ws_puts (wset s)) getops of
             Inr err \<Rightarrow> Abort err
           | Inl txnresp \<Rightarrow>
               (let s = s\<lparr>rpcs := Suc (rpcs s)\<rparr>
                in if succeeded txnresp then Done (Some txnresp, s)
                   else rbind (rs_add keys (responses txnresp) (rset s)) (\<lambda>rs.
                          Done (None, s\<lparr>rset := rs, prefetch := rs, getOpts := no_opts\<rparr>)))))"

section \<open>The interface STM\<close>

definition STM_Get :: "'err txn \<Rightarrow> string list \<Rightarrow> stm \<Rightarrow> (string \<times> stm, 'err) res" where
  "STM_Get txn keys s = (if serializable (iso s) then ser_Get txn keys s else stm_Get txn keys s)"

definition STM_Rev :: "'err txn \<Rightarrow> string \<Rightarrow> stm \<Rightarrow> (int \<times> stm, 'err) res" where
  "STM_Rev txn key s = (if serializable (iso s) then ser_Rev txn key s else stm_Rev txn key s)"

definition STM_commit :: "'err txn \<Rightarrow> stm \<Rightarrow> (txnresp option \<times> stm, 'err) res" where
  "STM_commit txn s = (if serializable (iso s) then ser_commit txn s else stm_commit txn s)"

text \<open>
  The caller's function \<^verbatim>\<open>apply\<close> as the tree of calls it makes: what it does next depends on
  what its reads return, and it ends with an error or without one.
\<close>

datatype 'err prog =
    Return "'err option"
  | Get "string list" "string \<Rightarrow> 'err prog"
  | Put string string "put_opt list" "'err prog"
  | Del string "'err prog"
  | Rev string "int \<Rightarrow> 'err prog"

primrec run_prog ::
    "(string list \<Rightarrow> stm \<Rightarrow> (string \<times> stm, 'err) res) \<Rightarrow> (string \<Rightarrow> stm \<Rightarrow> (int \<times> stm, 'err) res) \<Rightarrow>
     'err prog \<Rightarrow> stm \<Rightarrow> ('err option \<times> stm, 'err) res" where
  "run_prog get rv (Return e) s = Done (e, s)"
| "run_prog get rv (Get keys f) s = rbind (get keys s) (\<lambda>(v, s). run_prog get rv (f v) s)"
| "run_prog get rv (Put k v opts p) s = run_prog get rv p (stm_Put k v opts s)"
| "run_prog get rv (Del k p) s = run_prog get rv p (stm_Del k s)"
| "run_prog get rv (Rev k f) s = rbind (rv k s) (\<lambda>(r, s). run_prog get rv (f r) s)"

definition apply_prog :: "'err txn \<Rightarrow> 'err prog \<Rightarrow> stm \<Rightarrow> ('err option \<times> stm, 'err) res" where
  "apply_prog txn = run_prog (STM_Get txn) (STM_Rev txn)"

text \<open>The loop of \<^verbatim>\<open>runSTM\<close>; it has no bound of its own, so it runs on fuel.\<close>

datatype 'err stm_out = Committed txnresp | Failed 'err | Panicked panic

definition stm_round :: "'err txn \<Rightarrow> 'err prog \<Rightarrow> stm \<Rightarrow> ('err stm_out option \<times> stm, 'err) res" where
  "stm_round txn p s =
     rbind (apply_prog txn p (reset s)) (\<lambda>(e, s).
       case e of
         Some err \<Rightarrow> Done (Some (Failed err), s)
       | None \<Rightarrow> rbind (STM_commit txn s) (\<lambda>(r, s). Done (map_option Committed r, s)))"

fun runSTM :: "'err txn \<Rightarrow> nat \<Rightarrow> 'err prog \<Rightarrow> stm \<Rightarrow> 'err stm_out option" where
  "runSTM txn 0 p s = None"
| "runSTM txn (Suc n) p s =
     (case stm_round txn p s of
        Crash x \<Rightarrow> Some (Panicked x)
      | Abort err \<Rightarrow> Some (Failed err)
      | Done (Some out, s) \<Rightarrow> Some out
      | Done (None, s) \<Rightarrow> runSTM txn n p s)"

record stmOptions =
  so_iso :: Isolation
  so_prefetch :: "string list"

type_synonym stmOption = "stmOptions \<Rightarrow> stmOptions"

definition WithIsolation :: "Isolation \<Rightarrow> stmOption" where
  "WithIsolation lvl so = so\<lparr>so_iso := lvl\<rparr>"

definition WithPrefetch :: "string list \<Rightarrow> stmOption" where
  "WithPrefetch keys so = so\<lparr>so_prefetch := so_prefetch so @ keys\<rparr>"

definition stm_options :: "stmOption list \<Rightarrow> stmOptions" where
  "stm_options so = fold (\<lambda>f opts. f opts) so \<lparr>so_iso = SerializableSnapshot, so_prefetch = []\<rparr>"

definition NewSTM :: "'err txn \<Rightarrow> nat \<Rightarrow> 'err prog \<Rightarrow> stmOption list \<Rightarrow> 'err stm_out option" where
  "NewSTM txn fuel p so =
     (let opts = stm_options so;
          p = (if so_prefetch opts \<noteq> [] then Get (so_prefetch opts) (\<lambda>_. p) else p)
      in runSTM txn fuel p (mkSTM (so_iso opts)))"

definition NewSTMRepeatable :: "'err txn \<Rightarrow> nat \<Rightarrow> 'err prog \<Rightarrow> 'err stm_out option" where
  "NewSTMRepeatable txn fuel p = NewSTM txn fuel p [WithIsolation RepeatableReads]"

definition NewSTMSerializable :: "'err txn \<Rightarrow> nat \<Rightarrow> 'err prog \<Rightarrow> 'err stm_out option" where
  "NewSTMSerializable txn fuel p = NewSTM txn fuel p [WithIsolation Serializable]"

definition NewSTMReadCommitted :: "'err txn \<Rightarrow> nat \<Rightarrow> 'err prog \<Rightarrow> 'err stm_out option" where
  "NewSTMReadCommitted txn fuel p = NewSTM txn fuel p [WithIsolation ReadCommitted]"

end
