(* ===== verification/StmProps.thy ===== *)
theory StmProps
  imports Stm
begin

text \<open>
  What the transactions of Stm guarantee: a transaction that commits is equivalent to its
  execution at one moment, the reads of one attempt repeat, and without interference the
  first attempt commits.
\<close>

section \<open>Serial execution\<close>

text \<open>
  The reference: the caller's function run against one fixed view \<open>W\<close> of the store, its own
  writes on top.  A \<open>Get\<close> of several keys returns the value of one of them.
\<close>

definition view_value :: "kv option \<Rightarrow> string" where
  "view_value x = (case x of None \<Rightarrow> '''' | Some x \<Rightarrow> kv_value x)"

inductive serial :: "view \<Rightarrow> writeSet \<Rightarrow> 'err prog \<Rightarrow> 'err option \<Rightarrow> writeSet \<Rightarrow> bool" for W where
  serial_return: "serial W ws (Return e) e ws"
| serial_own: "ws_get ws keys = Some p \<Longrightarrow> serial W ws (f (put_val p)) e ws' \<Longrightarrow>
    serial W ws (Get keys f) e ws'"
| serial_read: "ws_get ws keys = None \<Longrightarrow> k \<in> set keys \<Longrightarrow>
    serial W ws (f (view_value (W k))) e ws' \<Longrightarrow> serial W ws (Get keys f) e ws'"
| serial_none: "serial W ws (f '''') e ws' \<Longrightarrow> serial W ws (Get [] f) e ws'"
| serial_put: "serial W (mput k \<lparr>put_val = v, put_op = OpPut k v opts\<rparr> ws) p e ws' \<Longrightarrow>
    serial W ws (Put k v opts p) e ws'"
| serial_del: "serial W (mput k \<lparr>put_val = '''', put_op = OpDelete k\<rparr> ws) p e ws' \<Longrightarrow>
    serial W ws (Del k p) e ws'"
| serial_rev: "serial W ws (f (rev_of mod_rev (W k))) e ws' \<Longrightarrow> serial W ws (Rev k f) e ws'"

section \<open>The contract of the two implementations\<close>

text \<open>The read set only grows, and an entry never changes.\<close>

definition grows :: "readSet \<Rightarrow> readSet \<Rightarrow> bool" where
  "grows rs rs' \<longleftrightarrow> (\<forall>k r. mget rs k = Some r \<longrightarrow> mget rs' k = Some r)"

lemma grows_refl [simp]: "grows rs rs"
  by (simp add: grows_def)

lemma grows_trans: "grows a b \<Longrightarrow> grows b c \<Longrightarrow> grows a c"
  by (simp add: grows_def)

text \<open>A read is answered by the caller's own write or by an entry of the read set.\<close>

definition read_from :: "writeSet \<Rightarrow> readSet \<Rightarrow> string list \<Rightarrow> string \<Rightarrow> bool" where
  "read_from ws rs keys v \<longleftrightarrow>
     (case ws_get ws keys of
        Some p \<Rightarrow> v = put_val p
      | None \<Rightarrow> (keys = [] \<and> v = '''') \<or>
          (\<exists>k \<in> set keys. \<exists>r. mget rs k = Some r \<and> v = respToValue r))"

locale STM =
  fixes get :: "string list \<Rightarrow> stm \<Rightarrow> (string \<times> stm, 'err) res"
    and rev :: "string \<Rightarrow> stm \<Rightarrow> (int \<times> stm, 'err) res"
    and ok :: "stm \<Rightarrow> bool"
  assumes get_ok: "ok s \<Longrightarrow> get keys s = Done (v, s') \<Longrightarrow> ok s'"
    and get_wset: "ok s \<Longrightarrow> get keys s = Done (v, s') \<Longrightarrow> wset s' = wset s"
    and get_grows: "ok s \<Longrightarrow> get keys s = Done (v, s') \<Longrightarrow> grows (rset s) (rset s')"
    and get_reads: "ok s \<Longrightarrow> get keys s = Done (v, s') \<Longrightarrow> read_from (wset s') (rset s') keys v"
    and rev_ok: "ok s \<Longrightarrow> rev k s = Done (r, s') \<Longrightarrow> ok s'"
    and rev_wset: "ok s \<Longrightarrow> rev k s = Done (r, s') \<Longrightarrow> wset s' = wset s"
    and rev_grows: "ok s \<Longrightarrow> rev k s = Done (r, s') \<Longrightarrow> grows (rset s) (rset s')"
    and rev_reads: "ok s \<Longrightarrow> rev k s = Done (r, s') \<Longrightarrow> \<exists>x. mget (rset s') k = Some x \<and> r = resp_rev x"
    and put_ok: "ok s \<Longrightarrow> ok (s\<lparr>wset := mput k p (wset s)\<rparr>)"
    and cached: "ok s \<Longrightarrow> mget (rset s) k = Some x \<Longrightarrow> mget (wset s) k = None \<Longrightarrow>
      get [k] s = Done (respToValue x, s)"
begin

abbreviation run :: "'err prog \<Rightarrow> stm \<Rightarrow> ('err option \<times> stm, 'err) res" where
  "run \<equiv> run_prog get rev"

lemma run_ok: "run p s = Done (e, s') \<Longrightarrow> ok s \<Longrightarrow> ok s'"
  by (induction p arbitrary: s) (auto simp: stm_Put_def stm_Del_def intro: put_ok dest: get_ok rev_ok)

lemma run_grows: "run p s = Done (e, s') \<Longrightarrow> ok s \<Longrightarrow> grows (rset s) (rset s')"
proof (induction p arbitrary: s)
  case (Get keys f)
  then obtain v s1 where "get keys s = Done (v, s1)" "run (f v) s1 = Done (e, s')" by auto
  with Get.IH [OF rangeI, of v s1] Get.prems(2) show ?case by (blast intro: grows_trans get_ok get_grows)
next
  case (Put k v opts p)
  then show ?case by (auto simp: stm_Put_def dest!: Put.IH intro: put_ok)
next
  case (Del k p)
  then show ?case by (auto simp: stm_Del_def dest!: Del.IH intro: put_ok)
next
  case (Rev k f)
  then obtain r s1 where "rev k s = Done (r, s1)" "run (f r) s1 = Done (e, s')" by auto
  with Rev.IH [OF rangeI, of r s1] Rev.prems(2) show ?case by (blast intro: grows_trans rev_ok rev_grows)
qed auto

text \<open>Everything the run has read is as in \<open>W\<close>: then it is a serial execution at \<open>W\<close>.\<close>

lemma run_serial:
  assumes "run p s = Done (e, s')" and "ok s"
    and "\<And>k x. mget (rset s') k = Some x \<Longrightarrow> respToValue x = view_value (W k) \<and> resp_rev x = rev_of mod_rev (W k)"
  shows "serial W (wset s) p e (wset s')"
  using assms(1,2)
proof (induction p arbitrary: s)
  case (Return e')
  then show ?case by (simp add: serial_return)
next
  case (Get keys f)
  then obtain v s1 where 1: "get keys s = Done (v, s1)" "run (f v) s1 = Done (e, s')" by auto
  have ok: "ok s1" using Get.prems(2) 1(1) by (rule get_ok)
  have ser: "serial W (wset s) (f v) e (wset s')"
    using Get.IH [OF rangeI 1(2) ok] get_wset [OF Get.prems(2) 1(1)] by simp
  have rd: "read_from (wset s) (rset s1) keys v"
    using get_reads [OF Get.prems(2) 1(1)] get_wset [OF Get.prems(2) 1(1)] by simp
  show ?case
  proof (cases "ws_get (wset s) keys")
    case (Some p)
    with rd ser show ?thesis by (auto simp: read_from_def intro: serial_own)
  next
    case None
    show ?thesis
    proof (cases "keys = []")
      case True
      with rd None ser show ?thesis by (auto simp: read_from_def intro: serial_none)
    next
      case False
      with rd None obtain k x where k: "k \<in> set keys" "mget (rset s1) k = Some x" "v = respToValue x"
        by (auto simp: read_from_def)
      then have "mget (rset s') k = Some x" using run_grows [OF 1(2) ok] by (simp add: grows_def)
      with assms(3) k(3) ser have "serial W (wset s) (f (view_value (W k))) e (wset s')" by metis
      with None k(1) show ?thesis by (rule serial_read)
    qed
  qed
next
  case (Put k v opts p)
  then show ?case using Put.IH [of "stm_Put k v opts s"]
    by (auto simp: stm_Put_def intro: put_ok serial_put)
next
  case (Del k p)
  then show ?case using Del.IH [of "stm_Del k s"]
    by (auto simp: stm_Del_def intro: put_ok serial_del)
next
  case (Rev k f)
  then obtain r s1 where 1: "rev k s = Done (r, s1)" "run (f r) s1 = Done (e, s')" by auto
  have ok: "ok s1" using Rev.prems(2) 1(1) by (rule rev_ok)
  obtain x where "mget (rset s1) k = Some x" "r = resp_rev x" using rev_reads [OF Rev.prems(2) 1(1)] by blast
  moreover from this have "mget (rset s') k = Some x" using run_grows [OF 1(2) ok] by (simp add: grows_def)
  ultimately have "r = rev_of mod_rev (W k)" using assms(3) by metis
  with Rev.IH [OF rangeI 1(2) ok] rev_wset [OF Rev.prems(2) 1(1)] show ?case by (auto intro: serial_rev)
qed

text \<open>A key that was read once, and is not written, reads the same for the rest of the attempt.\<close>

lemma run_wset_None: "run p s = Done (e, s') \<Longrightarrow> ok s \<Longrightarrow> mget (wset s') k = None \<Longrightarrow> mget (wset s) k = None"
proof (induction p arbitrary: s)
  case (Get keys f)
  then obtain v s1 where 1: "get keys s = Done (v, s1)" "run (f v) s1 = Done (e, s')" by auto
  from Get.IH [OF rangeI 1(2) get_ok [OF Get.prems(2) 1(1)] Get.prems(3)]
  show ?case by (simp add: get_wset [OF Get.prems(2) 1(1)])
next
  case (Put j v opts p)
  have ok: "ok (stm_Put j v opts s)" using Put.prems(2) by (simp add: stm_Put_def put_ok)
  from Put.IH [OF _ ok Put.prems(3)] Put.prems(1)
  have "mget (wset (stm_Put j v opts s)) k = None" by simp
  then show ?case by (simp add: stm_Put_def go_map_simps split: if_splits)
next
  case (Del j p)
  have ok: "ok (stm_Del j s)" using Del.prems(2) by (simp add: stm_Del_def put_ok)
  from Del.IH [OF _ ok Del.prems(3)] Del.prems(1)
  have "mget (wset (stm_Del j s)) k = None" by simp
  then show ?case by (simp add: stm_Del_def go_map_simps split: if_splits)
next
  case (Rev j f)
  then obtain r s1 where 1: "rev j s = Done (r, s1)" "run (f r) s1 = Done (e, s')" by auto
  from Rev.IH [OF rangeI 1(2) rev_ok [OF Rev.prems(2) 1(1)] Rev.prems(3)]
  show ?case by (simp add: rev_wset [OF Rev.prems(2) 1(1)])
qed auto

lemma repeatable:
  assumes "ok s" and "get [k] s = Done (v, s1)" and "run p s1 = Done (e, s2)" and "mget (wset s2) k = None"
  shows "get [k] s2 = Done (v, s2)"
proof -
  have ok: "ok s1" using assms(1,2) by (rule get_ok)
  have w: "mget (wset s1) k = None" using assms(3) ok assms(4) by (rule run_wset_None)
  then obtain x where x: "mget (rset s1) k = Some x" "v = respToValue x"
    using get_reads [OF assms(1,2)] by (auto simp: read_from_def ws_get_def)
  then have "mget (rset s2) k = Some x" using run_grows [OF assms(3) ok] by (simp add: grows_def)
  with cached [OF run_ok [OF assms(3) ok] this assms(4)] x(2) show ?thesis by simp
qed

end

section \<open>The contract holds\<close>

text \<open>
  Under \<open>etcd_ok\<close>, every response in the read set and the prefetch shows its key as of some
  revision; and a key waiting in the prefetch is in the read set only if the attempt has
  written it.
\<close>

definition genuine :: "history \<Rightarrow> readSet \<Rightarrow> bool" where
  "genuine V rs \<longleftrightarrow> gomap_ok rs \<and> (\<forall>k x. mget rs k = Some x \<longrightarrow> (\<exists>r q. x = Some \<lparr>hdr_rev = r, kvs = opt_list (V q k)\<rparr>))"

definition plain_ok :: "history \<Rightarrow> (nat \<Rightarrow> int) \<Rightarrow> 'err txn \<Rightarrow> stm \<Rightarrow> bool" where
  "plain_ok V revs txn s \<longleftrightarrow> etcd_ok V revs txn \<and> genuine V (rset s)"

definition ser_ok :: "history \<Rightarrow> (nat \<Rightarrow> int) \<Rightarrow> 'err txn \<Rightarrow> stm \<Rightarrow> bool" where
  "ser_ok V revs txn s \<longleftrightarrow> plain_ok V revs txn s \<and> genuine V (prefetch s) \<and>
     (\<forall>k. mget (prefetch s) k \<noteq> None \<and> mget (rset s) k \<noteq> None \<longrightarrow> mget (wset s) k \<noteq> None)"

lemma first_in_Some: "first_in m keys = Some x \<Longrightarrow> \<exists>k \<in> set keys. mget m k = Some x"
  by (induction keys) (auto split: option.splits)

lemma first_in_None: "first_in m keys = None \<longleftrightarrow> (\<forall>k \<in> set keys. mget m k = None)"
  by (induction keys) (auto split: option.splits)

lemma rs_add_map:
  "rs_add keys (map f keys) rs = Done rs' \<Longrightarrow>
    mget rs' k = (if k \<in> set keys then Some (f k) else mget rs k)"
  by (induction keys arbitrary: rs) (auto simp: go_map_simps split: if_splits)

lemma rs_add_gomap_ok: "rs_add keys xs rs = Done rs' \<Longrightarrow> gomap_ok rs \<Longrightarrow> gomap_ok rs'"
  by (induction keys xs rs rule: rs_add.induct) (auto intro: am.ok_put)

lemma genuine_add:
  assumes "genuine V rs" and "gomap_ok rs'" and "\<And>k. mget rs' k = (if k \<in> set keys
    then Some (Some \<lparr>hdr_rev = r, kvs = opt_list (V (q k) k)\<rparr>) else mget rs k)"
  shows "genuine V rs'"
  using assms by (auto simp: genuine_def)

text \<open>\<^verbatim>\<open>fetch\<close> answers from the read set, or adds all the keys to it.\<close>

definition entry :: "history \<Rightarrow> get_opts \<Rightarrow> int \<Rightarrow> string \<Rightarrow> getresp option" where
  "entry V opts r k =
     Some \<lparr>hdr_rev = r, kvs = opt_list (V (case at_rev opts of Some q \<Rightarrow> q | None \<Rightarrow> r) k)\<rparr>"

lemma stm_fetch_answer:
  fixes txn :: "'a txn"
  assumes "stm_fetch txn keys s = Done (resp, s')"
  obtains (empty) "keys = []" "resp = None" "s' = s"
    | (hit) "keys \<noteq> []" "first_in (rset s) keys = Some resp" "s' = s"
    | (miss) tr rs where "keys \<noteq> []" "first_in (rset s) keys = None"
        "txn (rpcs s) [] (map (\<lambda>k. OpGet k (getOpts s)) keys) [] = Inl tr"
        "rs_add keys (responses tr) (rset s) = (Done rs :: (readSet, 'a) res)"
        "\<exists>xs. responses tr = resp # xs" "s' = s\<lparr>rset := rs, rpcs := Suc (rpcs s)\<rparr>"
proof (cases "keys = []")
  case True
  with assms empty show ?thesis by (simp add: stm_fetch_def)
next
  case False
  show ?thesis
  proof (cases "first_in (rset s) keys")
    case (Some x)
    with False assms have "x = resp" "s' = s" by (simp_all add: stm_fetch_def)
    with False Some show ?thesis by (intro hit) simp_all
  next
    case None
    obtain tr where tr: "txn (rpcs s) [] (map (\<lambda>k. OpGet k (getOpts s)) keys) [] = Inl tr"
      using assms False None
      by (cases "txn (rpcs s) [] (map (\<lambda>k. OpGet k (getOpts s)) keys) []") (simp_all add: stm_fetch_def)
    have "rbind (rs_add keys (responses tr) (rset s)) (\<lambda>rs. case responses tr of [] \<Rightarrow> Crash IndexOutOfRange
        | resp # _ \<Rightarrow> Done (resp, s\<lparr>rset := rs, rpcs := Suc (rpcs s)\<rparr>)) = (Done (resp, s') :: (getresp option \<times> stm, 'a) res)"
      using assms False by (simp only: stm_fetch_def tr None if_False option.case sum.case)
    then obtain rs where rs: "rs_add keys (responses tr) (rset s) = (Done rs :: (readSet, 'a) res)"
      and res: "(case responses tr of [] \<Rightarrow> Crash IndexOutOfRange
        | resp # _ \<Rightarrow> Done (resp, s\<lparr>rset := rs, rpcs := Suc (rpcs s)\<rparr>)) = (Done (resp, s') :: (getresp option \<times> stm, 'a) res)"
      unfolding rbind_Done by blast
    from res have "\<exists>xs. responses tr = resp # xs" "s' = s\<lparr>rset := rs, rpcs := Suc (rpcs s)\<rparr>"
      by (cases "responses tr"; simp)+
    with False None tr rs show ?thesis by (rule miss)
  qed
qed

lemma stm_fetch_cases:
  assumes "etcd_ok V revs txn" and "stm_fetch txn keys s = Done (resp, s')"
  obtains (empty) "keys = []" "resp = None" "s' = s"
    | (hit) "keys \<noteq> []" "first_in (rset s) keys = Some resp" "s' = s"
    | (miss) r rs where "keys \<noteq> []" "first_in (rset s) keys = None"
        "\<And>k. mget rs k = (if k \<in> set keys then Some (entry V (getOpts s) r k) else mget (rset s) k)"
        "gomap_ok (rset s) \<longrightarrow> gomap_ok rs" "resp = entry V (getOpts s) r (hd keys)"
        "s' = s\<lparr>rset := rs, rpcs := Suc (rpcs s)\<rparr>"
        "r \<le> revs (rpcs s)" "\<not> local_read (getOpts s) \<Longrightarrow> r = revs (rpcs s)"
        "\<And>q. at_rev (getOpts s) = Some q \<Longrightarrow> q \<le> r"
  using assms(2)
proof (cases rule: stm_fetch_answer)
  case empty
  then show ?thesis by (rule that(1))
next
  case hit
  then show ?thesis by (rule that(2))
next
  case (miss tr rs)
  have "succeeded tr" using etcd_okD(1) [OF assms(1) miss(3)] by simp
  then have "(if succeeded tr then map (\<lambda>k. OpGet k (getOpts s)) keys else []) =
      map (\<lambda>k. OpGet k (getOpts s)) keys" by simp
  then obtain r where rev: "r \<le> revs (rpcs s)" "\<not> local_read (getOpts s) \<or> keys = [] \<longrightarrow> r = revs (rpcs s)"
      "keys \<noteq> [] \<longrightarrow> (\<forall>q. at_rev (getOpts s) = Some q \<longrightarrow> q \<le> r)"
    and "responses tr = map (\<lambda>k. Some \<lparr>hdr_rev = r,
      kvs = opt_list (V (case at_rev (getOpts s) of Some q \<Rightarrow> q | None \<Rightarrow> r) k)\<rparr>) keys"
    by (rule etcd_reads [OF assms(1) miss(3)])
  from this(4) have resps: "responses tr = map (entry V (getOpts s) r) keys" by (simp add: entry_def)
  note rs = rs_add_map [OF miss(4) [unfolded resps]]
  have "gomap_ok (rset s) \<longrightarrow> gomap_ok rs" using rs_add_gomap_ok [OF miss(4)] by blast
  moreover have "resp = entry V (getOpts s) r (hd keys)" using miss(1,5) resps by (cases keys) auto
  ultimately show ?thesis using miss(1,2,6) rs rev by (intro that(3)) simp_all
qed

lemma stm_fetch_spec:
  assumes "plain_ok V revs txn s" and "stm_fetch txn keys s = Done (resp, s')"
  shows "plain_ok V revs txn s'" and "wset s' = wset s" and "prefetch s' = prefetch s"
    and "grows (rset s) (rset s')" and "iso s' = iso s"
    and "keys = [] \<and> resp = None \<or> (\<exists>k \<in> set keys. mget (rset s') k = Some resp)"
    and "\<And>k. mget (rset s') k \<noteq> None \<longrightarrow> mget (rset s) k \<noteq> None \<or> k \<in> set keys"
proof -
  have etcd: "etcd_ok V revs txn" and gen: "genuine V (rset s)" using assms(1) by (auto simp: plain_ok_def)
  from etcd assms(2) have "plain_ok V revs txn s' \<and> wset s' = wset s \<and> prefetch s' = prefetch s \<and>
    grows (rset s) (rset s') \<and> iso s' = iso s \<and>
    (keys = [] \<and> resp = None \<or> (\<exists>k \<in> set keys. mget (rset s') k = Some resp)) \<and>
    (\<forall>k. mget (rset s') k \<noteq> None \<longrightarrow> mget (rset s) k \<noteq> None \<or> k \<in> set keys)"
  proof (cases rule: stm_fetch_cases)
    case empty
    with assms(1) show ?thesis by simp
  next
    case hit
    with assms(1) show ?thesis by (auto dest: first_in_Some)
  next
    case (miss r rs)
    have "gomap_ok rs" using miss(4) gen by (simp add: genuine_def)
    with gen have "genuine V rs" using miss(3) unfolding entry_def by (rule genuine_add)
    moreover have "grows (rset s) rs"
      using miss(2,3) by (auto simp: grows_def first_in_None)
    moreover have "mget rs (hd keys) = Some resp" "hd keys \<in> set keys" using miss(1,3,5) by simp_all
    ultimately show ?thesis using etcd miss(3,6) by (auto simp: plain_ok_def)
  qed
  then show "plain_ok V revs txn s'" and "wset s' = wset s" and "prefetch s' = prefetch s"
    and "grows (rset s) (rset s')" and "iso s' = iso s"
    and "keys = [] \<and> resp = None \<or> (\<exists>k \<in> set keys. mget (rset s') k = Some resp)"
    and "\<And>k. mget (rset s') k \<noteq> None \<longrightarrow> mget (rset s) k \<noteq> None \<or> k \<in> set keys"
    by blast+
qed

lemma respToValue_None [simp]: "respToValue None = ''''"
  by (simp add: respToValue_def)

lemma fetch_read_from:
  assumes "plain_ok V revs txn s" and "stm_fetch txn keys s = Done (resp, s')" and "ws_get ws keys = None"
  shows "read_from ws (rset s') keys (respToValue resp)"
  using stm_fetch_spec(6) [OF assms(1,2)] assms(3) by (auto simp: read_from_def)

lemma fetch_cached: "mget (rset s) k = Some x \<Longrightarrow> stm_fetch txn [k] s = Done (x, s)"
  by (simp add: stm_fetch_def)

interpretation plain: STM "stm_Get txn" "stm_Rev txn" "plain_ok V revs txn" for V revs txn
proof
  fix s s' keys v k r p x
  assume ok: "plain_ok V revs txn s"
  {
    assume get: "stm_Get txn keys s = Done (v, s')"
    have "s' = s \<and> read_from (wset s) (rset s) keys v \<or>
        (\<exists>resp. ws_get (wset s) keys = None \<and> stm_fetch txn keys s = Done (resp, s') \<and> v = respToValue resp)"
      using get by (auto simp: stm_Get_def read_from_def split: option.splits)
    then show "plain_ok V revs txn s'" "wset s' = wset s" "grows (rset s) (rset s')"
      "read_from (wset s') (rset s') keys v"
      using ok stm_fetch_spec [OF ok] fetch_read_from [OF ok] by auto
  next
    assume "stm_Rev txn k s = Done (r, s')"
    then obtain resp where f: "stm_fetch txn [k] s = Done (resp, s')" "r = resp_rev resp"
      by (auto simp: stm_Rev_def)
    note spec = stm_fetch_spec [OF ok f(1)]
    show "plain_ok V revs txn s'" "wset s' = wset s" "grows (rset s) (rset s')"
      "\<exists>x. mget (rset s') k = Some x \<and> r = resp_rev x"
      using spec f(2) by auto
  next
    show "plain_ok V revs txn (s\<lparr>wset := mput k p (wset s)\<rparr>)" using ok by (simp add: plain_ok_def)
  next
    assume "mget (rset s) k = Some x" "mget (wset s) k = None"
    then show "stm_Get txn [k] s = Done (respToValue x, s)"
      by (simp add: stm_Get_def ws_get_def fetch_cached)
  }
qed

text \<open>Moving the prefetched responses into the read set.\<close>

lemma take_prefetched_spec:
  assumes "ser_ok V revs txn s" and "\<forall>k \<in> set keys. mget (wset s) k = None"
  shows "ser_ok V revs txn (take_prefetched keys s) \<and> wset (take_prefetched keys s) = wset s \<and>
    iso (take_prefetched keys s) = iso s \<and> grows (rset s) (rset (take_prefetched keys s)) \<and>
    (\<forall>k. mget (prefetch (take_prefetched keys s)) k =
      (if k \<in> set keys then None else mget (prefetch s) k))"
  using assms
proof (induction keys arbitrary: s)
  case (Cons key keys)
  show ?case
  proof (cases "mget (prefetch s) key")
    case None
    with Cons.IH [OF Cons.prems(1)] Cons.prems(2) show ?thesis by auto
  next
    case (Some resp)
    let ?s = "s\<lparr>prefetch := mdel key (prefetch s), rset := mput key resp (rset s)\<rparr>"
    have new: "mget (rset s) key = None"
      using Cons.prems Some by (auto simp: ser_ok_def)
    have "ser_ok V revs txn ?s"
      using Cons.prems(1) Some by (auto simp: ser_ok_def plain_ok_def genuine_def go_map_simps distinct_removeAll intro: am.ok_put am.ok_del)
    from Cons.IH [OF this] Cons.prems(2) have IH: "ser_ok V revs txn (take_prefetched keys ?s)"
      "wset (take_prefetched keys ?s) = wset s" "iso (take_prefetched keys ?s) = iso s"
      "grows (rset ?s) (rset (take_prefetched keys ?s))"
      "\<forall>k. mget (prefetch (take_prefetched keys ?s)) k = (if k \<in> set keys then None else mget (prefetch ?s) k)"
      by simp_all
    have "grows (rset s) (rset ?s)" using new by (auto simp: grows_def go_map_simps)
    from grows_trans [OF this IH(4)] IH Some show ?thesis by (auto simp: go_map_simps)
  qed
qed simp

lemma ser_fetch_spec:
  assumes "ser_ok V revs txn s" and "stm_fetch txn keys s = Done (resp, s')"
    and "\<forall>k \<in> set keys. mget (prefetch s) k \<noteq> None \<longrightarrow> mget (wset s) k \<noteq> None"
  shows "ser_ok V revs txn s'"
proof -
  have "plain_ok V revs txn s" using assms(1) by (simp add: ser_ok_def)
  note spec = stm_fetch_spec [OF this assms(2)]
  have "mget (wset s) k \<noteq> None" if "mget (prefetch s) k \<noteq> None" "mget (rset s') k \<noteq> None" for k
    using spec(7) [of k] assms(1,3) that unfolding ser_ok_def by blast
  then show ?thesis using spec(1-3) assms(1) by (simp add: ser_ok_def)
qed

lemma ser_Get_cases:
  assumes "ser_Get txn keys s = Done (v, s')"
  obtains (own) p where "ws_get (wset s) keys = Some p" "v = put_val p" "s' = s"
    | (read) resp s1 g where "ws_get (wset s) keys = None"
        "stm_fetch txn keys (take_prefetched keys s) = Done (resp, s1)" "v = respToValue resp"
        "s' = s1\<lparr>getOpts := g\<rparr>"
proof (cases "ws_get (wset s) keys")
  case (Some p)
  with assms have "v = put_val p" "s' = s" by (simp_all add: ser_Get_def)
  with Some show ?thesis by (intro own)
next
  case None
  with assms have "rbind (stm_fetch txn keys (take_prefetched keys s)) (\<lambda>(resp, s1).
      if rset s = [] then case resp of None \<Rightarrow> Crash NilDeref
        | Some r \<Rightarrow> Done (respToValue resp, s1\<lparr>getOpts := \<lparr>at_rev = Some (hdr_rev r), local_read = True\<rparr>\<rparr>)
      else Done (respToValue resp, s1)) = Done (v, s')"
    by (simp only: ser_Get_def Let_def option.case)
  then obtain resp s1 where f: "stm_fetch txn keys (take_prefetched keys s) = Done (resp, s1)"
    and r: "(if rset s = [] then case resp of None \<Rightarrow> Crash NilDeref
        | Some r \<Rightarrow> Done (respToValue resp, s1\<lparr>getOpts := \<lparr>at_rev = Some (hdr_rev r), local_read = True\<rparr>\<rparr>)
        else Done (respToValue resp, s1)) = (Done (v, s') :: (string \<times> stm, 'a) res)"
    by (auto simp only: rbind_Done split_paired_Ex case_prod_conv)
  have same: "s1 = s1\<lparr>getOpts := getOpts s1\<rparr>" by simp
  have "\<exists>g. v = respToValue resp \<and> s' = s1\<lparr>getOpts := g\<rparr>"
  proof (cases "rset s = []")
    case True
    with r show ?thesis by (cases resp) auto
  next
    case False
    with r same show ?thesis by (auto intro: exI [of _ "getOpts s1"])
  qed
  then obtain g where "v = respToValue resp" "s' = s1\<lparr>getOpts := g\<rparr>" by blast
  with None f show ?thesis by (intro read)
qed

lemma ser_ok_getOpts [simp]: "ser_ok V revs txn (s\<lparr>getOpts := g\<rparr>) = ser_ok V revs txn s"
  by (simp add: ser_ok_def plain_ok_def)

lemma ser_Get_spec:
  assumes "ser_ok V revs txn s" and "ser_Get txn keys s = Done (v, s')"
  shows "ser_ok V revs txn s' \<and> wset s' = wset s \<and> grows (rset s) (rset s') \<and> iso s' = iso s \<and>
    read_from (wset s') (rset s') keys v \<and>
    (\<forall>k \<in> set keys. mget (prefetch s') k \<noteq> None \<longrightarrow> ws_get (wset s) keys \<noteq> None)"
  using assms(2)
proof (cases rule: ser_Get_cases)
  case (own p)
  with assms(1) show ?thesis by (simp add: read_from_def)
next
  case (read resp s1 g)
  let ?t = "take_prefetched keys s"
  have w: "\<forall>k \<in> set keys. mget (wset s) k = None" using read(1) by (simp add: ws_get_def first_in_None)
  have t: "ser_ok V revs txn ?t" "wset ?t = wset s" "iso ?t = iso s" "grows (rset s) (rset ?t)"
    "\<forall>k. mget (prefetch ?t) k = (if k \<in> set keys then None else mget (prefetch s) k)"
    using take_prefetched_spec [OF assms(1) w] by simp_all
  have "plain_ok V revs txn ?t" using t(1) by (simp add: ser_ok_def)
  note spec = stm_fetch_spec [OF this read(2)]
  have "ser_ok V revs txn s1" using t(1) read(2) by (rule ser_fetch_spec) (simp add: t(5))
  moreover have "read_from (wset s) (rset s1) keys v"
    unfolding read(3) using \<open>plain_ok V revs txn ?t\<close> read(2,1) by (rule fetch_read_from)
  moreover have "grows (rset s) (rset s1)" using t(4) spec(4) by (rule grows_trans)
  ultimately show ?thesis using t spec(2,3,5) read(4) by auto
qed

lemma ser_Rev_spec:
  assumes "ser_ok V revs txn s" and "ser_Rev txn k s = Done (r, s')"
  shows "ser_ok V revs txn s' \<and> wset s' = wset s \<and> grows (rset s) (rset s') \<and> iso s' = iso s \<and>
    (\<exists>x. mget (rset s') k = Some x \<and> r = resp_rev x)"
proof -
  obtain v s1 resp where 1: "ser_Get txn [k] s = Done (v, s1)"
    "stm_fetch txn [k] s1 = Done (resp, s')" "r = resp_rev resp"
    using assms(2) by (auto simp: ser_Rev_def stm_Rev_def)
  note g = ser_Get_spec [OF assms(1) 1(1)]
  have "plain_ok V revs txn s1" using g by (simp add: ser_ok_def)
  note spec = stm_fetch_spec [OF this 1(2)]
  have "\<forall>j \<in> set [k]. mget (prefetch s1) j \<noteq> None \<longrightarrow> mget (wset s1) j \<noteq> None"
    using g by (auto simp: ws_get_def split: option.splits)
  with g 1(2) have "ser_ok V revs txn s'" by (blast intro: ser_fetch_spec)
  moreover have "grows (rset s) (rset s')" using g spec(4) by (blast intro: grows_trans)
  ultimately show ?thesis using g spec(2,5,6) 1(3) by auto
qed

lemma plain_Get_iso: "plain_ok V revs txn s \<Longrightarrow> stm_Get txn keys s = Done (v, s') \<Longrightarrow> iso s' = iso s"
  by (auto simp: stm_Get_def split: option.splits dest: stm_fetch_spec(5))

lemma plain_Rev_iso: "plain_ok V revs txn s \<Longrightarrow> stm_Rev txn k s = Done (r, s') \<Longrightarrow> iso s' = iso s"
  by (auto simp: stm_Rev_def dest: stm_fetch_spec(5))

text \<open>Both, behind the interface.\<close>

definition stm_ok :: "history \<Rightarrow> (nat \<Rightarrow> int) \<Rightarrow> 'err txn \<Rightarrow> stm \<Rightarrow> bool" where
  "stm_ok V revs txn s = (if serializable (iso s) then ser_ok V revs txn s else plain_ok V revs txn s)"

lemma ser_cached:
  assumes "ser_ok V revs txn s" and "mget (rset s) k = Some x" and "mget (wset s) k = None"
  shows "ser_Get txn [k] s = Done (respToValue x, s)"
proof -
  have "mget (prefetch s) k = None" using assms unfolding ser_ok_def by blast
  then have "take_prefetched [k] s = s" by simp
  moreover have "rset s \<noteq> []" using assms(2) by auto
  ultimately show ?thesis using assms(2,3) by (simp add: ser_Get_def ws_get_def fetch_cached)
qed

lemma ser_ok_put: "ser_ok V revs txn s \<Longrightarrow> ser_ok V revs txn (s\<lparr>wset := mput k p (wset s)\<rparr>)"
  by (auto simp: ser_ok_def plain_ok_def go_map_simps)

lemma dyn_Get:
  assumes "stm_ok V revs txn s" and "STM_Get txn keys s = Done (v, s')"
  shows "stm_ok V revs txn s' \<and> wset s' = wset s \<and> grows (rset s) (rset s') \<and> iso s' = iso s \<and>
    read_from (wset s') (rset s') keys v"
proof (cases "serializable (iso s)")
  case True
  with assms have "ser_ok V revs txn s" "ser_Get txn keys s = Done (v, s')" by (simp_all add: stm_ok_def STM_Get_def)
  from ser_Get_spec [OF this] True show ?thesis unfolding stm_ok_def by metis
next
  case False
  with assms have ok: "plain_ok V revs txn s" "stm_Get txn keys s = Done (v, s')" by (simp_all add: stm_ok_def STM_Get_def)
  from False plain.get_ok [OF ok] plain.get_wset [OF ok] plain.get_grows [OF ok] plain.get_reads [OF ok]
    plain_Get_iso [OF ok]
  show ?thesis by (simp add: stm_ok_def)
qed

lemma dyn_Rev:
  assumes "stm_ok V revs txn s" and "STM_Rev txn k s = Done (r, s')"
  shows "stm_ok V revs txn s' \<and> wset s' = wset s \<and> grows (rset s) (rset s') \<and> iso s' = iso s \<and>
    (\<exists>x. mget (rset s') k = Some x \<and> r = resp_rev x)"
proof (cases "serializable (iso s)")
  case True
  with assms have "ser_ok V revs txn s" "ser_Rev txn k s = Done (r, s')" by (simp_all add: stm_ok_def STM_Rev_def)
  from ser_Rev_spec [OF this] True show ?thesis by (simp add: stm_ok_def)
next
  case False
  with assms have ok: "plain_ok V revs txn s" "stm_Rev txn k s = Done (r, s')" by (simp_all add: stm_ok_def STM_Rev_def)
  from False plain.rev_ok [OF ok] plain.rev_wset [OF ok] plain.rev_grows [OF ok] plain.rev_reads [OF ok]
    plain_Rev_iso [OF ok]
  show ?thesis by (simp add: stm_ok_def)
qed

interpretation dyn: STM "STM_Get txn" "STM_Rev txn" "\<lambda>s. iso s = lvl \<and> stm_ok V revs txn s"
  for V revs txn lvl
proof
  fix s s' keys v k r p x
  assume ok: "iso s = lvl \<and> stm_ok V revs txn s"
  {
    assume "STM_Get txn keys s = Done (v, s')"
    with ok dyn_Get [of V revs txn s keys v s']
    show "iso s' = lvl \<and> stm_ok V revs txn s'" "wset s' = wset s" "grows (rset s) (rset s')"
      "read_from (wset s') (rset s') keys v"
      by blast+
  next
    assume "STM_Rev txn k s = Done (r, s')"
    with ok dyn_Rev [of V revs txn s k r s']
    show "iso s' = lvl \<and> stm_ok V revs txn s'" "wset s' = wset s" "grows (rset s) (rset s')"
      "\<exists>x. mget (rset s') k = Some x \<and> r = resp_rev x"
      by blast+
  next
    show "iso (s\<lparr>wset := mput k p (wset s)\<rparr>) = lvl \<and> stm_ok V revs txn (s\<lparr>wset := mput k p (wset s)\<rparr>)"
      using ok by (auto simp: stm_ok_def plain_ok_def ser_ok_put split: if_splits)
  next
    assume "mget (rset s) k = Some x" "mget (wset s) k = None"
    then show "STM_Get txn [k] s = Done (respToValue x, s)"
      using ok ser_cached plain.cached by (auto simp: STM_Get_def stm_ok_def)
  }
qed

section \<open>Commit\<close>

lemma resp_rev_entry [simp]: "resp_rev (Some \<lparr>hdr_rev = r, kvs = opt_list x\<rparr>) = rev_of mod_rev x"
  by (simp add: resp_rev_def opt_list_def rev_of_def split: option.splits)

lemma respToValue_entry [simp]: "respToValue (Some \<lparr>hdr_rev = r, kvs = opt_list x\<rparr>) = view_value x"
  by (simp add: respToValue_def opt_list_def view_value_def split: option.splits)

lemma isKeyCurrent_eq: "isKeyCurrent k x = (if x = None then Crash NilDeref else Done (ModEq k (resp_rev x)))"
  by (simp add: isKeyCurrent_def resp_rev_def split: option.splits list.splits)

lemma rs_cmps_mem: "rs_cmps rs = Done cs \<Longrightarrow> (k, x) \<in> set rs \<Longrightarrow> ModEq k (resp_rev x) \<in> set cs"
  by (induction rs arbitrary: cs) (auto simp: isKeyCurrent_eq split: if_splits)

lemma current_reads:
  assumes "history_ok V" and "genuine V rs" and "rs_cmps rs = Done cs"
    and "\<forall>c \<in> set cs. cmp_holds (V r) c" and "mget rs k = Some x"
  shows "respToValue x = view_value (V r k) \<and> resp_rev x = rev_of mod_rev (V r k)"
proof -
  obtain h q where x: "x = Some \<lparr>hdr_rev = h, kvs = opt_list (V q k)\<rparr>"
    using assms(2,5) unfolding genuine_def by blast
  have "ModEq k (resp_rev x) \<in> set cs" using assms(3,5) by (blast intro: rs_cmps_mem map_of_SomeD)
  with assms(4) x have "rev_of mod_rev (V r k) = rev_of mod_rev (V q k)" by auto
  with assms(1) have "V r k = V q k" by (rule same_mod_rev)
  with x show ?thesis by simp
qed

lemma ser_commit_alt:
  fixes txn :: "'err txn"
  shows "ser_commit txn s = rbind (conflicts s) (\<lambda>cmps.
     case txn (rpcs s) cmps (ws_puts (wset s)) (snd (gets s)) of Inr err \<Rightarrow> Abort err
     | Inl r \<Rightarrow> if succeeded r then Done (Some r, s\<lparr>rpcs := Suc (rpcs s)\<rparr>)
         else rbind (rs_add (fst (gets s)) (responses r) (rset s)) (\<lambda>rs. Done (None,
           s\<lparr>rpcs := Suc (rpcs s), rset := rs, prefetch := rs, getOpts := no_opts\<rparr>)))"
  by (cases "conflicts s :: (cmp list, 'err) res")
    (simp_all add: ser_commit_def Let_def case_prod_unfold split: sum.split)

lemma STM_commit_Some:
  fixes txn :: "'err txn"
  assumes "STM_commit txn s = Done (Some resp, s')"
  obtains cmps elses where "conflicts s = (Done cmps :: (cmp list, 'err) res)"
    and "txn (rpcs s) cmps (ws_puts (wset s)) elses = Inl resp" and "succeeded resp"
proof -
  have "\<exists>cmps elses. conflicts s = (Done cmps :: (cmp list, 'err) res) \<and>
      txn (rpcs s) cmps (ws_puts (wset s)) elses = Inl resp \<and> succeeded resp"
  proof (cases "serializable (iso s)")
    case True
    with assms obtain cmps where c: "conflicts s = (Done cmps :: (cmp list, 'err) res)"
      and *: "(case txn (rpcs s) cmps (ws_puts (wset s)) (snd (gets s)) of Inr err \<Rightarrow> Abort err
         | Inl r \<Rightarrow> if succeeded r then Done (Some r, s\<lparr>rpcs := Suc (rpcs s)\<rparr>)
             else rbind (rs_add (fst (gets s)) (responses r) (rset s)) (\<lambda>rs. Done (None,
               s\<lparr>rpcs := Suc (rpcs s), rset := rs, prefetch := rs, getOpts := no_opts\<rparr>))) = Done (Some resp, s')"
      unfolding STM_commit_def ser_commit_alt by (auto simp only: if_True rbind_Done)
    from * show ?thesis
      by (cases "txn (rpcs s) cmps (ws_puts (wset s)) (snd (gets s))") (auto simp: c split: if_splits)
  next
    case False
    with assms obtain cmps where c: "conflicts s = (Done cmps :: (cmp list, 'err) res)"
      and *: "(case txn (rpcs s) cmps (ws_puts (wset s)) [] of Inr err \<Rightarrow> Abort err
         | Inl r \<Rightarrow> Done (if succeeded r then Some r else None, s\<lparr>rpcs := Suc (rpcs s)\<rparr>)) = Done (Some resp, s')"
      by (auto simp: STM_commit_def stm_commit_def)
    from * show ?thesis
      by (cases "txn (rpcs s) cmps (ws_puts (wset s)) []") (auto simp: c split: if_splits)
  qed
  with that show ?thesis by blast
qed

lemma conflicts_reads:
  assumes "conflicts s = (Done cmps :: (cmp list, 'err) res)" and "iso s \<noteq> ReadCommitted"
  obtains cs where "rs_cmps (rset s) = (Done cs :: (cmp list, 'err) res)" and "set cs \<subseteq> set cmps"
  using assms by (cases "iso s") (auto simp: conflicts_def)

text \<open>What a failed attempt leaves behind.\<close>

lemma ser_commit_None:
  assumes "ser_ok V revs txn s" and "ser_commit txn s = Done (None, s')"
  shows "genuine V (prefetch s') \<and> iso s' = iso s"
proof -
  have etcd: "etcd_ok V revs txn" and gen: "genuine V (rset s)"
    using assms(1) by (auto simp: ser_ok_def plain_ok_def)
  from assms(2) obtain cmps where *: "(case txn (rpcs s) cmps (ws_puts (wset s)) (snd (gets s)) of Inr err \<Rightarrow> Abort err
      | Inl r \<Rightarrow> if succeeded r then Done (Some r, s\<lparr>rpcs := Suc (rpcs s)\<rparr>)
          else rbind (rs_add (fst (gets s)) (responses r) (rset s)) (\<lambda>rs. Done (None,
            s\<lparr>rpcs := Suc (rpcs s), rset := rs, prefetch := rs, getOpts := no_opts\<rparr>))) = Done (None, s')"
    unfolding ser_commit_alt by (auto simp only: rbind_Done)
  then obtain tr where tr: "txn (rpcs s) cmps (ws_puts (wset s)) (snd (gets s)) = Inl tr"
    by (cases "txn (rpcs s) cmps (ws_puts (wset s)) (snd (gets s))") simp_all
  with * have "\<not> succeeded tr" by (auto split: if_splits)
  with * tr obtain rs where rs: "rs_add (fst (gets s)) (responses tr) (rset s) = (Done rs :: (readSet, 'a) res)"
    and s': "s' = s\<lparr>rpcs := Suc (rpcs s), rset := rs, prefetch := rs, getOpts := no_opts\<rparr>"
    by auto
  have "(if succeeded tr then ws_puts (wset s) else snd (gets s)) = map (\<lambda>k. OpGet k no_opts) (fst (gets s))"
    using \<open>\<not> succeeded tr\<close> by (simp add: gets_def case_prod_unfold)
  then obtain r where resps: "responses tr = map (\<lambda>k. Some \<lparr>hdr_rev = r,
      kvs = opt_list (V (case at_rev no_opts of Some q \<Rightarrow> q | None \<Rightarrow> r) k)\<rparr>) (fst (gets s))"
    by (rule etcd_reads [OF etcd tr])
  have "gomap_ok rs" using rs_add_gomap_ok [OF rs] gen by (simp add: genuine_def)
  with gen have "genuine V rs" using rs_add_map [OF rs [unfolded resps]] by (rule genuine_add)
  with s' show ?thesis by simp
qed

text \<open>Between two attempts.\<close>

definition between_ok :: "history \<Rightarrow> (nat \<Rightarrow> int) \<Rightarrow> 'err txn \<Rightarrow> stm \<Rightarrow> bool" where
  "between_ok V revs txn s \<longleftrightarrow> etcd_ok V revs txn \<and> (serializable (iso s) \<longrightarrow> genuine V (prefetch s))"

lemma genuine_Nil [simp]: "genuine V []"
  by (simp add: genuine_def)

lemma reset_ok: "between_ok V revs txn s \<Longrightarrow> stm_ok V revs txn (reset s)"
  by (simp add: between_ok_def stm_ok_def ser_ok_def plain_ok_def reset_def)

lemma mkSTM_ok: "etcd_ok V revs txn \<Longrightarrow> between_ok V revs txn (mkSTM lvl)"
  by (simp add: between_ok_def mkSTM_def)

lemma stm_ok_etcd: "stm_ok V revs txn s \<Longrightarrow> etcd_ok V revs txn"
  by (simp add: stm_ok_def ser_ok_def plain_ok_def split: if_splits)

lemma stm_ok_genuine: "stm_ok V revs txn s \<Longrightarrow> genuine V (rset s)"
  by (simp add: stm_ok_def ser_ok_def plain_ok_def split: if_splits)

lemma apply_ok:
  assumes "between_ok V revs txn s" and "apply_prog txn p (reset s) = Done (e, s1)"
  shows "stm_ok V revs txn s1 \<and> iso s1 = iso s"
  using dyn.run_ok [of txn p "reset s" e s1 "iso s" V revs] assms reset_ok [OF assms(1)]
  by (simp add: apply_prog_def reset_def)

lemma stm_round_None:
  assumes "between_ok V revs txn s" and "stm_round txn p s = Done (None, s')"
  shows "between_ok V revs txn s' \<and> iso s' = iso s"
proof -
  from assms(2) obtain s1 where 1: "apply_prog txn p (reset s) = Done (None, s1)" "STM_commit txn s1 = Done (None, s')"
    by (auto simp: stm_round_def split: option.splits)
  note ok = apply_ok [OF assms(1) 1(1)]
  show ?thesis
  proof (cases "serializable (iso s)")
    case True
    with ok 1(2) have "ser_ok V revs txn s1" "ser_commit txn s1 = Done (None, s')"
      by (simp_all add: stm_ok_def STM_commit_def)
    from ser_commit_None [OF this] ok show ?thesis by (auto simp: between_ok_def dest: stm_ok_etcd)
  next
    case False
    with ok 1(2) have "stm_commit txn s1 = Done (None, s')" by (simp add: STM_commit_def)
    then obtain cmps where "(case txn (rpcs s1) cmps (ws_puts (wset s1)) [] of Inr err \<Rightarrow> Abort err
        | Inl r \<Rightarrow> Done (if succeeded r then Some r else None, s1\<lparr>rpcs := Suc (rpcs s1)\<rparr>)) = Done (None, s')"
      by (auto simp: stm_commit_def)
    then have "iso s' = iso s1" by (cases "txn (rpcs s1) cmps (ws_puts (wset s1)) []") auto
    with ok False show ?thesis by (auto simp: between_ok_def dest: stm_ok_etcd)
  qed
qed

text \<open>The attempt that commits.\<close>

lemma runSTM_Committed:
  assumes "between_ok V revs txn s" and "runSTM txn n p s = Some (Committed resp)"
  obtains s0 s1 s2 where "between_ok V revs txn s0" and "iso s0 = iso s"
    and "apply_prog txn p (reset s0) = Done (None, s1)" and "STM_commit txn s1 = Done (Some resp, s2)"
proof -
  have "\<exists>s0 s1 s2. between_ok V revs txn s0 \<and> iso s0 = iso s \<and>
      apply_prog txn p (reset s0) = Done (None, s1) \<and> STM_commit txn s1 = Done (Some resp, s2)"
    using assms
  proof (induction n arbitrary: s)
    case (Suc n)
    show ?case
    proof (cases "stm_round txn p s")
      case (Done x)
      then obtain out s' where r: "stm_round txn p s = Done (out, s')" by (cases x) auto
      show ?thesis
      proof (cases out)
        case None
        with r stm_round_None [OF Suc.prems(1)] have "between_ok V revs txn s'" "iso s' = iso s" by simp_all
        moreover have "runSTM txn n p s' = Some (Committed resp)" using Suc.prems(2) r None by simp
        ultimately show ?thesis using Suc.IH by fastforce
      next
        case (Some o')
        with r Suc.prems(2) have "stm_round txn p s = Done (Some (Committed resp), s')" by simp
        then obtain e s1 where 1: "apply_prog txn p (reset s) = Done (e, s1)"
          and 2: "(case e of Some err \<Rightarrow> Done (Some (Failed err), s1)
             | None \<Rightarrow> rbind (STM_commit txn s1) (\<lambda>(r, s). Done (map_option Committed r, s))) =
             (Done (Some (Committed resp), s') :: ('a stm_out option \<times> stm, 'a) res)"
          unfolding stm_round_def rbind_Done by auto
        from 2 have "e = None" "STM_commit txn s1 = Done (Some resp, s')"
          by (auto split: option.splits)
        with 1 Suc.prems(1) show ?thesis by blast
      qed
    qed (use Suc.prems in auto)
  qed simp
  with that show ?thesis by blast
qed

lemma commit_serial:
  fixes txn :: "'err txn"
  assumes "between_ok V revs txn s0" and "iso s0 \<noteq> ReadCommitted"
    and "apply_prog txn p (reset s0) = Done (None, s1)" and "STM_commit txn s1 = Done (Some resp, s2)"
  obtains cmps elses where "serial (V (revs (rpcs s1))) [] p None (wset s1)"
    and "txn (rpcs s1) cmps (ws_puts (wset s1)) elses = Inl resp" and "succeeded resp"
    and "conflicts s1 = (Done cmps :: (cmp list, 'err) res)"
proof -
  let ?W = "V (revs (rpcs s1))"
  note ok = apply_ok [OF assms(1,3)]
  obtain cmps elses where c: "conflicts s1 = (Done cmps :: (cmp list, 'err) res)"
    and t: "txn (rpcs s1) cmps (ws_puts (wset s1)) elses = Inl resp" "succeeded resp"
    using assms(4) by (rule STM_commit_Some)
  have etcd: "etcd_ok V revs txn" using ok by (blast dest: stm_ok_etcd)
  have "iso s1 \<noteq> ReadCommitted" using ok assms(2) by simp
  with c obtain cs where cs: "rs_cmps (rset s1) = (Done cs :: (cmp list, 'err) res)" "set cs \<subseteq> set cmps"
    by (rule conflicts_reads)
  have holds: "\<forall>c \<in> set cs. cmp_holds ?W c" using etcd_okD(1) [OF etcd t(1)] t(2) cs(2) by auto
  have V: "history_ok V" using etcd by (simp add: etcd_ok_def)
  have gen: "genuine V (rset s1)" using ok by (blast dest: stm_ok_genuine)
  have "serial ?W (wset (reset s0)) p None (wset s1)"
    using assms(3) reset_ok [OF assms(1)] unfolding apply_prog_def
    by (intro dyn.run_serial [of txn p "reset s0" None s1 "iso s0" V revs])
      (auto simp: reset_def intro: current_reads [OF V gen cs(1) holds, THEN conjunct1]
         current_reads [OF V gen cs(1) holds, THEN conjunct2])
  with t c show ?thesis using that by (simp add: reset_def)
qed

lemma serial_prefetch:
  assumes "serial W [] (Get keys (\<lambda>_. p)) e ws" shows "serial W [] p e ws"
  using assms by cases (auto simp: ws_get_def)

text \<open>
  A transaction that commits above the level ReadCommitted is serializable: its function
  behaved, own writes included, as in an execution against the single state of the store at
  which the server applied its writes.
\<close>

theorem stm_serializable:
  assumes "etcd_ok V revs txn" and "so_iso (stm_options opts) \<noteq> ReadCommitted"
    and "NewSTM txn fuel p opts = Some (Committed resp)"
  shows "\<exists>n ws cmps elses. serial (V (revs n)) [] p None ws \<and>
    txn n cmps (ws_puts ws) elses = Inl resp \<and> succeeded resp"
proof -
  let ?o = "stm_options opts"
  let ?p = "if so_prefetch ?o \<noteq> [] then Get (so_prefetch ?o) (\<lambda>_. p) else p"
  have "runSTM txn fuel ?p (mkSTM (so_iso ?o)) = Some (Committed resp)"
    using assms(3) by (simp add: NewSTM_def Let_def)
  then obtain s0 s1 s2 where 1: "between_ok V revs txn s0" "iso s0 = iso (mkSTM (so_iso ?o))"
    "apply_prog txn ?p (reset s0) = Done (None, s1)" "STM_commit txn s1 = Done (Some resp, s2)"
    by (rule runSTM_Committed [OF mkSTM_ok [OF assms(1)]])
  have "iso s0 \<noteq> ReadCommitted" using 1(2) assms(2) by (simp add: mkSTM_def)
  from commit_serial [OF 1(1) this 1(3,4)] obtain cmps elses where
    "serial (V (revs (rpcs s1))) [] ?p None (wset s1)"
    "txn (rpcs s1) cmps (ws_puts (wset s1)) elses = Inl resp" "succeeded resp" .
  moreover from this(1) have "serial (V (revs (rpcs s1))) [] p None (wset s1)"
    by (auto split: if_splits dest: serial_prefetch)
  ultimately show ?thesis by blast
qed

text \<open>A store with two keys, where \<^verbatim>\<open>a\<close> changes and \<^verbatim>\<open>b\<close> appears at revision 3.\<close>

definition ex_hist :: history where
  "ex_hist r k =
     (if k = ''a'' \<and> 1 \<le> r
      then Some (if r < 3 then \<lparr>kv_key = ''a'', kv_value = ''1'', create_rev = 1, mod_rev = 1\<rparr>
                 else \<lparr>kv_key = ''a'', kv_value = ''2'', create_rev = 1, mod_rev = 3\<rparr>)
      else if k = ''b'' \<and> 3 \<le> r
      then Some \<lparr>kv_key = ''b'', kv_value = ''2'', create_rev = 3, mod_rev = 3\<rparr>
      else None)"

lemma ex_hist_ok: "history_ok ex_hist"
  by (auto simp: history_ok_def ex_hist_def split: if_splits)

definition ex_revs :: "nat \<Rightarrow> int" where
  "ex_revs n = (if n = 0 then 2 else 3)"

definition ex_copy :: "string prog" where
  "ex_copy = Get [''a''] (\<lambda>v. Put ''c'' v [] (Return None))"

definition res_state :: "('a \<times> stm, 'err) res \<Rightarrow> stm" where
  "res_state r = (case r of Done (_, s) \<Rightarrow> s | _ \<Rightarrow> mkSTM ReadCommitted)"

lemma fresh_ok: "etcd_ok V revs txn \<Longrightarrow> stm_ok V revs txn (reset (mkSTM lvl))"
  by (simp add: mkSTM_ok reset_ok)

lemma stm_serializable_witness:
  "NewSTM (history_txn ''future'' ex_hist ex_revs) 2 ex_copy [] =
      Some (Committed \<lparr>succeeded = True, tx_rev = 3, responses = [None]\<rparr>) \<and>
   (\<exists>n ws cmps elses. serial (ex_hist (ex_revs n)) [] ex_copy None ws \<and>
     history_txn ''future'' ex_hist ex_revs n cmps (ws_puts ws) elses =
       Inl \<lparr>succeeded = True, tx_rev = 3, responses = [None]\<rparr>)"
proof -
  have run: "NewSTM (history_txn ''future'' ex_hist ex_revs) 2 ex_copy [] =
      Some (Committed \<lparr>succeeded = True, tx_rev = 3, responses = [None]\<rparr>)"
    by code_simp
  have "so_iso (stm_options []) \<noteq> ReadCommitted" by code_simp
  from stm_serializable [OF history_txn_ok [OF ex_hist_ok] this run] run show ?thesis by blast
qed

text \<open>When a commit goes through.\<close>

lemma rs_first_le: "rs_first rs = Done m \<Longrightarrow> (k, Some r) \<in> set rs \<Longrightarrow> m \<le> hdr_rev r"
  by (induction rs arbitrary: m) (auto split: if_splits option.splits)

lemma rs_first_attained:
  "rs_first rs = Done m \<Longrightarrow> m = max_first \<or> (\<exists>k r. (k, Some r) \<in> set rs \<and> m = hdr_rev r)"
proof (induction rs arbitrary: m)
  case (Cons kx rs)
  obtain k r where kx: "kx = (k, Some r)"
    using Cons.prems by (cases kx; cases "snd kx") auto
  with Cons.prems obtain q where q: "rs_first rs = (Done q :: (int, 'a) res)" "m = (if hdr_rev r < q then hdr_rev r else q)"
    by auto
  with Cons.IH [OF q(1)] kx show ?case by (cases "hdr_rev r < q") auto
qed simp

lemma rs_cmps_map: "rs_cmps rs = Done cs \<Longrightarrow> cs = map (\<lambda>(k, x). ModEq k (resp_rev x)) rs"
  by (induction rs arbitrary: cs) (auto simp: isKeyCurrent_eq split: if_splits)

lemma STM_commit_conflicts:
  fixes txn :: "'err txn"
  assumes "STM_commit txn s = Done (r, s')"
  obtains cmps thens elses resp where "conflicts s = (Done cmps :: (cmp list, 'err) res)"
    and "txn (rpcs s) cmps thens elses = Inl resp" and "r \<noteq> None \<longleftrightarrow> succeeded resp"
proof (cases "serializable (iso s)")
  case True
  with assms obtain cmps where c: "conflicts s = (Done cmps :: (cmp list, 'err) res)"
    and *: "(case txn (rpcs s) cmps (ws_puts (wset s)) (snd (gets s)) of Inr err \<Rightarrow> Abort err
      | Inl r \<Rightarrow> if succeeded r then Done (Some r, s\<lparr>rpcs := Suc (rpcs s)\<rparr>)
          else rbind (rs_add (fst (gets s)) (responses r) (rset s)) (\<lambda>rs. Done (None,
            s\<lparr>rpcs := Suc (rpcs s), rset := rs, prefetch := rs, getOpts := no_opts\<rparr>))) = Done (r, s')"
    unfolding STM_commit_def ser_commit_alt by (auto simp only: if_True rbind_Done)
  from * obtain resp where t: "txn (rpcs s) cmps (ws_puts (wset s)) (snd (gets s)) = Inl resp"
    by (cases "txn (rpcs s) cmps (ws_puts (wset s)) (snd (gets s))") simp_all
  with * have "r \<noteq> None \<longleftrightarrow> succeeded resp" by (auto split: if_splits)
  with c t show ?thesis by (rule that)
next
  case False
  with assms obtain cmps where c: "conflicts s = (Done cmps :: (cmp list, 'err) res)"
    and *: "(case txn (rpcs s) cmps (ws_puts (wset s)) [] of Inr err \<Rightarrow> Abort err
       | Inl r \<Rightarrow> Done (if succeeded r then Some r else None, s\<lparr>rpcs := Suc (rpcs s)\<rparr>)) = Done (r, s')"
    by (auto simp: STM_commit_def stm_commit_def)
  from * obtain resp where t: "txn (rpcs s) cmps (ws_puts (wset s)) [] = Inl resp"
    by (cases "txn (rpcs s) cmps (ws_puts (wset s)) []") simp_all
  with * have "r \<noteq> None \<longleftrightarrow> succeeded resp" by (auto split: if_splits)
  with c t show ?thesis by (rule that)
qed

definition reads_current :: "view \<Rightarrow> stm \<Rightarrow> bool" where
  "reads_current W s \<longleftrightarrow> (\<forall>k x. mget (rset s) k = Some x \<longrightarrow> resp_rev x = rev_of mod_rev (W k))"

definition writes_fresh :: "view \<Rightarrow> stm \<Rightarrow> bool" where
  "writes_fresh W s \<longleftrightarrow> (\<forall>k \<in> dom (mget (wset s)). \<forall>j r.
     mget (rset s) j = Some (Some r) \<longrightarrow> rev_of mod_rev (W k) \<le> hdr_rev r)"

lemma cmps_current:
  assumes "genuine V (rset s)" and "rs_cmps (rset s) = Done cs"
  shows "(\<forall>c \<in> set cs. cmp_holds W c) \<longleftrightarrow> reads_current W s"
  using assms by (fastforce simp: rs_cmps_map [OF assms(2)] reads_current_def genuine_def)

lemma cmps_fresh:
  assumes "genuine V (rset s)" and "rs_first (rset s) = Done m"
    and "\<forall>k. rev_of mod_rev (W k) < 2 ^ 63 - 1"
  shows "(\<forall>c \<in> set (ws_cmps (m + 1) (wset s)). cmp_holds W c) \<longleftrightarrow> writes_fresh W s"
proof -
  have ok: "gomap_ok (rset s)" using assms(1) by (simp add: genuine_def)
  have "(\<forall>c \<in> set (ws_cmps (m + 1) (wset s)). cmp_holds W c) \<longleftrightarrow>
      (\<forall>k \<in> dom (mget (wset s)). rev_of mod_rev (W k) \<le> m)"
    by (auto simp: ws_cmps_def dom_map_of_conv_image_fst zless_add1_eq)
  also have "\<dots> \<longleftrightarrow> writes_fresh W s"
  proof
    assume "\<forall>k \<in> dom (mget (wset s)). rev_of mod_rev (W k) \<le> m"
    with rs_first_le [OF assms(2)] show "writes_fresh W s"
      unfolding writes_fresh_def by (meson map_of_SomeD order_trans)
  next
    assume fresh: "writes_fresh W s"
    show "\<forall>k \<in> dom (mget (wset s)). rev_of mod_rev (W k) \<le> m"
      using rs_first_attained [OF assms(2)]
    proof
      assume "m = max_first"
      moreover have "rev_of mod_rev (W k) \<le> 2 ^ 63 - 2" for k
        using assms(3) [THEN spec, of k] by simp
      ultimately show ?thesis by (simp add: max_first_def)
    next
      assume "\<exists>k r. (k, Some r) \<in> set (rset s) \<and> m = hdr_rev r"
      with fresh ok show ?thesis unfolding writes_fresh_def by (metis map_of_is_SomeI)
    qed
  qed
  finally show ?thesis .
qed

lemma conflicts_hold:
  assumes c: "conflicts s = (Done cmps :: (cmp list, 'err) res)" and gen: "genuine V (rset s)"
    and bound: "\<forall>k. rev_of mod_rev (W k) < 2 ^ 63 - 1"
  shows "(\<forall>c \<in> set cmps. cmp_holds W c) \<longleftrightarrow> (iso s \<noteq> ReadCommitted \<longrightarrow> reads_current W s) \<and>
    (iso s = SerializableSnapshot \<longrightarrow> writes_fresh W s)"
proof -
  have "(\<forall>c \<in> set (ws_cmps (m + 1) (wset s)). cmp_holds W c) = writes_fresh W s"
    if "rs_first (rset s) = (Done m :: (int, 'err) res)" for m
    using gen that bound by (rule cmps_fresh)
  with c cmps_current [OF gen, of _ W] show ?thesis
    by (cases "iso s") (auto simp: conflicts_def ball_Un)
qed

text \<open>
  C11 (functional).  When a commit that is answered goes through, by the level: at ReadCommitted
  always, whatever has changed; at RepeatableReads and at Serializable exactly when no key the
  attempt has read changed since; at SerializableSnapshot exactly when, besides that, no key it
  writes was modified after the revision of any of its reads.
\<close>

theorem stm_commit_iff:
  assumes "stm_ok V revs txn s" and "STM_commit txn s = Done (r, s')"
    and "\<forall>k. rev_of mod_rev (V (revs (rpcs s)) k) < 2 ^ 63 - 1"
  shows "r \<noteq> None \<longleftrightarrow> (case iso s of
      ReadCommitted \<Rightarrow> True
    | RepeatableReads \<Rightarrow> reads_current (V (revs (rpcs s))) s
    | Serializable \<Rightarrow> reads_current (V (revs (rpcs s))) s
    | SerializableSnapshot \<Rightarrow> reads_current (V (revs (rpcs s))) s \<and> writes_fresh (V (revs (rpcs s))) s)"
proof -
  let ?W = "V (revs (rpcs s))"
  have etcd: "etcd_ok V revs txn" using assms(1) by (rule stm_ok_etcd)
  have gen: "genuine V (rset s)" using assms(1) by (rule stm_ok_genuine)
  obtain cmps thens elses resp where c: "conflicts s = (Done cmps :: (cmp list, 'a) res)"
    and t: "txn (rpcs s) cmps thens elses = Inl resp" "r \<noteq> None \<longleftrightarrow> succeeded resp"
    using assms(2) by (rule STM_commit_conflicts)
  have "r \<noteq> None \<longleftrightarrow> (\<forall>c \<in> set cmps. cmp_holds ?W c)"
    using etcd_okD(1) [OF etcd t(1)] t(2) by simp
  also have "\<dots> \<longleftrightarrow> (iso s \<noteq> ReadCommitted \<longrightarrow> reads_current ?W s) \<and>
    (iso s = SerializableSnapshot \<longrightarrow> writes_fresh ?W s)"
    using c gen assms(3) by (rule conflicts_hold)
  finally show ?thesis by (cases "iso s") simp_all
qed

text \<open>
  The key that was read is overwritten before the commit: SerializableSnapshot does not
  commit, ReadCommitted does.
\<close>

theorem stm_commit_iff_witness:
  "(\<exists>s s'. apply_prog (history_txn ''future'' ex_hist ex_revs) ex_copy (reset (mkSTM SerializableSnapshot)) = Done (None, s) \<and>
     STM_commit (history_txn ''future'' ex_hist ex_revs) s = Done (None, s') \<and>
     \<not> (reads_current (ex_hist 3) s \<and> writes_fresh (ex_hist 3) s)) \<and>
   (\<exists>s s' resp. apply_prog (history_txn ''future'' ex_hist ex_revs) ex_copy (reset (mkSTM ReadCommitted)) = Done (None, s) \<and>
     STM_commit (history_txn ''future'' ex_hist ex_revs) s = Done (resp, s') \<and> resp \<noteq> None \<and>
     \<not> reads_current (ex_hist 3) s)"
proof
  let ?txn = "history_txn ''future'' ex_hist ex_revs"
  let ?s = "\<lambda>l. res_state (apply_prog ?txn ex_copy (reset (mkSTM l)))"
  have bound: "\<forall>k. rev_of mod_rev (ex_hist n k) < 2 ^ 63 - 1" for n
    by (simp add: ex_hist_def rev_of_def)
  have ok: "stm_ok ex_hist ex_revs ?txn s" if "apply_prog ?txn ex_copy (reset (mkSTM l)) = Done (None, s)" for l s
    using apply_ok [OF mkSTM_ok [OF history_txn_ok [OF ex_hist_ok]] that] by simp
  have 1: "apply_prog ?txn ex_copy (reset (mkSTM SerializableSnapshot)) = Done (None, ?s SerializableSnapshot)" by code_simp
  have 2: "STM_commit ?txn (?s SerializableSnapshot) = Done (None, res_state (STM_commit ?txn (?s SerializableSnapshot)))"
    by code_simp
  have 3: "iso (?s SerializableSnapshot) = SerializableSnapshot" "ex_revs (rpcs (?s SerializableSnapshot)) = 3" by code_simp+
  from stm_commit_iff [OF ok [OF 1] 2 bound] 3
  have "\<not> (reads_current (ex_hist 3) (?s SerializableSnapshot) \<and> writes_fresh (ex_hist 3) (?s SerializableSnapshot))" by auto
  with 1 2 show "\<exists>s s'. apply_prog ?txn ex_copy (reset (mkSTM SerializableSnapshot)) = Done (None, s) \<and>
     STM_commit ?txn s = Done (None, s') \<and> \<not> (reads_current (ex_hist 3) s \<and> writes_fresh (ex_hist 3) s)" by blast
  let ?c = "?s ReadCommitted"
  have 4: "apply_prog ?txn ex_copy (reset (mkSTM ReadCommitted)) = Done (None, ?c)" by code_simp
  let ?r = "Some \<lparr>succeeded = True, tx_rev = 3, responses = [None]\<rparr>"
  have 5: "STM_commit ?txn ?c = Done (?r, res_state (STM_commit ?txn ?c))" by code_simp
  have 6: "iso ?c = ReadCommitted" by code_simp
  have "mget (rset ?c) ''a'' = Some (Some \<lparr>hdr_rev = 2, kvs = [\<lparr>kv_key = ''a'', kv_value = ''1'', create_rev = 1, mod_rev = 1\<rparr>]\<rparr>)"
    by code_simp
  moreover have "resp_rev (Some \<lparr>hdr_rev = 2, kvs = [\<lparr>kv_key = ''a'', kv_value = ''1'', create_rev = 1, mod_rev = 1\<rparr>]\<rparr>) \<noteq>
      rev_of mod_rev (ex_hist 3 ''a'')" by code_simp
  ultimately have 7: "\<not> reads_current (ex_hist 3) ?c" unfolding reads_current_def by blast
  from stm_commit_iff [OF ok [OF 4] 5 bound] 6 have "?r \<noteq> None" by simp
  with 4 5 7 show "\<exists>s s' resp. apply_prog ?txn ex_copy (reset (mkSTM ReadCommitted)) = Done (None, s) \<and>
     STM_commit ?txn s = Done (resp, s') \<and> resp \<noteq> None \<and> \<not> reads_current (ex_hist 3) s" by blast
qed

end
