(* ===== verification/StmReads.thy ===== *)
theory StmReads
  imports StmProps
begin

text \<open>
  What the reads of one attempt of Stm see: they repeat, at the serializable levels the first
  attempt sees a single revision, and where that fails.
\<close>

section \<open>Repeatable reads\<close>

text \<open>
  C29 (safety).  Within an attempt, at every isolation level, a key that has been read and that the
  attempt does not write reads the same until the end.
\<close>

theorem repeatable_reads:
  assumes "stm_ok V revs txn s" and "STM_Get txn [k] s = Done (v, s1)"
    and "apply_prog txn p s1 = Done (e, s2)" and "mget (wset s2) k = None"
  shows "STM_Get txn [k] s2 = Done (v, s2)"
  using assms dyn.repeatable [where lvl = "iso s"] unfolding apply_prog_def by blast

lemma repeatable_reads_witness:
  "\<exists>s1 s2. STM_Get (history_txn ''future'' ex_hist ex_revs) [''a''] (reset (mkSTM ReadCommitted)) = Done (''1'', s1) \<and>
     apply_prog (history_txn ''future'' ex_hist ex_revs) (Get [''b''] (\<lambda>v. Put ''c'' v [] (Return None))) s1 =
       Done (None, s2) \<and>
     STM_Get (history_txn ''future'' ex_hist ex_revs) [''a''] s2 = Done (''1'', s2)"
proof -
  let ?txn = "history_txn ''future'' ex_hist ex_revs"
  let ?p = "Get [''b''] (\<lambda>v. Put ''c'' v [] (Return None))"
  let ?s = "reset (mkSTM ReadCommitted)"
  let ?s1 = "res_state (STM_Get ?txn [''a''] ?s)"
  let ?s2 = "res_state (apply_prog ?txn ?p ?s1)"
  have 1: "STM_Get ?txn [''a''] ?s = Done (''1'', ?s1)" by code_simp
  have 2: "apply_prog ?txn ?p ?s1 = Done (None, ?s2)" by code_simp
  have 3: "mget (wset ?s2) ''a'' = None" by code_simp
  from repeatable_reads [OF fresh_ok [OF history_txn_ok [OF ex_hist_ok]] 1 2 3] 1 2 show ?thesis by blast
qed

section \<open>One revision\<close>

text \<open>
  At the serializable levels the first read fixes the revision of the later ones, as long as
  nothing is prefetched from an earlier attempt.
\<close>

definition snap :: "history \<Rightarrow> stm \<Rightarrow> bool" where
  "snap V s \<longleftrightarrow> serializable (iso s) \<and> prefetch s = [] \<and>
     (rset s = [] \<and> getOpts s = no_opts \<or>
      (\<exists>R. rset s \<noteq> [] \<and> getOpts s = \<lparr>at_rev = Some R, local_read = True\<rparr> \<and>
        (\<forall>k x. mget (rset s) k = Some x \<longrightarrow> (\<exists>h. x = Some \<lparr>hdr_rev = h, kvs = opt_list (V R k)\<rparr>))))"

text \<open>
  The only read that does not fix the revision is a \<^verbatim>\<open>Rev\<close> of a key that the attempt has
  written, before it has read anything from the store.  \<open>rev_safe W rd p\<close> says that \<open>p\<close>
  makes none, when the keys \<open>W\<close> are written and \<open>rd\<close> tells whether something was read.
\<close>

primrec rev_safe :: "'err prog \<Rightarrow> string set \<Rightarrow> bool \<Rightarrow> bool" where
  "rev_safe (Return e) W rd = True"
| "rev_safe (Get keys f) W rd = (\<forall>v. rev_safe (f v) W (rd \<or> (keys \<noteq> [] \<and> set keys \<inter> W = {})))"
| "rev_safe (Put k v opts p) W rd = rev_safe p (insert k W) rd"
| "rev_safe (Del k p) W rd = rev_safe p (insert k W) rd"
| "rev_safe (Rev k f) W rd = ((k \<in> W \<longrightarrow> rd) \<and> (\<forall>r. rev_safe (f r) W True))"

lemma take_prefetched_Nil: "prefetch s = [] \<Longrightarrow> take_prefetched keys s = s"
  by (induction keys) simp_all

lemma fetch_keeps:
  assumes "etcd_ok V revs txn" and "stm_fetch txn keys s = Done (resp, s')"
  shows "prefetch s' = prefetch s" and "iso s' = iso s" and "getOpts s' = getOpts s" and "wset s' = wset s"
    and "keys \<noteq> [] \<or> rset s \<noteq> [] \<Longrightarrow> rset s' \<noteq> []"
proof -
  have "prefetch s' = prefetch s \<and> iso s' = iso s \<and> getOpts s' = getOpts s \<and> wset s' = wset s \<and>
      (keys \<noteq> [] \<or> rset s \<noteq> [] \<longrightarrow> rset s' \<noteq> [])"
    using assms
  proof (cases rule: stm_fetch_cases)
    case hit
    then obtain k where "mget (rset s) k = Some resp" by (blast dest: first_in_Some)
    then have "rset s \<noteq> []" by auto
    with hit show ?thesis by simp
  next
    case (miss r rs)
    have "mget rs (hd keys) \<noteq> None" using miss(1,3) by simp
    then have "rs \<noteq> []" by auto
    with miss show ?thesis by simp
  qed simp
  then show "prefetch s' = prefetch s" and "iso s' = iso s" and "getOpts s' = getOpts s" and "wset s' = wset s"
    and "keys \<noteq> [] \<or> rset s \<noteq> [] \<Longrightarrow> rset s' \<noteq> []" by blast+
qed

text \<open>A fetch after the first read stays at the revision of that read.\<close>

lemma snap_fetch:
  assumes etcd: "etcd_ok V revs txn" and "snap V s" and "rset s \<noteq> []" and f: "stm_fetch txn keys s = Done (resp, s')"
  shows "snap V s'"
proof -
  note keeps = fetch_keeps [OF etcd f]
  from etcd f show ?thesis
  proof (cases rule: stm_fetch_cases)
    case (miss r rs)
    from assms(2,3) obtain R where g: "getOpts s = \<lparr>at_rev = Some R, local_read = True\<rparr>"
      and at: "\<forall>k x. mget (rset s) k = Some x \<longrightarrow> (\<exists>h. x = Some \<lparr>hdr_rev = h, kvs = opt_list (V R k)\<rparr>)"
      by (auto simp: snap_def)
    have "\<exists>h. x = Some \<lparr>hdr_rev = h, kvs = opt_list (V R k)\<rparr>" if "mget rs k = Some x" for k x
      using that miss(3) at g by (auto simp: entry_def split: if_splits)
    with keeps assms(2,3) miss(6) g show ?thesis by (simp add: snap_def)
  qed (use assms(2) in simp_all)
qed

lemma snap_Get:
  assumes etcd: "etcd_ok V revs txn" and "snap V s" and "STM_Get txn keys s = Done (v, s')"
  shows "snap V s' \<and> wset s' = wset s \<and>
    (rset s \<noteq> [] \<or> keys \<noteq> [] \<and> ws_get (wset s) keys = None \<longrightarrow> rset s' \<noteq> [])"
proof -
  have iso: "serializable (iso s)" and pre: "prefetch s = []" using assms(2) by (simp_all add: snap_def)
  then have get: "ser_Get txn keys s = Done (v, s')" using assms(3) by (simp add: STM_Get_def)
  show ?thesis
  proof (cases "ws_get (wset s) keys")
    case (Some p)
    with get assms(2) show ?thesis by (auto simp: ser_Get_def)
  next
    case None
    with get pre have "rbind (stm_fetch txn keys s) (\<lambda>(resp, s1).
        if rset s = [] then case resp of None \<Rightarrow> Crash NilDeref
          | Some r \<Rightarrow> Done (respToValue resp, s1\<lparr>getOpts := \<lparr>at_rev = Some (hdr_rev r), local_read = True\<rparr>\<rparr>)
        else Done (respToValue resp, s1)) = Done (v, s')"
      by (simp only: ser_Get_def Let_def option.case take_prefetched_Nil)
    then obtain resp s1 where f: "stm_fetch txn keys s = Done (resp, s1)"
      and r: "(if rset s = [] then case resp of None \<Rightarrow> Crash NilDeref
          | Some r \<Rightarrow> Done (respToValue resp, s1\<lparr>getOpts := \<lparr>at_rev = Some (hdr_rev r), local_read = True\<rparr>\<rparr>)
          else Done (respToValue resp, s1)) = (Done (v, s') :: (string \<times> stm, 'a) res)"
      by (auto simp only: rbind_Done split_paired_Ex case_prod_conv)
    note keeps = fetch_keeps [OF etcd f]
    have same: "wset s' = wset s" "rset s' = rset s1" using r keeps(4) by (auto split: if_splits option.splits)
    have "snap V s'"
    proof (cases "rset s = []")
      case False
      with r snap_fetch [OF etcd assms(2) False f] show ?thesis by simp
    next
      case True
      from etcd f show ?thesis
      proof (cases rule: stm_fetch_cases)
        case empty
        with r True show ?thesis by simp
      next
        case hit
        with True show ?thesis by (auto dest: first_in_Some)
      next
        case (miss r' rs)
        have ne: "rset s1 \<noteq> []" using keeps(5) miss(1) by blast
        from True assms(2) have g: "getOpts s = no_opts" by (simp add: snap_def)
        have rp: "resp = Some \<lparr>hdr_rev = r', kvs = opt_list (V r' (hd keys))\<rparr>"
          using miss(5) g by (simp add: entry_def no_opts_def)
        with r True have s': "s' = s1\<lparr>getOpts := \<lparr>at_rev = Some r', local_read = True\<rparr>\<rparr>" by simp
        have "\<exists>h. x = Some \<lparr>hdr_rev = h, kvs = opt_list (V r' k)\<rparr>" if "mget rs k = Some x" for k x
          using that miss(3) True g by (auto simp: entry_def no_opts_def split: if_splits)
        with s' ne keeps iso pre miss(6) show ?thesis by (simp add: snap_def)
      qed
    qed
    with same keeps(5) show ?thesis by auto
  qed
qed

lemma snap_Rev:
  assumes etcd: "etcd_ok V revs txn" and "snap V s" and "STM_Rev txn k s = Done (r, s')"
    and "mget (wset s) k = None \<or> rset s \<noteq> []"
  shows "snap V s' \<and> wset s' = wset s \<and> rset s' \<noteq> []"
proof -
  have "serializable (iso s)" using assms(2) by (simp add: snap_def)
  then obtain v s1 resp where g: "STM_Get txn [k] s = Done (v, s1)" and f: "stm_fetch txn [k] s1 = Done (resp, s')"
    using assms(3) by (auto simp: STM_Rev_def STM_Get_def ser_Rev_def stm_Rev_def)
  from snap_Get [OF etcd assms(2) g] assms(4) have s1: "snap V s1" "wset s1 = wset s" "rset s1 \<noteq> []"
    by (auto simp: ws_get_def)
  with snap_fetch [OF etcd s1(1,3) f] fetch_keeps(4,5) [OF etcd f] show ?thesis by simp
qed

text \<open>What the condition keeps track of along an attempt.\<close>

definition snapped :: "history \<Rightarrow> string set \<Rightarrow> bool \<Rightarrow> stm \<Rightarrow> bool" where
  "snapped V W rd s \<longleftrightarrow> snap V s \<and> (\<forall>k. mget (wset s) k \<noteq> None \<longrightarrow> k \<in> W) \<and> (rd \<longrightarrow> rset s \<noteq> [])"

lemma snap_run:
  assumes etcd: "etcd_ok V revs txn"
  shows "apply_prog txn p s = Done (e, s') \<Longrightarrow> snapped V W rd s \<Longrightarrow> rev_safe p W rd \<Longrightarrow> snap V s'"
  unfolding apply_prog_def
proof (induction p arbitrary: s W rd)
  case (Get keys f)
  then obtain v s1 where g: "STM_Get txn keys s = Done (v, s1)"
    and r: "run_prog (STM_Get txn) (STM_Rev txn) (f v) s1 = Done (e, s')" by auto
  have "ws_get (wset s) keys = None" if "set keys \<inter> W = {}"
    using that Get.prems(2) by (auto simp: ws_get_def first_in_None snapped_def)
  with snap_Get [OF etcd _ g] Get.prems(2)
  have "snapped V W (rd \<or> (keys \<noteq> [] \<and> set keys \<inter> W = {})) s1" by (auto simp: snapped_def)
  with Get.IH [OF rangeI r] Get.prems(3) show ?case by simp
next
  case (Rev k f)
  then obtain i s1 where g: "STM_Rev txn k s = Done (i, s1)"
    and r: "run_prog (STM_Get txn) (STM_Rev txn) (f i) s1 = Done (e, s')" by auto
  have "mget (wset s) k = None \<or> rset s \<noteq> []" using Rev.prems(2,3) by (auto simp: snapped_def)
  with snap_Rev [OF etcd _ g] Rev.prems(2) have "snapped V W True s1" by (auto simp: snapped_def)
  with Rev.IH [OF rangeI r] Rev.prems(3) show ?case by simp
next
  case (Put k v opts p)
  have "snapped V (insert k W) rd (stm_Put k v opts s)"
    using Put.prems(2) by (auto simp: snapped_def snap_def stm_Put_def am.get_put split: if_splits)
  with Put.IH Put.prems(1,3) show ?case by simp
next
  case (Del k p)
  have "snapped V (insert k W) rd (stm_Del k s)"
    using Del.prems(2) by (auto simp: snapped_def snap_def stm_Del_def am.get_put split: if_splits)
  with Del.IH Del.prems(1,3) show ?case by simp
qed (simp add: snapped_def)

text \<open>
  C28 (safety).  At the levels SerializableSnapshot and Serializable, a function sees one single
  revision of the store in its first attempt, through \<^verbatim>\<open>Get\<close> and \<^verbatim>\<open>Rev\<close> and besides its own writes, whether the attempt
  commits, is refused or returns an error; provided that it does not ask for the \<^verbatim>\<open>Rev\<close> of a key it
  has itself written before it has read anything from the store.  That condition is needed:
  \<open>Serializable_reads_two_revisions\<close>.
\<close>

theorem first_attempt_snapshot:
  assumes "etcd_ok V revs txn" and "serializable lvl" and "rev_safe p {} False"
    and "apply_prog txn p (reset (mkSTM lvl)) = Done (e, s)"
  shows "\<exists>R. serial (V R) [] p e (wset s)"
proof -
  have "snapped V {} False (reset (mkSTM lvl))"
    using assms(2) by (cases lvl) (simp_all add: snapped_def snap_def reset_def mkSTM_def)
  from snap_run [OF assms(1,4) this assms(3)] obtain R where
    "\<forall>k x. mget (rset s) k = Some x \<longrightarrow> (\<exists>h. x = Some \<lparr>hdr_rev = h, kvs = opt_list (V R k)\<rparr>)"
    by (auto simp: snap_def)
  then have "mget (rset s) k = Some x \<Longrightarrow>
      respToValue x = view_value (V R k) \<and> resp_rev x = rev_of mod_rev (V R k)" for k x
    by (metis respToValue_entry resp_rev_entry)
  from dyn.run_serial [of txn p _ e s lvl V revs, OF assms(4) [unfolded apply_prog_def] _ this]
  have "serial (V R) (wset (reset (mkSTM lvl))) p e (wset s)"
    using fresh_ok [OF assms(1)] by (simp add: mkSTM_def reset_def)
  then show ?thesis by (auto simp: reset_def)
qed

text \<open>A first attempt that reads, writes, and asks for the \<^verbatim>\<open>Rev\<close> of what it has written.\<close>

definition ex_rev_prog :: "string list prog" where
  "ex_rev_prog = Get [''a''] (\<lambda>x. Put ''b'' x [] (Rev ''b'' (\<lambda>r. Rev ''a'' (\<lambda>q.
     Get [''b''] (\<lambda>y. Return (Some [x, y, if r = 0 \<and> q = 1 then ''old'' else ''new'']))))))"

lemma first_attempt_snapshot_witness:
  "\<exists>R s. serial (ex_hist R) [] ex_rev_prog (Some [''1'', ''1'', ''old'']) (wset s) \<and>
    apply_prog (history_txn [] ex_hist ex_revs) ex_rev_prog (reset (mkSTM Serializable)) =
      Done (Some [''1'', ''1'', ''old''], s)"
proof -
  let ?txn = "history_txn [] ex_hist ex_revs"
  let ?s = "res_state (apply_prog ?txn ex_rev_prog (reset (mkSTM Serializable)))"
  have 1: "apply_prog ?txn ex_rev_prog (reset (mkSTM Serializable)) = Done (Some [''1'', ''1'', ''old''], ?s)"
    by code_simp
  have 2: "serializable Serializable" "rev_safe ex_rev_prog {} False" by (simp_all add: ex_rev_prog_def)
  from first_attempt_snapshot [OF history_txn_ok [OF ex_hist_ok] 2 1] 1 show ?thesis by blast
qed

text \<open>
  The comment on the level Serializable, that reads within an attempt return data at the
  revision of the first read, does not hold when the first read is \<^verbatim>\<open>Rev\<close> of a key the attempt
  has written: the revision is not fixed, and two later reads see a pair of values that no
  revision of the store ever held.
\<close>

theorem Serializable_reads_two_revisions:
  "\<exists>s x y. apply_prog (history_txn [] ex_hist (\<lambda>n. if n \<le> 1 then 2 else 3))
      (Put ''w'' ''0'' [] (Rev ''w'' (\<lambda>_. Get [''a''] (\<lambda>x. Get [''b''] (\<lambda>y. Return (Some [x, y]))))))
      (reset (mkSTM Serializable)) = Done (Some [x, y], s) \<and>
    (\<nexists>r. view_value (ex_hist r ''a'') = x \<and> view_value (ex_hist r ''b'') = y)"
proof -
  let ?r = "apply_prog (history_txn [] ex_hist (\<lambda>n. if n \<le> 1 then 2 else 3))
      (Put ''w'' ''0'' [] (Rev ''w'' (\<lambda>_. Get [''a''] (\<lambda>x. Get [''b''] (\<lambda>y. Return (Some [x, y]))))))
      (reset (mkSTM Serializable))"
  have "?r = Done (Some [''1'', ''2''], res_state ?r)" by code_simp
  moreover have "\<nexists>r. view_value (ex_hist r ''a'') = ''1'' \<and> view_value (ex_hist r ''b'') = ''2''"
    by (auto simp: ex_hist_def view_value_def)
  ultimately show ?thesis by blast
qed

section \<open>Without interference\<close>

text \<open>The server answers every request that does not read the future.\<close>

definition served :: "int \<Rightarrow> 'err txn \<Rightarrow> bool" where
  "served R txn \<longleftrightarrow> (\<forall>i cmps thens elses.
     (\<forall>p \<in> set (thens @ elses). not_future R p) \<longrightarrow> (\<exists>resp. txn i cmps thens elses = Inl resp))"

primrec gets_keys :: "'err prog \<Rightarrow> bool" where
  "gets_keys (Return e) = True"
| "gets_keys (Get keys f) = (keys \<noteq> [] \<and> (\<forall>v. gets_keys (f v)))"
| "gets_keys (Put k v opts p) = gets_keys p"
| "gets_keys (Del k p) = gets_keys p"
| "gets_keys (Rev k f) = (\<forall>r. gets_keys (f r))"

text \<open>While the store stays at revision \<open>R\<close>, everything read is as of \<open>R\<close>.\<close>

definition quiet :: "history \<Rightarrow> int \<Rightarrow> stm \<Rightarrow> bool" where
  "quiet V R s \<longleftrightarrow> serializable (iso s) \<and> (\<forall>p \<in> set (ws_puts (wset s)). not_future R p) \<and> prefetch s = [] \<and> gomap_ok (rset s) \<and>
     getOpts s \<in> {no_opts, \<lparr>at_rev = Some R, local_read = True\<rparr>} \<and>
     (\<forall>k x. mget (rset s) k = Some x \<longrightarrow> x = Some \<lparr>hdr_rev = R, kvs = opt_list (V R k)\<rparr>)"

lemma rs_add_total: "length xs = length keys \<Longrightarrow> \<exists>rs'. rs_add keys xs rs = Done rs'"
  by (induction keys xs rs rule: rs_add.induct) auto

lemma quiet_fetch:
  fixes txn :: "'err txn"
  assumes etcd: "etcd_ok V (\<lambda>_. R) txn" and "served R txn" and quiet: "quiet V R s" and "keys \<noteq> []"
  obtains resp s' where "stm_fetch txn keys s = Done (Some resp, s')" and "hdr_rev resp = R" and "quiet V R s'"
proof -
  have "\<exists>resp s'. stm_fetch txn keys s = Done (resp, s')"
  proof (cases "first_in (rset s) keys")
    case None
    have "\<forall>p \<in> set (map (\<lambda>k. OpGet k (getOpts s)) keys @ []). not_future R p"
      using quiet by (auto simp: quiet_def no_opts_def)
    with assms(2) obtain tr where tr: "txn (rpcs s) [] (map (\<lambda>k. OpGet k (getOpts s)) keys) [] = Inl tr"
      unfolding served_def by blast
    have "length (responses tr) = length keys" using etcd_okD [OF etcd tr] by (auto split: if_splits)
    moreover from this rs_add_total obtain rs where
      "rs_add keys (responses tr) (rset s) = (Done rs :: (readSet, 'err) res)" by blast
    ultimately show ?thesis using assms(4) None tr
      by (cases "responses tr") (simp_all add: stm_fetch_def)
  qed (use assms(4) in \<open>auto simp: stm_fetch_def\<close>)
  then obtain resp s' where f: "stm_fetch txn keys s = Done (resp, s')" by blast
  from etcd f have "quiet V R s' \<and> (\<exists>k. resp = Some \<lparr>hdr_rev = R, kvs = opt_list (V R k)\<rparr>)"
  proof (cases rule: stm_fetch_cases)
    case hit
    with quiet show ?thesis unfolding quiet_def by (metis first_in_Some)
  next
    case (miss r rs)
    have "r = R" using miss(7-9) quiet by (auto simp: quiet_def no_opts_def)
    then have new: "entry V (getOpts s) r k = Some \<lparr>hdr_rev = R, kvs = opt_list (V R k)\<rparr>" for k
      using quiet by (auto simp: quiet_def entry_def no_opts_def)
    have "\<forall>k x. mget rs k = Some x \<longrightarrow> x = Some \<lparr>hdr_rev = R, kvs = opt_list (V R k)\<rparr>"
      using miss(3) new quiet unfolding quiet_def by (metis option.inject)
    with miss(4,6) quiet have "quiet V R s'" by (simp add: quiet_def)
    with miss(5) new show ?thesis by blast
  qed (use assms(4) in simp)
  with f that show ?thesis by auto
qed

lemma quiet_put: "quiet V R s \<Longrightarrow> not_future R (put_op p) \<Longrightarrow> quiet V R (s\<lparr>wset := mput k p (wset s)\<rparr>)"
  by (auto simp: quiet_def ws_puts_def dest!: mput_memD)

lemma quiet_Get:
  assumes "etcd_ok V (\<lambda>_. R) txn" and "served R txn" and "quiet V R s" and "keys \<noteq> []"
  obtains v s' where "STM_Get txn keys s = Done (v, s')" and "quiet V R s'"
proof (cases "ws_get (wset s) keys")
  case (Some p)
  with assms(3) show ?thesis by (intro that [of "put_val p" s]) (simp_all add: STM_Get_def ser_Get_def quiet_def)
next
  case None
  obtain resp s1 where f: "stm_fetch txn keys s = Done (Some resp, s1)" "hdr_rev resp = R" "quiet V R s1"
    using assms by (rule quiet_fetch)
  have pre: "take_prefetched keys s = s" "serializable (iso s)"
    using assms(3) by (simp_all add: quiet_def take_prefetched_Nil)
  define s' where "s' = (if rset s = [] then s1\<lparr>getOpts := \<lparr>at_rev = Some R, local_read = True\<rparr>\<rparr> else s1)"
  have "STM_Get txn keys s = Done (respToValue (Some resp), s')"
    using None f pre by (simp add: STM_Get_def ser_Get_def s'_def)
  moreover have "quiet V R s'" using f(3) by (simp add: s'_def quiet_def)
  ultimately show ?thesis by (rule that)
qed

lemma quiet_Rev:
  assumes "etcd_ok V (\<lambda>_. R) txn" and "served R txn" and "quiet V R s"
  obtains r s' where "STM_Rev txn k s = Done (r, s')" and "quiet V R s'"
proof -
  obtain v s1 where g: "STM_Get txn [k] s = Done (v, s1)" "quiet V R s1"
    using assms by (rule quiet_Get [of V R txn s "[k]"]) simp
  obtain resp s2 where f: "stm_fetch txn [k] s1 = Done (Some resp, s2)" "quiet V R s2"
    using assms(1,2) g(2) by (rule quiet_fetch [of V R txn s1 "[k]"]) simp
  have "serializable (iso s)" using assms(3) by (simp add: quiet_def)
  with g f that show ?thesis by (simp add: STM_Rev_def STM_Get_def ser_Rev_def stm_Rev_def)
qed

lemma quiet_run:
  assumes "etcd_ok V (\<lambda>_. R) txn" and "served R txn"
  shows "quiet V R s \<Longrightarrow> gets_keys p \<Longrightarrow> \<exists>e s'. apply_prog txn p s = Done (e, s') \<and> quiet V R s'"
  unfolding apply_prog_def
proof (induction p arbitrary: s)
  case (Get keys f)
  obtain v s1 where g: "STM_Get txn keys s = Done (v, s1)" "quiet V R s1"
    using Get.prems(2) by (auto intro: quiet_Get [OF assms Get.prems(1)])
  with Get.IH [OF rangeI, of s1 v] Get.prems(2) show ?case by simp
next
  case (Rev k f)
  obtain r s1 where g: "STM_Rev txn k s = Done (r, s1)" "quiet V R s1"
    using quiet_Rev [OF assms Rev.prems(1)] .
  with Rev.IH [OF rangeI, of s1 r] Rev.prems(2) show ?case by simp
qed (simp_all add: stm_Put_def stm_Del_def quiet_put)

lemma conflicts_total:
  assumes "\<forall>kx \<in> set (rset s). snd kx \<noteq> None"
  shows "\<exists>cmps. conflicts s = (Done cmps :: (cmp list, 'err) res)"
proof -
  have "\<forall>kx \<in> set rs. snd kx \<noteq> None \<Longrightarrow> \<exists>cs. rs_cmps rs = (Done cs :: (cmp list, 'err) res)" for rs
    by (induction rs) (auto simp: isKeyCurrent_eq)
  with assms obtain cs where cs: "rs_cmps (rset s) = (Done cs :: (cmp list, 'err) res)" by blast
  have "\<forall>kx \<in> set rs. snd kx \<noteq> None \<Longrightarrow> \<exists>m. rs_first rs = (Done m :: (int, 'err) res)" for rs
    by (induction rs) auto
  with assms obtain m where m: "rs_first (rset s) = (Done m :: (int, 'err) res)" by blast
  from cs m show ?thesis by (cases "iso s") (simp_all add: conflicts_def)
qed

lemma quiet_commit:
  fixes txn :: "'err txn"
  assumes etcd: "etcd_ok V (\<lambda>_. R) txn" and "served R txn" and "quiet V R s" and R: "0 \<le> R" "R < 2 ^ 63 - 1"
  obtains resp s' where "STM_commit txn s = Done (Some resp, s')"
proof -
  have hist: "history_ok V" using etcd by (simp add: etcd_ok_def)
  have entries: "x = Some \<lparr>hdr_rev = R, kvs = opt_list (V R k)\<rparr>" if "(k, x) \<in> set (rset s)" for k x
    using assms(3) that by (simp add: quiet_def)
  obtain cmps where c: "conflicts s = (Done cmps :: (cmp list, 'err) res)"
    using conflicts_total [of s] entries by fastforce
  have le: "rev_of mod_rev (V R k) \<le> R" for k
    using hist R(1) by (auto simp: history_ok_def rev_of_def split: option.splits)
  have gen: "genuine V (rset s)" using assms(3) unfolding quiet_def genuine_def by blast
  have "reads_current (V R) s" using entries unfolding reads_current_def
    by (metis map_of_SomeD resp_rev_entry)
  moreover have "writes_fresh (V R) s" using entries le unfolding writes_fresh_def
    by (metis getresp.select_convs(1) map_of_SomeD option.inject)
  moreover have "\<forall>k. rev_of mod_rev (V R k) < 2 ^ 63 - 1" using le R(2) by (blast intro: le_less_trans)
  ultimately have holds: "\<forall>c \<in> set cmps. cmp_holds (V R) c" using conflicts_hold [OF c gen] by blast
  have "\<forall>p \<in> set (ws_puts (wset s) @ snd (gets s)). not_future R p \<or> p \<in> set (ws_puts (wset s))"
    by (auto simp: gets_def no_opts_def)
  moreover have "\<forall>p \<in> set (ws_puts (wset s)). not_future R p"
    using assms(3) unfolding quiet_def by blast
  ultimately obtain resp where t: "txn (rpcs s) cmps (ws_puts (wset s)) (snd (gets s)) = Inl resp"
    using assms(2) unfolding served_def by blast
  have "succeeded resp" using etcd_okD(1) [OF etcd t] holds by simp
  with c t assms(3) that show ?thesis by (simp add: STM_commit_def ser_commit_alt quiet_def)
qed

text \<open>
  C35 (termination).  Nothing retries for ever by itself: while the store does not change and the server
  answers, one attempt of a function whose \<^verbatim>\<open>Get\<close>s name at least one key is enough at the levels
  SerializableSnapshot and Serializable.  It commits, or it ends with the error its function returned.
\<close>

theorem stm_first_attempt_commits:
  assumes "etcd_ok V (\<lambda>_. R) txn" and "served R txn" and "0 \<le> R" and "R < 2 ^ 63 - 1"
    and "serializable lvl" and "gets_keys p"
  shows "\<exists>e s. apply_prog txn p (reset (mkSTM lvl)) = Done (e, s) \<and>
    (case e of
       Some err \<Rightarrow> runSTM txn 1 p (mkSTM lvl) = Some (Failed err)
     | None \<Rightarrow> (\<exists>resp. runSTM txn 1 p (mkSTM lvl) = Some (Committed resp)))"
proof -
  have "quiet V R (reset (mkSTM lvl))"
    using assms(5) by (cases lvl) (simp_all add: quiet_def reset_def mkSTM_def ws_puts_def)
  from quiet_run [OF assms(1,2) this assms(6)] obtain e s where
    run: "apply_prog txn p (reset (mkSTM lvl)) = Done (e, s)" and q: "quiet V R s" by blast
  show ?thesis
  proof (cases e)
    case None
    obtain resp s' where "STM_commit txn s = Done (Some resp, s')"
      using assms(1,2) q assms(3,4) by (rule quiet_commit)
    with run None show ?thesis by (simp add: stm_round_def)
  next
    case (Some err)
    with run show ?thesis by (simp add: stm_round_def)
  qed
qed

lemma history_txn_served: "served R (history_txn err V (\<lambda>_. R))"
  by (auto simp: served_def history_txn_def Let_def list_all_iff)

lemma stm_first_attempt_commits_witness:
  "\<exists>e s. apply_prog (history_txn ''future'' ex_hist (\<lambda>_. 2)) ex_copy (reset (mkSTM Serializable)) = Done (e, s) \<and>
    (case e of
       Some err \<Rightarrow> runSTM (history_txn ''future'' ex_hist (\<lambda>_. 2)) 1 ex_copy (mkSTM Serializable) = Some (Failed err)
     | None \<Rightarrow> (\<exists>resp. runSTM (history_txn ''future'' ex_hist (\<lambda>_. 2)) 1 ex_copy (mkSTM Serializable) =
         Some (Committed resp)))"
  using stm_first_attempt_commits [OF history_txn_ok [OF ex_hist_ok] history_txn_served, of 2 Serializable ex_copy]
  by (simp add: ex_copy_def)

text \<open>
  The first read of a serializable attempt must name a key: \<^verbatim>\<open>Get\<close> without one
  dereferences a nil response, which is not an error of the transaction but a crash.
\<close>

theorem empty_first_Get_crashes:
  "serializable lvl \<Longrightarrow> STM_Get txn [] (reset (mkSTM lvl)) = Crash NilDeref"
  by (cases lvl) (simp_all add: STM_Get_def ser_Get_def reset_def mkSTM_def ws_get_def stm_fetch_def)

lemma empty_first_Get_crashes_witness:
  "STM_Get (history_txn ''future'' ex_hist ex_revs) [] (reset (mkSTM Serializable)) = Crash NilDeref"
  by (rule empty_first_Get_crashes) simp

end
