(* ===== verification/EtcdKeys.thy ===== *)
theory EtcdKeys
  imports Etcd
begin

text \<open>
  \<^verbatim>\<open>grpclient/concurrency/key.go\<close>, the waiting that Mutex and Election share, over the
  requests they make of the etcd client.  The client is a parameter, \<open>etcd\<close>; what etcd
  documents of it is the hypothesis \<open>server_ok\<close>.
\<close>

section \<open>The client\<close>

text \<open>
  Every call is numbered by the counter its caller passes on: the store changes between
  calls.  \<open>e_get\<close> is a range read over a prefix that returns the key created first, or the
  key created last among those created no later than a revision; \<open>e_watch\<close> is the stream of
  events of one key from a revision on, \<open>e_watch_prefix\<close> of all keys under a prefix; \<open>e_ctx\<close> the error of the caller's context.
\<close>

datatype getreq = FirstCreate string | LastCreate string int

datatype event = PutEvent kv | DeleteEvent

record 'err watchresp =
  wr_hdr :: int
  events :: "event list"
  wr_err :: "'err option"

text \<open>The responses the watcher gets, and whether the channel is closed after them.\<close>

record 'err watchchan =
  wresps :: "'err watchresp list"
  wclosed :: bool

record 'err etcd =
  e_txn :: "'err txn"
  e_get :: "nat \<Rightarrow> getreq \<Rightarrow> getresp + 'err"
  e_delete :: "nat \<Rightarrow> string \<Rightarrow> int + 'err"
  e_watch :: "nat \<Rightarrow> string \<Rightarrow> int \<Rightarrow> 'err watchchan"
  e_watch_prefix :: "nat \<Rightarrow> string \<Rightarrow> int \<Rightarrow> 'err watchchan"
  e_ctx :: "nat \<Rightarrow> 'err option"

text \<open>\<^verbatim>\<open>Responses[i].GetResponseRange().Kvs\<close>.\<close>

definition resp_kvs :: "txnresp \<Rightarrow> nat \<Rightarrow> kv list outcome" where
  "resp_kvs resp i =
     (if i < length (responses resp)
      then case responses resp ! i of None \<Rightarrow> Panic NilDeref | Some g \<Rightarrow> Ret (kvs g)
      else Panic IndexOutOfRange)"

definition first_kv :: "kv list \<Rightarrow> kv outcome" where
  "first_kv xs = (case xs of [] \<Rightarrow> Panic IndexOutOfRange | x # _ \<Rightarrow> Ret x)"

section \<open>Waiting for deletions\<close>

datatype 'err wait_error = WaitErr 'err | LostWatcher

text \<open>
  The loop over the channel stops at the first DELETE; at the end of the channel \<^verbatim>\<open>wr\<close> is the
  last response.  A channel that stays open leaves the call waiting.
\<close>

fun watch_loop :: "'err watchresp list \<Rightarrow> 'err option \<Rightarrow> bool \<times> 'err option" where
  "watch_loop [] werr = (False, werr)"
| "watch_loop (wr # wrs) werr =
     (if DeleteEvent \<in> set (events wr) then (True, None) else watch_loop wrs (wr_err wr))"

definition waitDelete :: "'err etcd \<Rightarrow> nat \<Rightarrow> string \<Rightarrow> int \<Rightarrow> 'err wait_error option outcome" where
  "waitDelete c n key rv =
     (let wch = e_watch c n key rv
      in case watch_loop (wresps wch) None of
           (True, _) \<Rightarrow> Ret None
         | (False, werr) \<Rightarrow>
             if \<not> wclosed wch then Blocked
             else Ret (Some (case werr of
                 Some err \<Rightarrow> WaitErr err
               | None \<Rightarrow> (case e_ctx c n of Some err \<Rightarrow> WaitErr err | None \<Rightarrow> LostWatcher))))"

text \<open>
  The loop of \<^verbatim>\<open>waitDeletes\<close> has no bound of its own, so it runs on fuel; running out means
  that it has not returned.  Two calls are made in each round; the counter
  after the last one is returned.
\<close>

fun waitDeletes :: "'err etcd \<Rightarrow> nat \<Rightarrow> nat \<Rightarrow> string \<Rightarrow> int \<Rightarrow>
    (('err wait_error + int) \<times> nat) outcome" where
  "waitDeletes c 0 n pfx maxCreateRev = Blocked"
| "waitDeletes c (Suc fuel) n pfx maxCreateRev =
     (case e_get c n (LastCreate pfx maxCreateRev) of
        Inr err \<Rightarrow> Ret (Inl (WaitErr err), Suc n)
      | Inl resp \<Rightarrow>
          (case kvs resp of
             [] \<Rightarrow> Ret (Inr (hdr_rev resp), Suc n)
           | lastKey # _ \<Rightarrow>
               obind (waitDelete c (Suc n) (kv_key lastKey) (hdr_rev resp)) (\<lambda>err.
                 case err of
                   Some err \<Rightarrow> Ret (Inl err, n + 2)
                 | None \<Rightarrow> waitDeletes c fuel (n + 2) pfx maxCreateRev)))"

section \<open>What etcd documents\<close>

text \<open>
  A key that is seen at a revision was there, as the same creation, at every revision since
  it was created.
\<close>

definition continuous :: "history \<Rightarrow> bool" where
  "continuous V \<longleftrightarrow> (\<forall>r q k x. V r k = Some x \<and> create_rev x \<le> q \<and> q \<le> r \<longrightarrow>
     (\<exists>y. V q k = Some y \<and> create_rev y = create_rev x))"

text \<open>The result of a prefix read that asks for one key, by creation revision.\<close>

definition under :: "view \<Rightarrow> string \<Rightarrow> kv \<Rightarrow> bool" where
  "under W pfx x \<longleftrightarrow> (\<exists>k. W k = Some x \<and> HasPrefix k pfx)"

definition is_first :: "view \<Rightarrow> string \<Rightarrow> kv list \<Rightarrow> bool" where
  "is_first W pfx xs \<longleftrightarrow>
     (xs = [] \<and> (\<forall>x. \<not> under W pfx x)) \<or>
     (\<exists>x. xs = [x] \<and> under W pfx x \<and> (\<forall>y. under W pfx y \<longrightarrow> create_rev x \<le> create_rev y))"

definition is_last :: "view \<Rightarrow> string \<Rightarrow> int \<Rightarrow> kv list \<Rightarrow> bool" where
  "is_last W pfx m xs \<longleftrightarrow>
     (xs = [] \<and> (\<forall>x. under W pfx x \<longrightarrow> m < create_rev x)) \<or>
     (\<exists>x. xs = [x] \<and> under W pfx x \<and> create_rev x \<le> m \<and>
        (\<forall>y. under W pfx y \<and> create_rev y \<le> m \<longrightarrow> create_rev y \<le> create_rev x))"

text \<open>A transaction applies its operations one after the other, at one new revision.\<close>

fun is_write :: "op \<Rightarrow> bool" where
  "is_write (OpPut k v opts) = True"
| "is_write (OpDelete k) = True"
| "is_write _ = False"

fun op_effect :: "int \<Rightarrow> op \<Rightarrow> view \<Rightarrow> view" where
  "op_effect r (OpPut k v opts) W =
     W(k \<mapsto> \<lparr>kv_key = k, kv_value = v, create_rev = (case W k of Some x \<Rightarrow> create_rev x | None \<Rightarrow> r), mod_rev = r\<rparr>)"
| "op_effect r (OpDelete k) W = W(k := None)"
| "op_effect r _ W = W"

fun op_answer :: "int \<Rightarrow> view \<Rightarrow> op \<Rightarrow> getresp option \<Rightarrow> bool" where
  "op_answer r W (OpGet k opts) x \<longleftrightarrow> (opts = no_opts \<longrightarrow> x = Some \<lparr>hdr_rev = r, kvs = opt_list (W k)\<rparr>)"
| "op_answer r W (OpFirst pfx) x \<longleftrightarrow> (\<exists>xs. x = Some \<lparr>hdr_rev = r, kvs = xs\<rparr> \<and> is_first W pfx xs)"
| "op_answer r W _ x \<longleftrightarrow> x = None"

fun ops_run :: "int \<Rightarrow> view \<Rightarrow> op list \<Rightarrow> getresp option list \<Rightarrow> view \<Rightarrow> bool" where
  "ops_run r W [] xs W' \<longleftrightarrow> xs = [] \<and> W' = W"
| "ops_run r W (p # ps) xs W' \<longleftrightarrow>
     (\<exists>x ys. xs = x # ys \<and> op_answer r W p x \<and> ops_run r (op_effect r p W) ps ys W')"

text \<open>
  \<open>revs n\<close> is the revision of the store when call \<open>n\<close> is served; the store only moves on.  A
  watch from a revision reports a deletion only if the key was gone at that revision or later,
  before the caller's next call.
\<close>

definition txn_ok :: "history \<Rightarrow> int \<Rightarrow> int \<Rightarrow> cmp list \<Rightarrow> op list \<Rightarrow> op list \<Rightarrow> txnresp \<Rightarrow> bool" where
  "txn_ok V now next cmps thens elses resp \<longleftrightarrow>
     succeeded resp = (\<forall>p \<in> set cmps. cmp_holds (V now) p) \<and>
     tx_rev resp = (if list_ex is_write (if succeeded resp then thens else elses) then now + 1 else now) \<and>
     tx_rev resp \<le> next \<and>
     ops_run (tx_rev resp) (V now) (if succeeded resp then thens else elses) (responses resp) (V (tx_rev resp))"

fun get_ok :: "history \<Rightarrow> int \<Rightarrow> getreq \<Rightarrow> getresp \<Rightarrow> bool" where
  "get_ok V now (FirstCreate pfx) resp \<longleftrightarrow> hdr_rev resp = now \<and> is_first (V now) pfx (kvs resp)"
| "get_ok V now (LastCreate pfx m) resp \<longleftrightarrow> hdr_rev resp = now \<and> is_last (V now) pfx m (kvs resp)"

definition sees_delete :: "'err watchchan \<Rightarrow> bool" where
  "sees_delete wch \<longleftrightarrow> fst (watch_loop (wresps wch) None)"

definition server_ok :: "history \<Rightarrow> (nat \<Rightarrow> int) \<Rightarrow> 'err etcd \<Rightarrow> bool" where
  "server_ok V revs c \<longleftrightarrow> history_ok V \<and> continuous V \<and> (\<forall>n. revs n \<le> revs (Suc n)) \<and>
     (\<forall>n cmps thens elses resp. e_txn c n cmps thens elses = Inl resp \<longrightarrow>
        txn_ok V (revs n) (revs (Suc n)) cmps thens elses resp) \<and>
     (\<forall>n req resp. e_get c n req = Inl resp \<longrightarrow> get_ok V (revs n) req resp) \<and>
     (\<forall>n key rv. sees_delete (e_watch c n key rv) \<longrightarrow> (\<exists>q. rv \<le> q \<and> q \<le> revs (Suc n) \<and> V q key = None))"

lemma server_okD:
  assumes "server_ok V revs c"
  shows "history_ok V" and "continuous V" and "i \<le> j \<Longrightarrow> revs i \<le> revs j"
    and "e_get c n req = Inl resp \<Longrightarrow> get_ok V (revs n) req resp"
    and "e_txn c n cmps thens elses = Inl tresp \<Longrightarrow> txn_ok V (revs n) (revs (Suc n)) cmps thens elses tresp"
    and "sees_delete (e_watch c n key rv) \<Longrightarrow> \<exists>q. rv \<le> q \<and> q \<le> revs (Suc n) \<and> V q key = None"
  using assms lift_Suc_mono_le [of revs i j] unfolding server_ok_def by simp_all

lemma continuousD:
  "continuous V \<Longrightarrow> V r k = Some x \<Longrightarrow> create_rev x \<le> q \<Longrightarrow> q \<le> r \<Longrightarrow> \<exists>y. V q k = Some y \<and> create_rev y = create_rev x"
  unfolding continuous_def by blast

section \<open>When the wait ends\<close>

lemma waitDeletes_ok:
  assumes "server_ok V revs c"
  shows "waitDeletes c fuel n pfx m = Ret (Inr r, n') \<Longrightarrow>
    n < n' \<and> r \<le> revs n' \<and> revs n \<le> r \<and> (\<forall>x. under (V r) pfx x \<longrightarrow> m < create_rev x)"
proof (induction fuel arbitrary: n)
  case (Suc fuel)
  from Suc.prems obtain resp where g: "e_get c n (LastCreate pfx m) = Inl resp"
    by (cases "e_get c n (LastCreate pfx m)") simp_all
  note get = server_okD(4) [OF assms g]
  show ?case
  proof (cases "kvs resp")
    case Nil
    with Suc.prems g get server_okD(3) [OF assms, of n "Suc n"] show ?thesis by (auto simp: is_last_def)
  next
    case (Cons x xs)
    with Suc.prems g have "waitDeletes c fuel (n + 2) pfx m = Ret (Inr r, n')"
      by (auto split: option.splits)
    from Suc.IH [OF this] server_okD(3) [OF assms, of n "n + 2"] show ?thesis by auto
  qed
qed simp

lemma waitDelete_no_panic [simp]: "waitDelete c n key rv \<noteq> Panic p"
  by (simp add: waitDelete_def Let_def split: prod.split bool.split)

lemma waitDeletes_no_panic: "waitDeletes c fuel n pfx m \<noteq> Panic p"
proof (induction fuel arbitrary: n)
  case (Suc fuel)
  then show ?case
    by (auto split: sum.splits list.splits option.splits simp: obind_Panic)
qed simp

lemma waitDeletes_counts: "waitDeletes c fuel n pfx m = Ret (res, n') \<Longrightarrow> n < n'"
proof (induction fuel arbitrary: n)
  case (Suc fuel)
  from Suc.prems show ?case by (auto split: sum.splits list.splits option.splits dest!: Suc.IH)
qed simp

text \<open>The keys still in the way of a waiter.\<close>

definition waited :: "view \<Rightarrow> string \<Rightarrow> int \<Rightarrow> string set" where
  "waited W pfx m = {k. \<exists>x. W k = Some x \<and> HasPrefix k pfx \<and> create_rev x \<le> m}"

lemma waited_mono:
  assumes "continuous V" and "m \<le> r" and "r \<le> q"
  shows "waited (V q) pfx m \<subseteq> waited (V r) pfx m"
proof
  fix k
  assume "k \<in> waited (V q) pfx m"
  then obtain x where x: "V q k = Some x" "HasPrefix k pfx" "create_rev x \<le> m" by (auto simp: waited_def)
  with continuousD [OF assms(1) x(1), of r] assms(2,3) show "k \<in> waited (V r) pfx m"
    by (auto simp: waited_def)
qed

lemma is_last_waited:
  assumes "history_ok V" and "is_last (V r) pfx m (x # xs)"
  shows "kv_key x \<in> waited (V r) pfx m"
  using assms unfolding is_last_def under_def waited_def history_ok_def by fastforce

text \<open>
  Round \<open>k\<close> of a wait that starts with call \<open>n\<close> makes the calls \<open>n + 2 * k\<close> and \<open>n + 2 * k + 1\<close>.
  The wait is served when the read of each round is answered and the key that it finds, the
  one the round waits for, is deleted after it is watched.  Other keys may come and stay.
\<close>

definition wait_served :: "'err etcd \<Rightarrow> nat \<Rightarrow> string \<Rightarrow> int \<Rightarrow> bool" where
  "wait_served c n pfx m \<longleftrightarrow> (\<forall>k. \<exists>g. e_get c (n + 2 * k) (LastCreate pfx m) = Inl g \<and>
     (\<forall>x xs. kvs g = x # xs \<longrightarrow> sees_delete (e_watch c (n + 2 * k + 1) (kv_key x) (hdr_rev g))))"

lemma wait_servedD:
  assumes "wait_served c n pfx m"
  shows "\<exists>g. e_get c n (LastCreate pfx m) = Inl g \<and>
      (\<forall>x xs. kvs g = x # xs \<longrightarrow> sees_delete (e_watch c (Suc n) (kv_key x) (hdr_rev g)))"
    and "wait_served c (n + 2) pfx m"
proof -
  note all = assms [unfolded wait_served_def, rule_format]
  show "\<exists>g. e_get c n (LastCreate pfx m) = Inl g \<and>
      (\<forall>x xs. kvs g = x # xs \<longrightarrow> sees_delete (e_watch c (Suc n) (kv_key x) (hdr_rev g)))"
    using all [of 0] by simp
  have "n + 2 + 2 * k = n + 2 * Suc k" for k by simp
  then show "wait_served c (n + 2) pfx m" unfolding wait_served_def using all by metis
qed

text \<open>A key that was deleted after the store had moved past \<open>m\<close> is in nobody's way any more.\<close>

lemma deleted_not_waited:
  assumes "continuous V" and "m \<le> q" and "q \<le> r" and "V q key = None"
  shows "key \<notin> waited (V r) pfx m"
proof
  assume "key \<in> waited (V r) pfx m"
  then obtain y where "V r key = Some y" "create_rev y \<le> m" by (auto simp: waited_def)
  with continuousD [OF assms(1) this(1), of q] assms(2-4) show False by auto
qed

lemma waitDeletes_terminates:
  assumes ok: "server_ok V revs c"
  shows "wait_served c n pfx m \<Longrightarrow> m \<le> revs n \<Longrightarrow> finite (waited (V (revs n)) pfx m) \<Longrightarrow>
    card (waited (V (revs n)) pfx m) < fuel \<Longrightarrow>
    \<exists>r n'. waitDeletes c fuel n pfx m = Ret (Inr r, n') \<and> n' \<le> Suc n + 2 * card (waited (V (revs n)) pfx m)"
proof (induction fuel arbitrary: n)
  case (Suc fuel)
  note cont = server_okD(2) [OF ok]
  let ?W = "waited (V (revs n)) pfx m" and ?W' = "waited (V (revs (n + 2))) pfx m"
  obtain g where g: "e_get c n (LastCreate pfx m) = Inl g"
    and del: "\<And>x xs. kvs g = x # xs \<Longrightarrow> sees_delete (e_watch c (Suc n) (kv_key x) (hdr_rev g))"
    using wait_servedD(1) [OF Suc.prems(1)] by blast
  have get: "hdr_rev g = revs n" "is_last (V (revs n)) pfx m (kvs g)" using server_okD(4) [OF ok g] by simp_all
  show ?case
  proof (cases "kvs g")
    case Nil
    with g show ?thesis by simp
  next
    case (Cons x xs)
    let ?k = "kv_key x"
    have k: "?k \<in> ?W" using is_last_waited [OF server_okD(1) [OF ok]] get(2) Cons by metis
    obtain q where q: "revs n \<le> q" "q \<le> revs (n + 2)" "V q ?k = None"
      using server_okD(6) [OF ok del [OF Cons]] get(1) by auto
    have le: "m \<le> q" "m \<le> revs (n + 2)" using Suc.prems(2) q by linarith+
    have ss: "?W' \<subset> ?W"
      using waited_mono [OF cont Suc.prems(2), of "revs (n + 2)" pfx] deleted_not_waited [OF cont le(1) q(2,3)] k q
      by (metis order_trans psubsetI)
    have card: "card ?W' < card ?W" using Suc.prems(3) ss by (rule psubset_card_mono)
    have fin: "finite ?W'" using psubset_imp_subset [OF ss] Suc.prems(3) by (rule finite_subset)
    have "card ?W' < fuel" using card Suc.prems(4) by linarith
    from Suc.IH [OF wait_servedD(2) [OF Suc.prems(1)] le(2) fin this] obtain r n' where
      "waitDeletes c fuel (n + 2) pfx m = Ret (Inr r, n')" "n' \<le> Suc (n + 2) + 2 * card ?W'" by blast
    moreover have "waitDelete c (Suc n) ?k (hdr_rev g) = Ret None"
      using del [OF Cons] by (auto simp: waitDelete_def sees_delete_def Let_def split: prod.splits bool.splits)
    ultimately show ?thesis using g Cons card by simp
  qed
qed simp

section \<open>Exclusion\<close>

text \<open>A key in the store, with its creation revision.\<close>

definition held :: "view \<Rightarrow> string \<Rightarrow> int \<Rightarrow> bool" where
  "held W key cr \<longleftrightarrow> (\<exists>x. W key = Some x \<and> create_rev x = cr)"


text \<open>
  No two keys under the prefix are created by the same transaction, as long as only mutexes
  and elections write there.
\<close>

definition one_per_rev :: "history \<Rightarrow> string \<Rightarrow> bool" where
  "one_per_rev V pfx \<longleftrightarrow> (\<forall>r k k' x x'. V r k = Some x \<and> V r k' = Some x' \<and> HasPrefix k pfx \<and> HasPrefix k' pfx \<and>
     create_rev x = create_rev x' \<longrightarrow> k = k')"

text \<open>A claim on the prefix: at some revision no key under it was created before \<open>cr\<close>.\<close>

definition claimed :: "history \<Rightarrow> string \<Rightarrow> int \<Rightarrow> int \<Rightarrow> bool" where
  "claimed V pfx r cr \<longleftrightarrow> cr \<le> r \<and> (\<forall>x. under (V r) pfx x \<longrightarrow> cr \<le> create_rev x)"

text \<open>A claim is never lost to a newcomer.\<close>

lemma claimed_later:
  assumes "continuous V" and "claimed V pfx r cr" and "r \<le> q"
  shows "claimed V pfx q cr"
proof -
  have "cr \<le> create_rev x" if u: "under (V q) pfx x" for x
  proof (rule ccontr)
    assume "\<not> cr \<le> create_rev x"
    with assms(2) have "create_rev x \<le> r" by (simp add: claimed_def)
    moreover obtain k where "V q k = Some x" "HasPrefix k pfx" using u by (auto simp: under_def)
    ultimately obtain y where "V r k = Some y" "create_rev y = create_rev x" "HasPrefix k pfx"
      using continuousD [OF assms(1)] assms(3) by blast
    with assms(2) \<open>\<not> cr \<le> create_rev x\<close> show False by (auto simp: claimed_def under_def)
  qed
  with assms(2,3) show ?thesis by (simp add: claimed_def)
qed

lemma claims_exclude:
  assumes "continuous V" and "one_per_rev V pfx"
    and "claimed V pfx ra ca" "ra \<le> r" "V r ka = Some xa" "create_rev xa = ca" "HasPrefix ka pfx"
    and "claimed V pfx rb cb" "rb \<le> r" "V r kb = Some xb" "create_rev xb = cb" "HasPrefix kb pfx"
  shows "ka = kb \<and> ca = cb"
proof -
  have "ca \<le> cb" if "claimed V pfx ra ca" "ra \<le> r" "V r k = Some x" "create_rev x = cb" "HasPrefix k pfx"
    for ra ca cb k x
  proof (rule ccontr)
    assume "\<not> ca \<le> cb"
    with \<open>claimed V pfx ra ca\<close> have "create_rev x \<le> ra" using \<open>create_rev x = cb\<close> by (simp add: claimed_def)
    from continuousD [OF assms(1) \<open>V r k = Some x\<close> this \<open>ra \<le> r\<close>] obtain y where "V ra k = Some y" "create_rev y = cb"
      using \<open>create_rev x = cb\<close> by auto
    with \<open>claimed V pfx ra ca\<close> \<open>HasPrefix k pfx\<close> \<open>\<not> ca \<le> cb\<close> show False by (auto simp: claimed_def under_def)
  qed
  from this [OF assms(3,4,10-12)] this [OF assms(8,9,5-7)] have "ca = cb" by linarith
  with assms(2,5-7,10-12) show ?thesis unfolding one_per_rev_def by blast
qed

section \<open>A concrete client\<close>

text \<open>Range reads on a history whose keys are known, for the examples.\<close>

definition candidates :: "string list \<Rightarrow> view \<Rightarrow> string \<Rightarrow> kv list" where
  "candidates ks W pfx = concat (map (\<lambda>k. if HasPrefix k pfx then opt_list (W k) else []) ks)"

definition first_of :: "string list \<Rightarrow> view \<Rightarrow> string \<Rightarrow> kv list" where
  "first_of ks W pfx = take 1 (sort_key create_rev (candidates ks W pfx))"

definition last_of :: "string list \<Rightarrow> view \<Rightarrow> string \<Rightarrow> int \<Rightarrow> kv list" where
  "last_of ks W pfx m =
     take 1 (List.rev (sort_key create_rev (filter (\<lambda>x. create_rev x \<le> m) (candidates ks W pfx))))"

fun range_get :: "string list \<Rightarrow> history \<Rightarrow> int \<Rightarrow> getreq \<Rightarrow> getresp" where
  "range_get ks V r (FirstCreate pfx) = \<lparr>hdr_rev = r, kvs = first_of ks (V r) pfx\<rparr>"
| "range_get ks V r (LastCreate pfx m) = \<lparr>hdr_rev = r, kvs = last_of ks (V r) pfx m\<rparr>"

lemma candidates_under: "dom W \<subseteq> set ks \<Longrightarrow> x \<in> set (candidates ks W pfx) \<longleftrightarrow> under W pfx x"
  by (auto simp: candidates_def under_def opt_list_def subset_iff split: option.splits if_splits) force+

lemma sorted_hd: "sorted (map f xs) \<Longrightarrow> xs = x # ys \<Longrightarrow> y \<in> set xs \<Longrightarrow> f x \<le> f y"
  by auto

lemma first_of_ok:
  assumes "dom W \<subseteq> set ks"
  shows "is_first W pfx (first_of ks W pfx)"
proof -
  let ?xs = "sort_key create_rev (candidates ks W pfx)"
  have mem: "x \<in> set ?xs \<longleftrightarrow> under W pfx x" for x using candidates_under [OF assms] by simp
  show ?thesis
  proof (cases ?xs)
    case Nil
    with mem show ?thesis by (auto simp: is_first_def first_of_def)
  next
    case (Cons x xs)
    have "create_rev x \<le> create_rev y" if "y \<in> set ?xs" for y
      using sorted_hd [OF sorted_sort_key Cons that] .
    with mem Cons show ?thesis by (auto simp: is_first_def first_of_def)
  qed
qed

lemma last_of_ok:
  assumes "dom W \<subseteq> set ks"
  shows "is_last W pfx m (last_of ks W pfx m)"
proof -
  let ?xs = "List.rev (sort_key create_rev (filter (\<lambda>x. create_rev x \<le> m) (candidates ks W pfx)))"
  have mem: "x \<in> set ?xs \<longleftrightarrow> under W pfx x \<and> create_rev x \<le> m" for x using candidates_under [OF assms] by simp
  show ?thesis
  proof (cases ?xs)
    case Nil
    with mem show ?thesis by (force simp: is_last_def last_of_def)
  next
    case (Cons x xs)
    then have "sort_key create_rev (filter (\<lambda>x. create_rev x \<le> m) (candidates ks W pfx)) = List.rev xs @ [x]"
      by (metis rev.simps(2) rev_rev_ident)
    then have "sorted (map create_rev (List.rev xs @ [x]))" by (metis sorted_sort_key)
    then have "create_rev y \<le> create_rev x" if "y \<in> set ?xs" for y
      using that Cons by (auto simp: sorted_append)
    with mem Cons show ?thesis by (fastforce simp: is_last_def last_of_def)
  qed
qed

lemma range_get_ok: "dom (V r) \<subseteq> set ks \<Longrightarrow> get_ok V r req (range_get ks V r req)"
  by (cases req) (simp_all add: first_of_ok last_of_ok)

text \<open>
  Three sessions, leases 1, 3 and 2, on the prefix \<^verbatim>\<open>l/\<close>: the key of lease 1 is there from
  revision 1 until 5, the key of lease 3 from 2 until 4, and the key of lease 2 is created at
  revision 3 by call 0.  A waiter for what is older than it waits for lease 3 first, then for
  lease 1.
\<close>

definition queue_key :: "string \<Rightarrow> int \<Rightarrow> kv" where
  "queue_key k r = \<lparr>kv_key = k, kv_value = '''', create_rev = r, mod_rev = r\<rparr>"

definition queue_hist :: history where
  "queue_hist r k =
     (if k = ''l/1'' \<and> 1 \<le> r \<and> r < 5 then Some (queue_key k 1)
      else if k = ''l/3'' \<and> 2 \<le> r \<and> r < 4 then Some (queue_key k 2)
      else if k = ''l/2'' \<and> 3 \<le> r then Some (queue_key k 3)
      else None)"

definition queue_revs :: "nat \<Rightarrow> int" where
  "queue_revs n = (if n = 0 then 2 else if n \<le> 2 then 3 else if n \<le> 4 then 4 else 5)"

definition queue_etcd :: "string etcd" where
  "queue_etcd = \<lparr>
     e_txn = (\<lambda>n cmps thens elses.
       if n = 0 \<and> cmps = [CreateEq ''l/2'' 0] \<and> thens = [OpPut ''l/2'' '''' [WithLease 2], OpFirst ''l/'']
       then Inl \<lparr>succeeded = True, tx_rev = 3, responses = [None, Some \<lparr>hdr_rev = 3, kvs = [queue_key ''l/1'' 1]\<rparr>]\<rparr>
       else if n = 0 \<and> cmps = [CreateEq ''l/2'' 0] \<and> thens = [OpPut ''l/2'' '''' [WithLease 2]]
       then Inl \<lparr>succeeded = True, tx_rev = 3, responses = [None]\<rparr>
       else Inr ''unavailable''),
     e_get = (\<lambda>n req. Inl (range_get [''l/1'', ''l/2'', ''l/3''] queue_hist (queue_revs n) req)),
     e_delete = (\<lambda>n key. Inr ''unavailable''),
     e_watch = (\<lambda>n key rv. \<lparr>wresps = (if key = ''l/3'' \<and> 2 \<le> n \<and> rv \<le> 4 \<or> key = ''l/1'' \<and> 4 \<le> n \<and> rv \<le> 5
       then [\<lparr>wr_hdr = rv, events = [DeleteEvent], wr_err = None\<rparr>] else []), wclosed = True\<rparr>),
     e_watch_prefix = (\<lambda>n key rv. \<lparr>wresps = [], wclosed = True\<rparr>),
     e_ctx = (\<lambda>n. None)\<rparr>"

lemma queue_hist_Some:
  "queue_hist r k = Some x \<longleftrightarrow>
    k = ''l/1'' \<and> 1 \<le> r \<and> r < 5 \<and> x = queue_key ''l/1'' 1 \<or>
    k = ''l/3'' \<and> 2 \<le> r \<and> r < 4 \<and> x = queue_key ''l/3'' 2 \<or>
    k = ''l/2'' \<and> 3 \<le> r \<and> x = queue_key ''l/2'' 3"
  by (auto simp: queue_hist_def)

lemma queue_hist_ok: "history_ok queue_hist" "continuous queue_hist"
proof -
  show "history_ok queue_hist" unfolding history_ok_def queue_hist_Some queue_key_def
    by (intro conjI allI impI; elim conjE disjE, simp_all)
  show "continuous queue_hist" unfolding continuous_def queue_hist_Some queue_key_def
    by (intro allI impI, elim conjE disjE, simp_all)
qed

lemma queue_hist_dom: "dom (queue_hist r) \<subseteq> set [''l/1'', ''l/2'', ''l/3'']"
  unfolding dom_def by (auto simp: queue_hist_Some)

lemma queue_first: "is_first (queue_hist 3) ''l/'' [queue_key ''l/1'' 1]"
proof -
  have "first_of [''l/1'', ''l/2'', ''l/3''] (queue_hist 3) ''l/'' = [queue_key ''l/1'' 1]" by code_simp
  then show ?thesis using first_of_ok [OF queue_hist_dom, of 3 "''l/''"] by simp
qed

lemma queue_put: "queue_hist 3 = (queue_hist 2)(''l/2'' \<mapsto> queue_key ''l/2'' 3)"
  by (auto simp: queue_hist_def)

lemma queue_etcd_txn:
  assumes "e_txn queue_etcd n cmps thens elses = Inl resp"
  shows "txn_ok queue_hist (queue_revs n) (queue_revs (Suc n)) cmps thens elses resp"
proof -
  let ?own = "OpPut ''l/2'' '''' [WithLease 2]"
  have n: "n = 0" "cmps = [CreateEq ''l/2'' 0]"
    and r: "thens = [?own, OpFirst ''l/''] \<and> resp = \<lparr>succeeded = True, tx_rev = 3,
        responses = [None, Some \<lparr>hdr_rev = 3, kvs = [queue_key ''l/1'' 1]\<rparr>]\<rparr> \<or>
      thens = [?own] \<and> resp = \<lparr>succeeded = True, tx_rev = 3, responses = [None]\<rparr>"
    using assms unfolding queue_etcd_def by (simp_all split: if_splits)
  have none: "queue_hist 2 ''l/2'' = None" by (simp add: queue_hist_def)
  have eff: "op_effect 3 ?own (queue_hist 2) = queue_hist 3"
    using none by (simp add: queue_put queue_key_def)
  have revs: "queue_revs 0 = 2" "queue_revs (Suc 0) = 3" by (simp_all add: queue_revs_def)
  from r show ?thesis
    by (elim disjE conjE)
      (simp_all add: txn_ok_def n revs rev_of_def none eff queue_first del: op_effect.simps,
        simp_all add: queue_first)
qed

lemma queue_etcd_watch:
  assumes "sees_delete (e_watch queue_etcd n key rv)"
  shows "\<exists>q. rv \<le> q \<and> q \<le> queue_revs (Suc n) \<and> queue_hist q key = None"
proof -
  have "key = ''l/3'' \<and> 2 \<le> n \<and> rv \<le> 4 \<or> key = ''l/1'' \<and> 4 \<le> n \<and> rv \<le> 5"
    using assms by (simp only: sees_delete_def queue_etcd_def etcd.simps watchchan.simps)
      (simp split: if_split_asm)
  moreover have "queue_hist 4 ''l/3'' = None" "queue_hist 5 ''l/1'' = None" by (simp_all add: queue_hist_def)
  moreover have "4 \<le> queue_revs (Suc n)" if "2 \<le> n" using that by (simp add: queue_revs_def)
  moreover have "5 \<le> queue_revs (Suc n)" if "4 \<le> n" using that by (simp add: queue_revs_def)
  ultimately show ?thesis by blast
qed

lemma queue_etcd_ok: "server_ok queue_hist queue_revs queue_etcd"
proof -
  have "queue_revs n \<le> queue_revs (Suc n)" for n by (simp add: queue_revs_def)
  moreover have "get_ok queue_hist (queue_revs n) req resp" if "e_get queue_etcd n req = Inl resp" for n req resp
    using that range_get_ok [OF queue_hist_dom, where req = req] by (auto simp: queue_etcd_def)
  ultimately show ?thesis
    using queue_hist_ok queue_etcd_txn queue_etcd_watch unfolding server_ok_def by blast
qed

lemma queue_last:
  "last_of [''l/1'', ''l/2'', ''l/3''] (queue_hist 3) ''l/'' 2 = [queue_key ''l/3'' 2]"
  "last_of [''l/1'', ''l/2'', ''l/3''] (queue_hist 4) ''l/'' 2 = [queue_key ''l/1'' 1]"
  "last_of [''l/1'', ''l/2'', ''l/3''] (queue_hist 5) ''l/'' 2 = []"
  by code_simp+

lemma queue_served: "wait_served queue_etcd 1 ''l/'' 2"
  unfolding wait_served_def
proof
  fix k :: nat
  consider "k = 0" | "k = 1" | "2 \<le> k" by linarith
  then show "\<exists>g. e_get queue_etcd (1 + 2 * k) (LastCreate ''l/'' 2) = Inl g \<and>
      (\<forall>x xs. kvs g = x # xs \<longrightarrow> sees_delete (e_watch queue_etcd (1 + 2 * k + 1) (kv_key x) (hdr_rev g)))"
    by cases (simp_all add: queue_etcd_def queue_revs_def queue_last sees_delete_def queue_key_def)
qed

lemma queue_waited: "waited (queue_hist 3) ''l/'' 2 = {''l/1'', ''l/3''}"
proof
  show "waited (queue_hist 3) ''l/'' 2 \<subseteq> {''l/1'', ''l/3''}"
  proof
    fix k
    assume "k \<in> waited (queue_hist 3) ''l/'' 2"
    then obtain x where "queue_hist 3 k = Some x" "create_rev x \<le> 2" unfolding waited_def by blast
    then have "k = ''l/1'' \<or> k = ''l/3'' \<or> x = queue_key ''l/2'' 3" unfolding queue_hist_Some by blast
    with \<open>create_rev x \<le> 2\<close> show "k \<in> {''l/1'', ''l/3''}" by (elim disjE) (simp_all add: queue_key_def)
  qed
  have "HasPrefix ''l/1'' ''l/''" "HasPrefix ''l/3'' ''l/''" by code_simp+
  moreover have "queue_hist 3 ''l/1'' = Some (queue_key ''l/1'' 1)" "queue_hist 3 ''l/3'' = Some (queue_key ''l/3'' 2)"
    by (simp_all add: queue_hist_def)
  moreover have "create_rev (queue_key k 1) \<le> 2" "create_rev (queue_key k 2) \<le> 2" for k
    by (simp_all add: queue_key_def)
  ultimately show "{''l/1'', ''l/3''} \<subseteq> waited (queue_hist 3) ''l/'' 2" unfolding waited_def by blast
qed

end
