(* ===== verification/StmHistory.thy ===== *)
theory StmHistory
  imports StmReads EtcdKeys
begin

text \<open>
  Many clients that run transactions of \<^verbatim>\<open>stm.go\<close> on one store: the whole history is a serial
  one, each transaction being executed on what the ones before it have left.
\<close>

section \<open>What a commit does to the store\<close>

text \<open>
  etcd documents that a transaction with writes makes exactly one new revision, at which its
  operations have been applied one after the other, and that one without leaves the revision as
  it is.  The revision of its response header is that of the store afterwards.
\<close>

definition applies_writes :: "history \<Rightarrow> (nat \<Rightarrow> int) \<Rightarrow> 'err txn \<Rightarrow> bool" where
  "applies_writes V revs txn \<longleftrightarrow> (\<forall>n cmps thens elses resp.
     txn n cmps thens elses = Inl resp \<and> succeeded resp \<and> (\<forall>p \<in> set thens. is_write p) \<longrightarrow>
       (if thens = [] then tx_rev resp = revs n
        else tx_rev resp = revs n + 1 \<and>
          V (revs n + 1) = fold (op_effect (revs n + 1)) thens (V (revs n))))"

section \<open>Clients\<close>

text \<open>One finished call of \<^verbatim>\<open>NewSTM\<close>: the client's view of the server, its arguments and its result.\<close>

record 'err call =
  c_txn :: "'err txn"
  c_revs :: "nat \<Rightarrow> int"
  c_fuel :: nat
  c_prog :: "'err prog"
  c_opts :: "stmOption list"
  c_resp :: txnresp

definition committed :: "history \<Rightarrow> 'err call \<Rightarrow> bool" where
  "committed V c \<longleftrightarrow> etcd_ok V (c_revs c) (c_txn c) \<and> applies_writes V (c_revs c) (c_txn c) \<and>
     so_iso (stm_options (c_opts c)) \<noteq> ReadCommitted \<and>
     NewSTM (c_txn c) (c_fuel c) (c_prog c) (c_opts c) = Some (Committed (c_resp c))"

text \<open>
  What happens to the store between the revisions \<open>r\<close> and \<open>q\<close>, in order: each call that writes
  makes the next revision, the others are placed at the revision they report; \<open>None\<close> is a
  revision that somebody else makes.
\<close>

fun in_order :: "int \<Rightarrow> 'err call option list \<Rightarrow> int \<Rightarrow> bool" where
  "in_order r [] q \<longleftrightarrow> q = r"
| "in_order r (None # cs) q \<longleftrightarrow> in_order (r + 1) cs q"
| "in_order r (Some c # cs) q \<longleftrightarrow>
     (if responses (c_resp c) = [] then tx_rev (c_resp c) = r \<and> in_order r cs q
      else tx_rev (c_resp c) = r + 1 \<and> in_order (r + 1) cs q)"

section \<open>The serial machine\<close>

text \<open>
  The specification: a store and its revision, and transactions executed one at a time, each
  reading the store it finds and applying its write set.  Other writers may put anything there
  between two transactions, never during one.
\<close>

inductive serial_history :: "int \<Rightarrow> view \<Rightarrow> 'err prog option list \<Rightarrow> int \<Rightarrow> view \<Rightarrow> bool" where
  serial_done: "serial_history r W [] r W"
| serial_other: "serial_history (r + 1) W1 ps r' W' \<Longrightarrow> serial_history r W (None # ps) r' W'"
| serial_next: "serial W [] p None ws \<Longrightarrow> q = (if ws = [] then r else r + 1) \<Longrightarrow>
    serial_history q (fold (op_effect q) (ws_puts ws) W) ps r' W' \<Longrightarrow> serial_history r W (Some p # ps) r' W'"

inductive_simps serial_history_Nil: "serial_history r W [] r' W'"

text \<open>A write set only holds writes.\<close>

definition writes_only :: "writeSet \<Rightarrow> bool" where
  "writes_only ws \<longleftrightarrow> (\<forall>p \<in> set (ws_puts ws). is_write p)"

lemma writes_only_mput: "writes_only ws \<Longrightarrow> is_write (put_op p) \<Longrightarrow> writes_only (mput k p ws)"
  by (auto simp: writes_only_def ws_puts_def dest!: mput_memD)

lemma serial_writes: "serial W ws p e ws' \<Longrightarrow> writes_only ws \<Longrightarrow> writes_only ws'"
  by (induction rule: serial.induct) (simp_all add: writes_only_mput)

lemma ws_puts_Nil [simp]: "ws_puts [] = []" "ws_puts ws = [] \<longleftrightarrow> ws = []"
  by (simp_all add: ws_puts_def)

text \<open>One commit is one step of the serial machine.\<close>

lemma commit_step:
  assumes "committed V c"
    and r: "tx_rev (c_resp c) = (if responses (c_resp c) = [] then r else r + 1)"
  shows "\<exists>ws. serial (V r) [] (c_prog c) None ws \<and> (responses (c_resp c) = [] \<longleftrightarrow> ws = []) \<and>
    V (if ws = [] then r else r + 1) = fold (op_effect (if ws = [] then r else r + 1)) (ws_puts ws) (V r)"
proof -
  have c: "etcd_ok V (c_revs c) (c_txn c)" "applies_writes V (c_revs c) (c_txn c)"
    using assms(1) by (simp_all add: committed_def)
  obtain n ws cmps elses where ser: "serial (V (c_revs c n)) [] (c_prog c) None ws"
    and t: "c_txn c n cmps (ws_puts ws) elses = Inl (c_resp c)" "succeeded (c_resp c)"
    using stm_serializable [OF c(1)] assms(1) unfolding committed_def by blast
  have "\<forall>p \<in> set (ws_puts ws). is_write p"
    using serial_writes [OF ser] by (simp add: writes_only_def ws_puts_def)
  with c(2) t have eff: "if ws_puts ws = [] then tx_rev (c_resp c) = c_revs c n
      else tx_rev (c_resp c) = c_revs c n + 1 \<and>
        V (c_revs c n + 1) = fold (op_effect (c_revs c n + 1)) (ws_puts ws) (V (c_revs c n))"
    unfolding applies_writes_def by blast
  have "responses (c_resp c) = [] \<longleftrightarrow> ws = []"
    using etcd_okD(2) [OF c(1) t(1)] t(2) by (cases ws) (auto simp: ws_puts_def)
  moreover from this have "c_revs c n = r" using eff r by (auto split: if_splits)
  ultimately show ?thesis using ser eff by (intro exI [of _ ws]) (auto split: if_splits)
qed

text \<open>
  C5 (refinement).  Any number of clients that commit transactions above the level ReadCommitted,
  retrying as often as they have to and interleaving their calls in any way, leave the store as
  the serial machine does: every transaction behaved as if it had run alone on the store that its
  predecessors in the order of the commits have left, and its write set is what it added to it.
\<close>

theorem stm_history_serial:
  assumes "in_order r cs q" and "\<forall>c. Some c \<in> set cs \<longrightarrow> committed V c"
  shows "serial_history r (V r) (map (map_option c_prog) cs) q (V q)"
  using assms
proof (induction r cs q rule: in_order.induct)
  case (1 r q)
  then show ?case by (simp add: serial_history_Nil)
next
  case (2 r cs q)
  then show ?case by (auto intro: serial_other)
next
  case (3 r c cs q)
  then have "committed V c" "tx_rev (c_resp c) = (if responses (c_resp c) = [] then r else r + 1)"
    by (auto split: if_splits)
  from commit_step [OF this] obtain ws where ws: "serial (V r) [] (c_prog c) None ws"
    "responses (c_resp c) = [] \<longleftrightarrow> ws = []"
    "V (if ws = [] then r else r + 1) = fold (op_effect (if ws = [] then r else r + 1)) (ws_puts ws) (V r)"
    by blast
  have "serial_history (if ws = [] then r else r + 1) (V (if ws = [] then r else r + 1)) (map (map_option c_prog) cs) q (V q)"
    using 3 ws(2) by (auto split: if_splits)
  with ws(1,3) show ?case by (auto intro: serial_next)
qed

section \<open>A concrete history\<close>

text \<open>
  A server that answers from a history and takes the writes that the history says come next.
\<close>

definition log_txn :: "'err \<Rightarrow> history \<Rightarrow> (int \<Rightarrow> op list) \<Rightarrow> (nat \<Rightarrow> int) \<Rightarrow> 'err txn" where
  "log_txn err V log revs i cmps thens elses =
     (let ok = list_all (cmp_holds (V (revs i))) cmps;
          ops = (if ok then thens else elses)
      in if list_all (not_future (revs i)) ops \<and> (list_ex is_write ops \<longrightarrow> ops = log (revs i))
         then Inl \<lparr>succeeded = ok, tx_rev = (if list_ex is_write ops then revs i + 1 else revs i),
                   responses = map (answer V (revs i)) ops\<rparr>
         else Inr err)"

lemma log_txn_ok: "history_ok V \<Longrightarrow> etcd_ok V revs (log_txn err V log revs)"
  by (auto simp: etcd_ok_def log_txn_def Let_def list_all_iff answer_ok split: if_splits
      intro!: exI [of _ "revs _"])

lemma log_txn_applies:
  assumes "\<And>r. log r \<noteq> [] \<Longrightarrow> V (r + 1) = fold (op_effect (r + 1)) (log r) (V r)"
  shows "applies_writes V revs (log_txn err V log revs)"
  using assms by (auto simp: applies_writes_def log_txn_def Let_def list_ex_iff split: if_splits)

text \<open>
  One client copies \<^verbatim>\<open>a\<close> to \<^verbatim>\<open>b\<close>, which makes revision 2; at revision 3 somebody changes \<^verbatim>\<open>a\<close>; another
  client copies \<^verbatim>\<open>b\<close> to \<^verbatim>\<open>c\<close>, which makes revision 4.  That one has read \<^verbatim>\<open>b\<close> before it was there,
  so its first commit fails.
\<close>

definition copy_prog :: "string \<Rightarrow> string \<Rightarrow> string prog" where
  "copy_prog k j = Get [k] (\<lambda>v. Put j v [] (Return None))"

definition sh_hist :: history where
  "sh_hist r = (\<lambda>k.
     if k = ''a'' \<and> 1 \<le> r
     then Some (if r < 3 then \<lparr>kv_key = ''a'', kv_value = ''1'', create_rev = 1, mod_rev = 1\<rparr>
                else \<lparr>kv_key = ''a'', kv_value = ''2'', create_rev = 1, mod_rev = 3\<rparr>)
     else if k = ''b'' \<and> 2 \<le> r then Some \<lparr>kv_key = ''b'', kv_value = ''1'', create_rev = 2, mod_rev = 2\<rparr>
     else if k = ''c'' \<and> 4 \<le> r then Some \<lparr>kv_key = ''c'', kv_value = ''1'', create_rev = 4, mod_rev = 4\<rparr>
     else None)"

definition sh_log :: "int \<Rightarrow> op list" where
  "sh_log r = (if r = 1 then [OpPut ''b'' ''1'' []] else if r = 3 then [OpPut ''c'' ''1'' []] else [])"

lemma sh_hist_ok: "history_ok sh_hist"
  by (auto simp: history_ok_def sh_hist_def split: if_splits)

lemma sh_log_ok: "sh_log r \<noteq> [] \<Longrightarrow> sh_hist (r + 1) = fold (op_effect (r + 1)) (sh_log r) (sh_hist r)"
  by (auto simp: sh_log_def sh_hist_def fun_eq_iff split: if_splits)

definition sh_first :: "string call" where
  "sh_first = \<lparr>c_txn = log_txn ''unavailable'' sh_hist sh_log (\<lambda>n. 1), c_revs = (\<lambda>n. 1), c_fuel = 1,
     c_prog = copy_prog ''a'' ''b'', c_opts = [], c_resp = \<lparr>succeeded = True, tx_rev = 2, responses = [None]\<rparr>\<rparr>"

definition sh_revs :: "nat \<Rightarrow> int" where
  "sh_revs n = (if n = 0 then 1 else 3)"

definition sh_second :: "string call" where
  "sh_second = \<lparr>c_txn = log_txn ''unavailable'' sh_hist sh_log sh_revs, c_revs = sh_revs, c_fuel = 2,
     c_prog = copy_prog ''b'' ''c'', c_opts = [WithIsolation Serializable],
     c_resp = \<lparr>succeeded = True, tx_rev = 4, responses = [None]\<rparr>\<rparr>"

lemma sh_committed: "committed sh_hist sh_first" "committed sh_hist sh_second"
proof -
  have run1: "NewSTM (log_txn ''unavailable'' sh_hist sh_log (\<lambda>n. 1)) 1 (copy_prog ''a'' ''b'') [] =
      Some (Committed \<lparr>succeeded = True, tx_rev = 2, responses = [None]\<rparr>)" by code_simp
  have run2: "NewSTM (log_txn ''unavailable'' sh_hist sh_log sh_revs) 2 (copy_prog ''b'' ''c'') [WithIsolation Serializable] =
      Some (Committed \<lparr>succeeded = True, tx_rev = 4, responses = [None]\<rparr>)" by code_simp
  have iso: "so_iso (stm_options []) \<noteq> ReadCommitted" "so_iso (stm_options [WithIsolation Serializable]) \<noteq> ReadCommitted"
    by code_simp+
  have etcd: "etcd_ok sh_hist revs (log_txn err sh_hist sh_log revs) \<and>
      applies_writes sh_hist revs (log_txn err sh_hist sh_log revs)" for revs and err :: string
    by (intro conjI log_txn_ok sh_hist_ok log_txn_applies sh_log_ok)
  show "committed sh_hist sh_first" using etcd [of "\<lambda>n. 1"] run1 iso by (simp add: committed_def sh_first_def)
  show "committed sh_hist sh_second" using etcd [of sh_revs] run2 iso by (simp add: committed_def sh_second_def)
qed

theorem stm_history_serial_witness:
  "serial_history 1 (sh_hist 1) [Some (copy_prog ''a'' ''b''), None, Some (copy_prog ''b'' ''c'')] 4 (sh_hist 4)"
proof -
  have ord: "in_order 1 [Some sh_first, None, Some sh_second] 4" by code_simp
  have com: "\<forall>c. Some c \<in> set [Some sh_first, None, Some sh_second] \<longrightarrow> committed sh_hist c"
    using sh_committed by auto
  from stm_history_serial [OF ord com] show ?thesis by (simp add: sh_first_def sh_second_def)
qed

end
