(* ===== verification/WatcherStart.thy ===== *)
theory WatcherStart
  imports GrpcClient WatcherProps
begin

text \<open>
  \<^verbatim>\<open>NewWatcher\<close> of \<^verbatim>\<open>watchclient/watcher.go\<close>: how a watcher comes to its connection, its call options
  and the fields its calls share (WatchSys), and which panics there are from then on.
\<close>

section \<open>Making a watcher\<close>

record ('conn, 'err) Watcher =
  remote :: "'conn option"
  w_callOpts :: "CallOption list"
  shared :: "'err sys"

text \<open>The client is a pointer: its connection is read before the test for nil.\<close>

definition NewWatcher :: "'conn client option \<Rightarrow> ('conn, 'err) Watcher outcome" where
  "NewWatcher c =
     obind (case c of None \<Rightarrow> Panic NilDeref | Some cl \<Rightarrow> Ret (Conn cl)) (\<lambda>conn.
       let w = \<lparr>remote = conn, w_callOpts = [], shared = fresh_watcher\<rparr>
       in Ret (case c of Some cl \<Rightarrow> w\<lparr>w_callOpts := GetCallOpts cl\<rparr> | None \<Rightarrow> w))"

lemma NewWatcher_simps [simp]:
  "NewWatcher None = Panic NilDeref"
  "NewWatcher (Some cl) = Ret \<lparr>remote = Conn cl, w_callOpts = callOpts cl, shared = fresh_watcher\<rparr>"
  by (simp_all add: NewWatcher_def GetCallOpts_def)

lemma wsteps_reach: "wsteps g fresh_watcher \<sigma> \<Longrightarrow> wreach g \<sigma>"
  using wsteps_inv [of g fresh_watcher \<sigma> "\<lambda>_. True", OF _ _ wreach.init] by simp

lemma wreach_steps: "wreach g \<sigma> \<Longrightarrow> wsteps g fresh_watcher \<sigma>"
  by (induction rule: wreach.induct) (auto simp: wsteps_def intro: rtranclp.rtrancl_into_rtrancl)

section \<open>The panics\<close>

text \<open>
  C17 (safety).  Without a client \<^verbatim>\<open>NewWatcher\<close> panics: it reads \<^verbatim>\<open>c.Conn\<close> before its test for nil.
  With a client that \<^verbatim>\<open>NewGRPCClient\<close> returned it gives a watcher with that client's connection and
  call options, and whatever is then called on it, in any interleaving, it panics in one way only: a stream's
  \<^verbatim>\<open>donec\<close> is closed twice, and then that stream was both told to close, by \<^verbatim>\<open>CloseStream\<close> or
  \<^verbatim>\<open>Close\<close>, and has given its consumer the notice of its own failure.
\<close>

theorem panic_only_by_double_close:
  fixes D :: "('conn, 'cerr) dialer" and g :: "'err grpc_errors"
  assumes "NewGRPCClient parse uuid D i W = Ret (Inr cl, W')"
  shows "NewWatcher (None :: 'conn client option) = (Panic NilDeref :: ('conn, 'err) Watcher outcome) \<and>
    (\<exists>w conn. NewWatcher (Some cl) = Ret w \<and> remote w = Some conn \<and>
      call_options (cfgs W ! i) = (Inr (w_callOpts w) :: 'cerr client_error + _) \<and>
      (\<forall>\<sigma> p. wsteps g (shared w) \<sigma> \<and> crashed \<sigma> = Some p \<longrightarrow>
        p = CloseOfClosed \<and> (\<exists>s < length (heap \<sigma>). donec (heap \<sigma> ! s) \<and>
          told_to_close (heap \<sigma> ! s) \<and> notice (heap \<sigma> ! s) \<noteq> None)))"
  using new_client_opts [OF assms] wreach_crash [OF wsteps_reach]
  by (auto simp: double_closed_def)

theorem panic_only_by_double_close_witness:
  "\<exists>cl W' w \<sigma>. NewGRPCClient (\<lambda>_. None) ''u'' demo_dialer 0 no_world = Ret (Inr cl, W') \<and>
     NewWatcher (Some cl) = Ret w \<and> wsteps demo_errors (shared w) \<sigma> \<and> crashed \<sigma> = Some CloseOfClosed \<and>
     (\<exists>s < length (heap \<sigma>). donec (heap \<sigma> ! s) \<and> told_to_close (heap \<sigma> ! s))"
proof -
  obtain cl W' where n: "NewGRPCClient (\<lambda>_. None) ''u'' demo_dialer 0 no_world = Ret (Inr cl, W')"
    using demo_dialer_connects by blast
  obtain \<sigma> where "wreach demo_errors \<sigma>" "crashed \<sigma> = Some CloseOfClosed" using demo_double_close by blast
  then have \<sigma>: "wsteps demo_errors fresh_watcher \<sigma>" "crashed \<sigma> = Some CloseOfClosed" by (simp_all add: wreach_steps)
  from panic_only_by_double_close [OF n, of demo_errors] \<sigma>
  have "\<exists>s < length (heap \<sigma>). donec (heap \<sigma> ! s) \<and> told_to_close (heap \<sigma> ! s)" by fastforce
  with n \<sigma> show ?thesis by fastforce
qed

end
