(* ===== verification/AppCalls.thy ===== *)
theory AppCalls
  imports GrpcClient WatchStore
begin

text \<open>
  \<^verbatim>\<open>watchclient/appserver.go\<close>: the unary call \<^verbatim>\<open>GetAppServers\<close> of a client.  The generated stub,
  which carries the call to the server, is the parameter \<open>invoke\<close>.
\<close>

record 'conn app_server =
  remote :: "'conn option"
  as_callOpts :: "CallOption list"

text \<open>The client is a pointer: the connection is read before the test for nil.\<close>

definition NewAppServer :: "'conn client option \<Rightarrow> 'conn app_server outcome" where
  "NewAppServer c =
     obind (case c of None \<Rightarrow> Panic NilDeref | Some cl \<Rightarrow> Ret (Conn cl)) (\<lambda>conn.
       let s = \<lparr>remote = conn, as_callOpts = []\<rparr>
       in Ret (case c of Some cl \<Rightarrow> s\<lparr>as_callOpts := GetCallOpts cl\<rparr> | None \<Rightarrow> s))"

definition GetAppServers_call ::
    "('conn option \<Rightarrow> CallOption list \<Rightarrow> App option \<Rightarrow> 'r) \<Rightarrow> 'conn app_server \<Rightarrow> App option \<Rightarrow> 'r" where
  "GetAppServers_call invoke s app = invoke (remote s) (as_callOpts s) app"

text \<open>The test for nil comes too late.\<close>

lemma NewAppServer_nil: "NewAppServer None = Panic NilDeref"
  by (simp add: NewAppServer_def)

text \<open>
  A unary call of a client that was created from a configuration reaches the
  server over the client's own connection, with the limits that \<^verbatim>\<open>call_options\<close> makes of that
  configuration, and returns the server's answer.
\<close>

theorem call_reaches_server:
  fixes D :: "('conn, 'err) dialer"
  assumes "NewGRPCClient parse uuid D p W = Ret (Inr cl, W')"
    and "\<And>conn opts app. invoke (Some conn) opts app = (opts, GetAppServers app :: GetAppResponse + 'err)"
  shows "\<exists>s opts. NewAppServer (Some cl) = Ret s \<and> remote s = Conn cl \<and>
    call_options (cfgs W ! p) = (Inr opts :: 'err client_error + _) \<and>
    GetAppServers_call invoke s app = (opts, GetAppServers app)"
  using new_client_opts [OF assms(1)] assms(2)
  by (auto simp: NewAppServer_def GetCallOpts_def GetAppServers_call_def)

lemma call_reaches_server_witness:
  "\<exists>cl W' s. NewGRPCClient (\<lambda>_. None) ''u'' demo_dialer 0 no_world = Ret (Inr cl, W') \<and> NewAppServer (Some cl) = Ret s \<and>
    snd (GetAppServers_call (\<lambda>conn opts app. (opts, GetAppServers app :: GetAppResponse + string)) s None) = GetAppServers None"
proof -
  obtain cl W' where n: "NewGRPCClient (\<lambda>_. None) ''u'' demo_dialer 0 no_world = Ret (Inr cl, W')"
    using demo_dialer_connects by blast
  from call_reaches_server [OF n, of "\<lambda>conn opts app. (opts, GetAppServers app)" None] n show ?thesis by fastforce
qed

end
