(* ===== verification/GrpcServer.thy ===== *)
theory GrpcServer
  imports WatchServer
begin

text \<open>
  \<^verbatim>\<open>watchserver/grpcserver.go\<close>: the options the server is started with, at the widths Go gives
  them, and its start on a new store.  \<^verbatim>\<open>net.Listen\<close> and the server's \<^verbatim>\<open>Serve\<close> are parameters.
\<close>

section \<open>Configuration\<close>

definition grpcOverheadBytes :: int where "grpcOverheadBytes = 512 * 1024"

definition maxStreams :: int where "maxStreams = 2 ^ 32 - 1"

definition maxSendBytes :: int where "maxSendBytes = 2 ^ 31 - 1"

record GrpcServerConfig =
  Port :: "64 word"
  MaxConnectionIdle :: "32 word"
  PingInterval :: "32 word"
  cfg_Timeout :: "32 word"
  KeepAliveMinTime :: "64 word"
  MaxConnectionAge :: "32 word"
  MaxConnectionAgeGrace :: "32 word"
  WriteBufferSize :: "64 word"
  ReadBufferSize :: "64 word"
  MaxRecvMsgSize :: "64 word"
  MaxSendMsgSize :: "64 word"
  MaxConcurrentStreams :: "32 word"

text \<open>\<^verbatim>\<open>time.Duration\<close> is a signed 64-bit number of nanoseconds.\<close>

type_synonym duration = "64 word"

definition Second :: duration where "Second = 1000000000"

definition Duration32 :: "32 word \<Rightarrow> duration" where "Duration32 x = ucast x"

record EnforcementPolicy =
  MinTime :: duration
  pol_PermitWithoutStream :: bool

record ServerParameters =
  sp_MaxConnectionIdle :: duration
  sp_MaxConnectionAge :: duration
  sp_MaxConnectionAgeGrace :: duration
  sp_Time :: duration
  sp_Timeout :: duration

datatype ServerOption =
    KeepaliveEnforcementPolicy EnforcementPolicy
  | KeepaliveParams ServerParameters
  | WithWriteBufferSize "64 word"
  | WithReadBufferSize "64 word"
  | WithMaxRecvMsgSize "64 word"
  | WithMaxSendMsgSize "64 word"
  | WithMaxConcurrentStreams "32 word"

definition kaep :: "GrpcServerConfig \<Rightarrow> EnforcementPolicy" where
  "kaep c = \<lparr>MinTime = KeepAliveMinTime c * Second, pol_PermitWithoutStream = True\<rparr>"

definition kasp :: "GrpcServerConfig \<Rightarrow> ServerParameters" where
  "kasp c = \<lparr>
     sp_MaxConnectionIdle = Duration32 (MaxConnectionIdle c) * Second,
     sp_MaxConnectionAge = Duration32 (MaxConnectionAge c) * Second,
     sp_MaxConnectionAgeGrace = Duration32 (MaxConnectionAgeGrace c) * Second,
     sp_Time = Duration32 (PingInterval c) * Second,
     sp_Timeout = Duration32 (cfg_Timeout c) * Second\<rparr>"

definition gopts :: "GrpcServerConfig \<Rightarrow> ServerOption list" where
  "gopts c =
     [KeepaliveEnforcementPolicy (kaep c), KeepaliveParams (kasp c),
      WithWriteBufferSize (WriteBufferSize c), WithReadBufferSize (ReadBufferSize c),
      WithMaxRecvMsgSize (MaxRecvMsgSize c), WithMaxSendMsgSize (MaxSendMsgSize c),
      WithMaxConcurrentStreams (MaxConcurrentStreams c)]"

section \<open>Starting\<close>

text \<open>\<^verbatim>\<open>fmt\<close>'s verb \<open>%d\<close> for a number that is not negative.\<close>

fun dec_nat :: "nat \<Rightarrow> string" where
  "dec_nat n = (if n < 10 then [''0123456789'' ! n] else dec_nat (n div 10) @ [''0123456789'' ! (n mod 10)])"

declare dec_nat.simps [simp del]

definition listen_addr :: "GrpcServerConfig \<Rightarrow> string" where
  "listen_addr c = ''0.0.0.0:'' @ dec_nat (unat (Port c))"

text \<open>
  \<open>Serve\<close> gets the listener, the options and the store with its handler; it returns the error
  it ends with, or blocks.
\<close>

definition NewGrpcServer ::
    "(string \<Rightarrow> 'l + 'e) \<Rightarrow> ('l \<Rightarrow> ServerOption list \<Rightarrow> 'err srv \<Rightarrow> 'e option outcome) \<Rightarrow> GrpcServerConfig \<Rightarrow>
     'e option outcome" where
  "NewGrpcServer Listen Serve c =
     (case Listen (listen_addr c) of
        Inr err \<Rightarrow> Ret (Some err)
      | Inl listener \<Rightarrow> Serve listener (gopts c) newWatcherStore)"

section \<open>Which durations are exact\<close>

lemma sint_mult_Second:
  "sint (w * Second) = sint w * 10 ^ 9 \<longleftrightarrow> \<bar>sint w\<bar> \<le> 9223372036" for w :: "64 word"
proof -
  have "sint (w * Second) = signed_take_bit 63 (sint w * 10 ^ 9)"
    by (simp add: Second_def signed_word_eqI sint_word_ariths sint_numeral)
  also have "\<dots> = sint w * 10 ^ 9 \<longleftrightarrow> - (2 ^ 63) \<le> sint w * 10 ^ 9 \<and> sint w * 10 ^ 9 < 2 ^ 63"
    by (simp add: signed_take_bit_int_eq_self_iff)
  also have "\<dots> \<longleftrightarrow> \<bar>sint w\<bar> \<le> 9223372036" by auto
  finally show ?thesis .
qed

lemma sint_Duration32: "sint (Duration32 x) = uint x"
proof -
  have "uint x < 2 ^ 32" using uint_lt2p [of x] by simp
  then have "signed_take_bit 63 (uint x) = uint x"
    by (intro signed_take_bit_int_eq_self) (simp_all add: order_trans [OF _ uint_ge_0])
  with \<open>uint x < 2 ^ 32\<close> show ?thesis
    by (simp add: Duration32_def sint_uint unsigned_ucast_eq take_bit_int_eq_self)
qed

text \<open>
  Every duration the server is configured with is the configured number of seconds,
  without wrap-around, because its field is 32 bits wide; the 64-bit \<^verbatim>\<open>KeepAliveMinTime\<close> is
  exact precisely up to 9223372036 seconds either way, and beyond that the pings the server
  tolerates are determined by an overflow.
\<close>

theorem server_durations:
  "sint (sp_MaxConnectionIdle (kasp c)) = uint (MaxConnectionIdle c) * 10 ^ 9 \<and>
   sint (sp_MaxConnectionAge (kasp c)) = uint (MaxConnectionAge c) * 10 ^ 9 \<and>
   sint (sp_MaxConnectionAgeGrace (kasp c)) = uint (MaxConnectionAgeGrace c) * 10 ^ 9 \<and>
   sint (sp_Time (kasp c)) = uint (PingInterval c) * 10 ^ 9 \<and>
   sint (sp_Timeout (kasp c)) = uint (cfg_Timeout c) * 10 ^ 9 \<and>
   (sint (MinTime (kaep c)) = sint (KeepAliveMinTime c) * 10 ^ 9 \<longleftrightarrow> \<bar>sint (KeepAliveMinTime c)\<bar> \<le> 9223372036)"
proof -
  have "sint (Duration32 x * Second) = uint x * 10 ^ 9" for x
  proof -
    have "uint x < 2 ^ 32" using uint_lt2p [of x] by simp
    then have "\<bar>sint (Duration32 x)\<bar> \<le> 9223372036" by (simp add: sint_Duration32)
    with sint_mult_Second [of "Duration32 x"] show ?thesis by (simp add: sint_Duration32)
  qed
  then show ?thesis using sint_mult_Second [of "KeepAliveMinTime c"] by (simp add: kasp_def kaep_def)
qed

end
