(* ===== verification/Session.thy ===== *)
theory Session
  imports Prelude "HOL-Library.Word"
begin

text \<open>
  \<^verbatim>\<open>grpclient/concurrency/session.go\<close>: a lease that is kept alive.  The etcd client's \<^verbatim>\<open>Grant\<close>,
  \<^verbatim>\<open>KeepAlive\<close> and \<^verbatim>\<open>Revoke\<close> are parameters.
\<close>

section \<open>Options\<close>

text \<open>Contexts are known by number; lease 0 is \<^verbatim>\<open>v3.NoLease\<close>.\<close>

definition defaultSessionTTL :: int where "defaultSessionTTL = 10"

definition NoLease :: int where "NoLease = 0"

record sessionOptions =
  ttl :: int
  leaseID :: int
  so_ctx :: nat

type_synonym SessionOption = "sessionOptions \<Rightarrow> sessionOptions"

definition WithTTL :: "int \<Rightarrow> SessionOption" where
  "WithTTL t so = (if 0 < t then so\<lparr>ttl := t\<rparr> else so)"

definition WithLeaseID :: "int \<Rightarrow> SessionOption" where
  "WithLeaseID l so = so\<lparr>leaseID := l\<rparr>"

definition WithContext :: "nat \<Rightarrow> SessionOption" where
  "WithContext c so = so\<lparr>so_ctx := c\<rparr>"

definition session_options :: "nat \<Rightarrow> SessionOption list \<Rightarrow> sessionOptions" where
  "session_options clientCtx opts =
     fold (\<lambda>opt ops. opt ops) opts \<lparr>ttl = defaultSessionTTL, leaseID = NoLease, so_ctx = clientCtx\<rparr>"

section \<open>The client\<close>

text \<open>
  \<open>KeepAlive client c l\<close>: a channel, or nil, and an error, or nil.
\<close>

record 'err leases =
  Grant :: "nat \<Rightarrow> int \<Rightarrow> 'err + int"
  KeepAlive :: "nat \<Rightarrow> int \<Rightarrow> bool \<times> 'err option"
  Revoke :: "nat \<Rightarrow> int \<Rightarrow> int \<Rightarrow> 'err option"

section \<open>Sessions\<close>

text \<open>
  \<open>s_cancelled\<close> is the session's own context, \<open>ka_closed\<close> the keep-alive channel,
  \<open>s_donec\<close> the channel \<^verbatim>\<open>donec\<close>, \<open>revoked\<close> the leases \<^verbatim>\<open>Revoke\<close> was called for.
\<close>

record Session =
  s_opts :: sessionOptions
  s_id :: int
  s_cancelled :: bool
  ka_closed :: bool
  s_donec :: bool
  revoked :: "int list"

text \<open>Go's pair of results: a session, or nil, and an error, or nil.\<close>

definition NewSession ::
    "'err leases \<Rightarrow> nat \<Rightarrow> SessionOption list \<Rightarrow> Session option \<times> 'err option" where
  "NewSession client clientCtx opts =
     (let ops = session_options clientCtx opts
      in case (if leaseID ops = NoLease then Grant client (so_ctx ops) (ttl ops) else Inr (leaseID ops)) of
           Inl err \<Rightarrow> (None, Some err)
         | Inr l \<Rightarrow>
             (let (keepAlive, err) = KeepAlive client (so_ctx ops) l
              in if err \<noteq> None \<or> \<not> keepAlive then (None, err)
                 else (Some \<lparr>s_opts = ops, s_id = l, s_cancelled = False, ka_closed = False, s_donec = False,
                         revoked = []\<rparr>, None)))"

definition Lease :: "Session \<Rightarrow> int" where "Lease s = s_id s"

definition session_Done :: "Session \<Rightarrow> bool" where "session_Done s = s_donec s"

text \<open>
  The keep-alive channel delivers and is closed, which etcd documents to happen once the
  context is cancelled and may happen before; the goroutine of the session eats the messages
  and closes \<^verbatim>\<open>donec\<close> when it sees the end.  \<^verbatim>\<open>Orphan\<close> cancels and waits; \<^verbatim>\<open>Close\<close> then revokes.
\<close>

datatype session_pc = Running | OrphanWait | CloseWait | CloseRevoke | Orphaned | Closed

text \<open>The timeout of the revocation, a 64-bit number of nanoseconds.\<close>

definition revoke_timeout :: "Session \<Rightarrow> int" where
  "revoke_timeout s = sint (word_of_int (ttl (s_opts s)) * 1000000000 :: 64 word)"

lemma revoke_timeout_exact:
  assumes "\<bar>ttl (s_opts s)\<bar> \<le> 9223372036"
  shows "revoke_timeout s = ttl (s_opts s) * 10 ^ 9"
proof -
  have eq: "(word_of_int (ttl (s_opts s)) * 1000000000 :: 64 word) = word_of_int (ttl (s_opts s) * 10 ^ 9)"
    by simp
  have "revoke_timeout s = signed_take_bit (LENGTH(64) - 1) (ttl (s_opts s) * 10 ^ 9)"
    unfolding revoke_timeout_def eq by (rule sint_sbintrunc')
  then have "revoke_timeout s = signed_take_bit 63 (ttl (s_opts s) * 10 ^ 9)" by simp
  also have "\<dots> = ttl (s_opts s) * 10 ^ 9"
    using assms by (intro signed_take_bit_int_eq_self) auto
  finally show ?thesis .
qed

inductive session_step :: "'err leases \<Rightarrow> Session \<times> session_pc \<Rightarrow> Session \<times> session_pc \<Rightarrow> bool" for client where
  eat: "\<not> ka_closed s \<Longrightarrow> session_step client (s, pc) (s, pc)"
| ka_end: "\<not> ka_closed s \<Longrightarrow> session_step client (s, pc) (s\<lparr>ka_closed := True\<rparr>, pc)"
| done_close: "ka_closed s \<Longrightarrow> \<not> s_donec s \<Longrightarrow> session_step client (s, pc) (s\<lparr>s_donec := True\<rparr>, pc)"
| orphan: "session_step client (s, Running) (s\<lparr>s_cancelled := True\<rparr>, OrphanWait)"
| orphan_done: "s_donec s \<Longrightarrow> session_step client (s, OrphanWait) (s, Orphaned)"
| close: "session_step client (s, Running) (s\<lparr>s_cancelled := True\<rparr>, CloseWait)"
| close_orphaned: "s_donec s \<Longrightarrow> session_step client (s, CloseWait) (s, CloseRevoke)"
| close_revoke: "Revoke client (so_ctx (s_opts s)) (revoke_timeout s) (s_id s) = err \<Longrightarrow>
    session_step client (s, CloseRevoke) (s\<lparr>revoked := revoked s @ [s_id s]\<rparr>, Closed)"

inductive session_reach :: "'err leases \<Rightarrow> nat \<Rightarrow> SessionOption list \<Rightarrow> Session \<times> session_pc \<Rightarrow> bool"
    for client c opts where
  session_init: "NewSession client c opts = (Some s, None) \<Longrightarrow> session_reach client c opts (s, Running)"
| session_next: "session_reach client c opts x \<Longrightarrow> session_step client x y \<Longrightarrow> session_reach client c opts y"

section \<open>What a session guarantees\<close>

fun last_ttl :: "int \<Rightarrow> int list \<Rightarrow> int" where
  "last_ttl d [] = d"
| "last_ttl d (t # ts) = last_ttl (if 0 < t then t else d) ts"

text \<open>
  The time to live of a session is the last positive value given by an option
  \<^verbatim>\<open>WithTTL\<close>, and 10 seconds when there is none.
\<close>

theorem session_ttl:
  "ttl (session_options c (map WithTTL ts)) = last_ttl 10 ts \<and> 0 < ttl (session_options c (map WithTTL ts))"
proof -
  have "ttl (fold (\<lambda>opt ops. opt ops) (map WithTTL ts) so) = last_ttl (ttl so) ts" for so
    by (induction ts arbitrary: so) (auto simp: WithTTL_def)
  moreover have "0 < d \<Longrightarrow> 0 < last_ttl d ts" for d by (induction ts arbitrary: d) auto
  ultimately show ?thesis by (simp add: session_options_def defaultSessionTTL_def)
qed

definition chosen_lease :: "'err leases \<Rightarrow> sessionOptions \<Rightarrow> 'err + int" where
  "chosen_lease client ops =
     (if leaseID ops = NoLease then Grant client (so_ctx ops) (ttl ops) else Inr (leaseID ops))"

text \<open>
  A session is returned without an error or not at all; what may be returned is
  neither a session nor an error, exactly when the client's keep-alive channel is nil
  without an error.
\<close>

theorem new_session_results:
  "(NewSession client c opts = (Some s, e) \<longleftrightarrow> e = None \<and> (\<exists>l.
      chosen_lease client (session_options c opts) = Inr l \<and>
      KeepAlive client (so_ctx (session_options c opts)) l = (True, None) \<and>
      s = \<lparr>s_opts = session_options c opts, s_id = l, s_cancelled = False, ka_closed = False, s_donec = False,
            revoked = []\<rparr>)) \<and>
   (NewSession client c opts = (None, None) \<longleftrightarrow> (\<exists>l.
      chosen_lease client (session_options c opts) = Inr l \<and>
      KeepAlive client (so_ctx (session_options c opts)) l = (False, None)))"
  by (auto simp: NewSession_def chosen_lease_def Let_def split: sum.splits prod.splits if_splits)

lemma session_inv:
  "session_reach client c opts x \<Longrightarrow>
    (case x of (s, pc) \<Rightarrow>
      (s_donec s \<longrightarrow> ka_closed s) \<and> (pc \<noteq> Running \<longrightarrow> s_cancelled s) \<and>
      (pc \<in> {Orphaned, CloseRevoke, Closed} \<longrightarrow> s_donec s) \<and>
      revoked s = (if pc = Closed then [s_id s] else []))"
proof (induction rule: session_reach.induct)
  case (session_init s)
  then show ?case by (auto simp: NewSession_def Let_def split: sum.splits prod.splits if_splits)
next
  case (session_next x y)
  from session_next(2,3) show ?case by (cases rule: session_step.cases) (auto split: if_splits)
qed

text \<open>
  Closing a session revokes its lease exactly once, and only when its context
  is cancelled and the goroutine that keeps the lease alive has ended; orphaning it leaves
  the lease to expire.  The revocation is given the time to live of the session, as long as
  its nanoseconds fit into 64 bits.
\<close>

theorem session_close_revokes_once:
  assumes "session_reach client c opts (s, pc)"
  shows "revoked s = (if pc = Closed then [Lease s] else []) \<and>
    (pc \<in> {Orphaned, Closed} \<longrightarrow> session_Done s \<and> s_cancelled s \<and> ka_closed s) \<and>
    (\<bar>ttl (s_opts s)\<bar> \<le> 9223372036 \<longrightarrow> revoke_timeout s = ttl (s_opts s) * 10 ^ 9)"
  using session_inv [OF assms] revoke_timeout_exact [of s] by (auto simp: Lease_def session_Done_def)

definition demo_leases :: "string leases" where
  "demo_leases = \<lparr>Grant = (\<lambda>_ _. Inr 7), KeepAlive = (\<lambda>_ _. (True, None)), Revoke = (\<lambda>_ _ _. None)\<rparr>"

lemma session_close_revokes_once_witness:
  "\<exists>s. session_reach demo_leases 0 [] (s, Closed) \<and> revoked s = [7]"
proof -
  obtain s0 where s0: "NewSession demo_leases 0 [] = (Some s0, None)" "\<not> ka_closed s0" "\<not> s_donec s0" "s_id s0 = 7"
    by (auto simp: NewSession_def demo_leases_def session_options_def NoLease_def)
  note step = session_next [where client = demo_leases and c = 0 and opts = "[]"]
  have "session_reach demo_leases 0 [] (s0\<lparr>s_cancelled := True\<rparr>, CloseWait)"
    using session_init [OF s0(1)] session_step.close by (rule step)
  from step [OF this ka_end] have "session_reach demo_leases 0 [] (s0\<lparr>s_cancelled := True, ka_closed := True\<rparr>, CloseWait)"
    using s0 by simp
  from step [OF this done_close] have
    "session_reach demo_leases 0 [] (s0\<lparr>s_cancelled := True, ka_closed := True, s_donec := True\<rparr>, CloseWait)"
    using s0 by simp
  from step [OF this close_orphaned] have
    "session_reach demo_leases 0 [] (s0\<lparr>s_cancelled := True, ka_closed := True, s_donec := True\<rparr>, CloseRevoke)"
    by simp
  from step [OF this close_revoke [OF refl]] obtain s where s: "session_reach demo_leases 0 [] (s, Closed)" "s_id s = 7"
    using s0(4) by auto
  with session_close_revokes_once [OF s(1)] show ?thesis by (auto simp: Lease_def)
qed

end
