(* ===== verification/Mutex.thy ===== *)
theory Mutex
  imports EtcdKeys
begin

text \<open>
  \<^verbatim>\<open>grpclient/concurrency/mutex.go\<close>: a lock made of the keys under a prefix, held by the key
  that was created first.
\<close>

section \<open>The mutex\<close>

text \<open>The session is known by its lease; the header by its revision.\<close>

record Mutex =
  m_pfx :: string
  m_lease :: int
  myKey :: string
  myRev :: int
  m_hdr :: "int option"

definition NewMutex :: "int \<Rightarrow> string \<Rightarrow> Mutex" where
  "NewMutex lease pfx = \<lparr>m_pfx = pfx @ ''/'', m_lease = lease, myKey = '''', myRev = -1, m_hdr = None\<rparr>"

definition Unlock :: "'err etcd \<Rightarrow> nat \<Rightarrow> Mutex \<Rightarrow> 'err option \<times> Mutex" where
  "Unlock c n m =
     (case e_delete c n (myKey m) of
        Inr err \<Rightarrow> (Some err, m)
      | Inl _ \<Rightarrow> (None, m\<lparr>myKey := [CHR 0x00], myRev := -1\<rparr>))"

definition Lock :: "'err etcd \<Rightarrow> nat \<Rightarrow> nat \<Rightarrow> Mutex \<Rightarrow> ('err wait_error option \<times> Mutex \<times> nat) outcome" where
  "Lock c fuel n m =
     (let key = m_pfx m @ hex_int (m_lease m);
          m = m\<lparr>myKey := key\<rparr>;
          cmp = CreateEq key 0;
          put = OpPut key '''' [WithLease (m_lease m)];
          get = OpGet key no_opts;
          getOwner = OpFirst (m_pfx m)
      in case e_txn c n [cmp] [put, getOwner] [get, getOwner] of
           Inr err \<Rightarrow> Ret (Some (WaitErr err), m, Suc n)
         | Inl resp \<Rightarrow>
             obind (if succeeded resp then Ret (tx_rev resp)
                    else obind (resp_kvs resp 0) (\<lambda>xs. obind (first_kv xs) (\<lambda>x. Ret (create_rev x)))) (\<lambda>r.
             let m = m\<lparr>myRev := r\<rparr>
             in obind (resp_kvs resp 1) (\<lambda>ownerKey.
                  if ownerKey = [] \<or> create_rev (hd ownerKey) = r
                  then Ret (None, m\<lparr>m_hdr := Some (tx_rev resp)\<rparr>, Suc n)
                  else obind (waitDeletes c fuel (Suc n) (m_pfx m) (r - 1)) (\<lambda>(res, n).
                    case res of
                      Inl werr \<Rightarrow> Ret (Some werr, snd (Unlock c n m), Suc n)
                    | Inr hdr \<Rightarrow> Ret (None, m\<lparr>m_hdr := Some hdr\<rparr>, n)))))"

definition IsOwner :: "Mutex \<Rightarrow> cmp" where "IsOwner m = CreateEq (myKey m) (myRev m)"

definition Key :: "Mutex \<Rightarrow> string" where "Key m = myKey m"

definition Header :: "Mutex \<Rightarrow> int option" where "Header m = m_hdr m"

text \<open>The \<^verbatim>\<open>sync.Locker\<close>: an error becomes a panic, with the error's text.\<close>

definition locker_Lock ::
    "('err wait_error \<Rightarrow> string) \<Rightarrow> 'err etcd \<Rightarrow> nat \<Rightarrow> nat \<Rightarrow> Mutex \<Rightarrow> (Mutex \<times> nat) outcome" where
  "locker_Lock txt c fuel n m =
     obind (Lock c fuel n m) (\<lambda>(err, m, n). case err of Some e \<Rightarrow> Panic (PanicMsg (txt e)) | None \<Rightarrow> Ret (m, n))"

definition locker_Unlock :: "('err \<Rightarrow> string) \<Rightarrow> 'err etcd \<Rightarrow> nat \<Rightarrow> Mutex \<Rightarrow> Mutex outcome" where
  "locker_Unlock txt c n m =
     (case Unlock c n m of (Some e, _) \<Rightarrow> Panic (PanicMsg (txt e)) | (None, m) \<Rightarrow> Ret m)"

definition NewLocker :: "int \<Rightarrow> string \<Rightarrow> Mutex" where "NewLocker lease pfx = NewMutex lease pfx"

section \<open>What the transaction of Lock returns\<close>

lemma lock_txn:
  assumes "server_ok V revs c" and "HasPrefix key pfx"
    and "e_txn c n [CreateEq key 0] [OpPut key v opts, OpFirst pfx] [OpGet key no_opts, OpFirst pfx] = Inl resp"
  obtains r x xs where "tx_rev resp = r" and "revs n \<le> r" and "r \<le> revs (Suc n)" and "held (V r) key (create_rev x)"
    and "create_rev x \<le> r" and "is_first (V r) pfx xs" and "resp_kvs resp 1 = Ret xs"
    and "(if succeeded resp then r = create_rev x else resp_kvs resp 0 = Ret [x])"
proof -
  note ok = server_okD(5) [OF assms(1,3), unfolded txn_ok_def]
  have hist: "history_ok V" using assms(1) by (rule server_okD(1))
  let ?W = "V (revs n)" and ?r = "tx_rev resp"
  show ?thesis
  proof (cases "succeeded resp")
    case True
    with ok have "rev_of create_rev (?W key) = 0" by simp
    then have None: "?W key = None"
      using hist by (fastforce simp: rev_of_def history_ok_def split: option.splits)
    let ?x = "\<lparr>kv_key = key, kv_value = v, create_rev = ?r, mod_rev = ?r\<rparr>"
    obtain g xs where g: "responses resp = [None, g]" "V ?r = ?W(key \<mapsto> ?x)" "g = Some \<lparr>hdr_rev = ?r, kvs = xs\<rparr>"
      "is_first (V ?r) pfx xs"
      using ok True None by auto
    show ?thesis
      using ok True g by (intro that [of ?r ?x xs]) (simp_all add: held_def resp_kvs_def)
  next
    case False
    obtain x where x: "?W key = Some x"
      using ok False hist by (auto simp: rev_of_def history_ok_def split: option.splits)
    obtain xs where g: "responses resp = [Some \<lparr>hdr_rev = ?r, kvs = [x]\<rparr>, Some \<lparr>hdr_rev = ?r, kvs = xs\<rparr>]"
      "V ?r = ?W" "is_first (V ?r) pfx xs"
      using ok False x by (auto simp: opt_list_def)
    have "create_rev x \<le> revs n" using hist x unfolding history_ok_def by (meson order_trans)
    with ok False g x show ?thesis
      by (intro that [of ?r x xs]) (simp_all add: held_def resp_kvs_def)
  qed
qed

lemma Lock_after_txn:
  assumes "e_txn c n [CreateEq (m_pfx m @ hex_int (m_lease m)) 0]
      [OpPut (m_pfx m @ hex_int (m_lease m)) '''' [WithLease (m_lease m)], OpFirst (m_pfx m)]
      [OpGet (m_pfx m @ hex_int (m_lease m)) no_opts, OpFirst (m_pfx m)] = Inl resp"
    and "resp_kvs resp 1 = Ret xs" and "if succeeded resp then tx_rev resp = create_rev x else resp_kvs resp 0 = Ret [x]"
  defines "m1 \<equiv> m\<lparr>myKey := m_pfx m @ hex_int (m_lease m), myRev := create_rev x\<rparr>"
  shows "Lock c fuel n m =
    (if xs = [] \<or> create_rev (hd xs) = create_rev x then Ret (None, m1\<lparr>m_hdr := Some (tx_rev resp)\<rparr>, Suc n)
     else obind (waitDeletes c fuel (Suc n) (m_pfx m) (create_rev x - 1)) (\<lambda>(res, n). case res of
         Inl werr \<Rightarrow> Ret (Some werr, snd (Unlock c n m1), Suc n)
       | Inr hdr \<Rightarrow> Ret (None, m1\<lparr>m_hdr := Some hdr\<rparr>, n)))"
  unfolding m1_def Lock_def Let_def using assms(1-3)
  by (cases "succeeded resp") (simp_all add: first_kv_def)

text \<open>Acquiring: the key was there at its creation, and nothing older is left.\<close>

lemma lock_acquired:
  assumes "server_ok V revs c" and "Lock c fuel n m = Ret (None, m', n')"
  shows "m_pfx m' = m_pfx m \<and> m_lease m' = m_lease m \<and> myKey m' = m_pfx m @ hex_int (m_lease m) \<and> 0 < myRev m' \<and>
    (\<exists>r t. m_hdr m' = Some r \<and> claimed V (m_pfx m) r (myRev m') \<and> r \<le> revs n' \<and> t \<le> r \<and>
      held (V t) (myKey m') (myRev m'))"
proof -
  let ?k = "m_pfx m @ hex_int (m_lease m)"
  obtain resp where t: "e_txn c n [CreateEq ?k 0] [OpPut ?k '''' [WithLease (m_lease m)], OpFirst (m_pfx m)]
      [OpGet ?k no_opts, OpFirst (m_pfx m)] = Inl resp"
    using assms(2) by (auto simp: Lock_def Let_def split: sum.splits)
  have pfx: "HasPrefix ?k (m_pfx m)" by simp
  obtain x xs where r: "revs n \<le> tx_rev resp" "tx_rev resp \<le> revs (Suc n)" "held (V (tx_rev resp)) ?k (create_rev x)"
    "create_rev x \<le> tx_rev resp" "is_first (V (tx_rev resp)) (m_pfx m) xs" "resp_kvs resp 1 = Ret xs"
    "(if succeeded resp then tx_rev resp = create_rev x else resp_kvs resp 0 = Ret [x])"
    using assms(1) pfx t by (rule lock_txn) blast
  have pos: "0 < create_rev x"
    using r(3) server_okD(1) [OF assms(1)] unfolding held_def history_ok_def by metis
  have und: "\<exists>y. under (V (tx_rev resp)) (m_pfx m) y \<and> create_rev y = create_rev x"
    using r(3) pfx unfolding held_def under_def by blast
  let ?m = "m\<lparr>myKey := ?k, myRev := create_rev x\<rparr>"
  note assms(2) [unfolded Lock_after_txn [OF t r(6,7)]]
  moreover have "xs \<noteq> []" using r(5) und by (auto simp: is_first_def)
  ultimately consider
    (first) "create_rev (hd xs) = create_rev x" "m' = ?m\<lparr>m_hdr := Some (tx_rev resp)\<rparr>" "n' = Suc n"
    | (waited) hdr where "waitDeletes c fuel (Suc n) (m_pfx m) (create_rev x - 1) = Ret (Inr hdr, n')"
        "m' = ?m\<lparr>m_hdr := Some hdr\<rparr>"
    by (auto split: if_splits) (auto split: sum.split_asm)
  then show ?thesis
  proof cases
    case first
    have "claimed V (m_pfx m) (tx_rev resp) (create_rev x)"
      using r(4,5) und first(1) by (auto simp: claimed_def is_first_def)
    with first r pos show ?thesis by auto
  next
    case waited
    from waitDeletes_ok [OF assms(1) waited(1)] have w: "hdr \<le> revs n'" "revs (Suc n) \<le> hdr"
      "\<forall>x'. under (V hdr) (m_pfx m) x' \<longrightarrow> create_rev x \<le> create_rev x'" by auto
    then have "claimed V (m_pfx m) hdr (create_rev x)" using r(2,4) by (auto simp: claimed_def)
    with waited w r pos show ?thesis by (auto intro!: exI [of _ "tx_rev resp"])
  qed
qed

text \<open>
  C4 (safety).  Mutual exclusion: of all the mutexes on a prefix whose \<^verbatim>\<open>Lock\<close> has returned
  without an error, at any revision at most one session's passes the comparison \<^verbatim>\<open>IsOwner\<close>,
  so a transaction guarded by it is never applied for two sessions.
\<close>

theorem mutual_exclusion:
  assumes "server_ok V revs\<^sub>1 c\<^sub>1" and "Lock c\<^sub>1 fuel\<^sub>1 n\<^sub>1 m\<^sub>1 = Ret (None, m\<^sub>1', n\<^sub>1')"
    and "server_ok V revs\<^sub>2 c\<^sub>2" and "Lock c\<^sub>2 fuel\<^sub>2 n\<^sub>2 m\<^sub>2 = Ret (None, m\<^sub>2', n\<^sub>2')"
    and "m_pfx m\<^sub>1 = m_pfx m\<^sub>2" and "one_per_rev V (m_pfx m\<^sub>1)"
    and "revs\<^sub>1 n\<^sub>1' \<le> r" and "revs\<^sub>2 n\<^sub>2' \<le> r"
    and "cmp_holds (V r) (IsOwner m\<^sub>1')" and "cmp_holds (V r) (IsOwner m\<^sub>2')"
  shows "m_lease m\<^sub>1 = m_lease m\<^sub>2 \<and> myRev m\<^sub>1' = myRev m\<^sub>2'"
proof -
  have own: "\<exists>x. V r (myKey m) = Some x \<and> create_rev x = myRev m" if "cmp_holds (V r) (IsOwner m)" "0 < myRev m" for m
    using that by (auto simp: IsOwner_def rev_of_def split: option.splits)
  obtain r\<^sub>1 where a: "claimed V (m_pfx m\<^sub>1) r\<^sub>1 (myRev m\<^sub>1')" "r\<^sub>1 \<le> revs\<^sub>1 n\<^sub>1'" "0 < myRev m\<^sub>1'"
    "myKey m\<^sub>1' = m_pfx m\<^sub>1 @ hex_int (m_lease m\<^sub>1)"
    using lock_acquired [OF assms(1,2)] by auto
  obtain r\<^sub>2 where b: "claimed V (m_pfx m\<^sub>1) r\<^sub>2 (myRev m\<^sub>2')" "r\<^sub>2 \<le> revs\<^sub>2 n\<^sub>2'" "0 < myRev m\<^sub>2'"
    "myKey m\<^sub>2' = m_pfx m\<^sub>1 @ hex_int (m_lease m\<^sub>2)"
    using lock_acquired [OF assms(3,4)] assms(5) by auto
  obtain x\<^sub>1 x\<^sub>2 where x: "V r (myKey m\<^sub>1') = Some x\<^sub>1" "create_rev x\<^sub>1 = myRev m\<^sub>1'"
    "V r (myKey m\<^sub>2') = Some x\<^sub>2" "create_rev x\<^sub>2 = myRev m\<^sub>2'"
    using own [OF assms(9) a(3)] own [OF assms(10) b(3)] by blast
  have "myKey m\<^sub>1' = myKey m\<^sub>2' \<and> myRev m\<^sub>1' = myRev m\<^sub>2'"
    by (rule claims_exclude [OF server_okD(2) [OF assms(1)] assms(6) a(1) _ x(1,2) _ b(1) _ x(3,4)])
      (use a b assms(7,8) in auto)
  with a(4) b(4) show ?thesis by (auto dest: hex_int_inj)
qed

text \<open>
  The lock is granted in the order of creation: once \<^verbatim>\<open>Lock\<close> has returned without an error,
  every key that was created under the prefix before its own is gone for good.
\<close>

lemma lock_fifo:
  assumes "server_ok V revs c" and "Lock c fuel n m = Ret (None, m', n')"
    and "revs n' \<le> r" and "under (V r) (m_pfx m) x"
  shows "myRev m' \<le> create_rev x"
proof -
  obtain t where "claimed V (m_pfx m) t (myRev m')" "t \<le> revs n'"
    using lock_acquired [OF assms(1,2)] by blast
  with claimed_later [OF server_okD(2) [OF assms(1)], of "m_pfx m" t "myRev m'" r] assms(3,4)
  show ?thesis by (simp add: claimed_def)
qed

text \<open>
  Hence an owner whose key went away (an expired lease, say) stays out: when a mutex created later
  has got the lock, the earlier one never passes \<^verbatim>\<open>IsOwner\<close> again.
\<close>

theorem stale_owner_fenced:
  assumes "server_ok V revs c" and "Lock c fuel n m = Ret (None, m', n')" and "revs n' \<le> r"
    and "HasPrefix (myKey old) (m_pfx m)" and "0 < myRev old" and "myRev old < myRev m'"
  shows "\<not> cmp_holds (V r) (IsOwner old)"
proof
  assume "cmp_holds (V r) (IsOwner old)"
  with assms(5) obtain x where "V r (myKey old) = Some x" "create_rev x = myRev old"
    by (auto simp: IsOwner_def rev_of_def split: option.splits)
  with lock_fifo [OF assms(1-3), of x] assms(4,6) show False by (auto simp: under_def)
qed

section \<open>Progress and its limits\<close>

text \<open>
  C15 (liveness).  A waiting \<^verbatim>\<open>Lock\<close> gets the lock: when the server answers and, in each round,
  the key that the round waits for is deleted some time after it is watched, \<^verbatim>\<open>Lock\<close> returns
  without an error, with its own key and that key's creation revision, after at most one
  round per key under the prefix created before its own.  Keys that came later may stay.
\<close>

theorem lock_returns:
  assumes ok: "server_ok V revs c" and own: "key = m_pfx m @ hex_int (m_lease m)"
    and t: "e_txn c n [CreateEq key 0] [OpPut key '''' [WithLease (m_lease m)], OpFirst (m_pfx m)]
      [OpGet key no_opts, OpFirst (m_pfx m)] = Inl resp"
    and y: "V (tx_rev resp) key = Some y"
    and served: "wait_served c (Suc n) (m_pfx m) (create_rev y - 1)"
    and fin: "finite (waited (V (revs (Suc n))) (m_pfx m) (create_rev y - 1))"
    and fuel: "card (waited (V (revs (Suc n))) (m_pfx m) (create_rev y - 1)) < fuel"
  shows "\<exists>m' n'. Lock c fuel n m = Ret (None, m', n') \<and> myKey m' = key \<and> myRev m' = create_rev y \<and>
    n' \<le> n + 2 + 2 * card (waited (V (revs (Suc n))) (m_pfx m) (create_rev y - 1))"
proof -
  have pfx: "HasPrefix key (m_pfx m)" by (simp add: own)
  obtain x xs where r: "tx_rev resp \<le> revs (Suc n)" "held (V (tx_rev resp)) key (create_rev x)"
    "create_rev x \<le> tx_rev resp" "resp_kvs resp 1 = Ret xs"
    "(if succeeded resp then tx_rev resp = create_rev x else resp_kvs resp 0 = Ret [x])"
    using ok pfx t by (rule lock_txn) blast
  have x: "create_rev x = create_rev y" using r(2) y by (simp add: held_def)
  have "create_rev y - 1 \<le> revs (Suc n)" using r(1,3) x by linarith
  from waitDeletes_terminates [OF ok served this fin fuel] obtain hdr n' where
    "waitDeletes c fuel (Suc n) (m_pfx m) (create_rev y - 1) = Ret (Inr hdr, n')"
    "n' \<le> n + 2 + 2 * card (waited (V (revs (Suc n))) (m_pfx m) (create_rev y - 1))" by auto
  then show ?thesis
    using Lock_after_txn [OF t [unfolded own] r(4,5)] by (simp add: own x)
qed

section \<open>Examples\<close>

text \<open>
  Two sessions, leases 1 and 2, on the prefix \<^verbatim>\<open>l/\<close>: the key of lease 1 is there from revision 1
  and deleted at revision 4, the key of lease 2 is created at revision 2 by the call with
  number 0 and lives until revision \<open>d\<close>.
\<close>

definition lock_hist :: "int \<Rightarrow> history" where
  "lock_hist d r k =
     (if k = ''l/1'' \<and> 1 \<le> r \<and> r < 4 then Some \<lparr>kv_key = ''l/1'', kv_value = '''', create_rev = 1, mod_rev = 1\<rparr>
      else if k = ''l/2'' \<and> 2 \<le> r \<and> r < d then Some \<lparr>kv_key = ''l/2'', kv_value = '''', create_rev = 2, mod_rev = 2\<rparr>
      else None)"

definition lock_revs :: "nat \<Rightarrow> int" where
  "lock_revs n = (if n = 0 then 1 else if n = 1 then 2 else 4)"

definition lock_etcd :: "int \<Rightarrow> string etcd" where
  "lock_etcd d = \<lparr>
     e_txn = (\<lambda>n cmps thens elses.
       if n = 0 \<and> cmps = [CreateEq ''l/2'' 0] \<and> thens = [OpPut ''l/2'' '''' [WithLease 2], OpFirst ''l/'']
       then Inl \<lparr>succeeded = True, tx_rev = 2, responses = [None, Some \<lparr>hdr_rev = 2,
         kvs = [\<lparr>kv_key = ''l/1'', kv_value = '''', create_rev = 1, mod_rev = 1\<rparr>]\<rparr>]\<rparr>
       else Inr ''unavailable''),
     e_get = (\<lambda>n req. Inl (range_get [''l/1'', ''l/2''] (lock_hist d) (lock_revs n) req)),
     e_delete = (\<lambda>n key. Inr ''unavailable''),
     e_watch = (\<lambda>n key rv. \<lparr>wresps = (if key = ''l/1'' \<and> 2 \<le> n \<and> rv \<le> 4
       then [\<lparr>wr_hdr = 4, events = [DeleteEvent], wr_err = None\<rparr>] else []), wclosed = True\<rparr>),
     e_watch_prefix = (\<lambda>n key rv. \<lparr>wresps = [], wclosed = True\<rparr>),
     e_ctx = (\<lambda>n. None)\<rparr>"

lemma lock_hist_Some:
  "lock_hist d r k = Some x \<longleftrightarrow>
    k = ''l/1'' \<and> 1 \<le> r \<and> r < 4 \<and> x = \<lparr>kv_key = ''l/1'', kv_value = '''', create_rev = 1, mod_rev = 1\<rparr> \<or>
    k = ''l/2'' \<and> 2 \<le> r \<and> r < d \<and> x = \<lparr>kv_key = ''l/2'', kv_value = '''', create_rev = 2, mod_rev = 2\<rparr>"
  by (auto simp: lock_hist_def)

lemma lock_hist_ok: "history_ok (lock_hist d)" "continuous (lock_hist d)" "one_per_rev (lock_hist d) ''l/''"
proof -
  show "history_ok (lock_hist d)" unfolding history_ok_def lock_hist_Some
    by (intro conjI allI impI; elim conjE disjE, simp_all)
  show "continuous (lock_hist d)" unfolding continuous_def lock_hist_Some
    by (intro allI impI, elim conjE disjE, simp_all)
  show "one_per_rev (lock_hist d) ''l/''" unfolding one_per_rev_def lock_hist_Some
    by (intro allI impI, elim conjE disjE, simp_all)
qed

lemma lock_keys_prefix: "HasPrefix ''l/1'' ''l/''" "HasPrefix ''l/2'' ''l/''" by code_simp+

lemma lock_under: "2 < d \<Longrightarrow> under (lock_hist d 2) ''l/'' x \<Longrightarrow> x \<in> {\<lparr>kv_key = ''l/1'', kv_value = '''', create_rev = 1, mod_rev = 1\<rparr>,
        \<lparr>kv_key = ''l/2'', kv_value = '''', create_rev = 2, mod_rev = 2\<rparr>}"
  unfolding under_def lock_hist_Some by blast

lemma lock_under_first: "2 < d \<Longrightarrow> under (lock_hist d 2) ''l/'' \<lparr>kv_key = ''l/1'', kv_value = '''', create_rev = 1, mod_rev = 1\<rparr>"
  unfolding under_def lock_hist_Some using lock_keys_prefix by fastforce

lemma lock_first: "2 < d \<Longrightarrow> is_first (lock_hist d 2) ''l/'' [\<lparr>kv_key = ''l/1'', kv_value = '''', create_rev = 1, mod_rev = 1\<rparr>]"
  unfolding is_first_def using lock_under lock_under_first by fastforce

lemma lock_put: "2 < d \<Longrightarrow> lock_hist d 2 = (lock_hist d 1)(''l/2'' \<mapsto> \<lparr>kv_key = ''l/2'', kv_value = '''', create_rev = 2, mod_rev = 2\<rparr>)"
      by (auto simp: lock_hist_def)

lemma lock_etcd_txn:
  "2 < d \<Longrightarrow> e_txn (lock_etcd d) n cmps thens elses = Inl resp \<Longrightarrow> txn_ok (lock_hist d) (lock_revs n) (lock_revs (Suc n)) cmps thens elses resp"
  using lock_put lock_first by (auto simp: lock_etcd_def txn_ok_def lock_revs_def rev_of_def lock_hist_def [of _ 1 "''l/2''"] split: if_splits)

lemma lock_hist_dom: "dom (lock_hist d r) \<subseteq> set [''l/1'', ''l/2'']" unfolding dom_def by (auto simp: lock_hist_Some)

lemma lock_etcd_watch:
  "sees_delete (e_watch (lock_etcd d) n key rv) \<Longrightarrow> \<exists>q. rv \<le> q \<and> q \<le> lock_revs (Suc n) \<and> lock_hist d q key = None"
 by (intro exI [of _ 4]) (auto simp: sees_delete_def lock_etcd_def lock_revs_def lock_hist_def split: if_splits)

lemma lock_etcd_ok:
  assumes "2 < d"
  shows "server_ok (lock_hist d) lock_revs (lock_etcd d)"
proof -
  have "lock_revs n \<le> lock_revs (Suc n)" for n by (simp add: lock_revs_def)
  moreover have "get_ok (lock_hist d) (lock_revs n) req resp" if "e_get (lock_etcd d) n req = Inl resp" for n req resp
    using that range_get_ok [OF lock_hist_dom, where req = req] by (auto simp: lock_etcd_def)
  ultimately show ?thesis
    using lock_hist_ok lock_etcd_txn [OF assms] lock_etcd_watch unfolding server_ok_def by blast
qed

definition lock_demo :: Mutex where "lock_demo = NewMutex 2 ''l''"

lemma lock_demo_run: "Lock (lock_etcd 3) 3 0 lock_demo = Ret (None,
    \<lparr>m_pfx = ''l/'', m_lease = 2, myKey = ''l/2'', myRev = 2, m_hdr = Some 4\<rparr>, 4)"
  by code_simp

text \<open>The key that lives long: the session owns the lock.\<close>

lemma lock_demo_owner: "Lock (lock_etcd 100) 3 0 lock_demo = Ret (None,
    \<lparr>m_pfx = ''l/'', m_lease = 2, myKey = ''l/2'', myRev = 2, m_hdr = Some 4\<rparr>, 4)"
  by code_simp

lemma mutual_exclusion_witness:
  "\<exists>m'. Lock (lock_etcd 100) 3 0 lock_demo = Ret (None, m', 4) \<and> cmp_holds (lock_hist 100 5) (IsOwner m') \<and>
    m_lease lock_demo = m_lease lock_demo \<and> myRev m' = myRev m'"
proof -
  let ?m = "\<lparr>m_pfx = ''l/'', m_lease = 2, myKey = ''l/2'', myRev = 2, m_hdr = Some 4\<rparr>"
  have ok: "server_ok (lock_hist 100) lock_revs (lock_etcd 100)" by (rule lock_etcd_ok) simp
  have one: "one_per_rev (lock_hist 100) (m_pfx lock_demo)"
    using lock_hist_ok(3) by (simp add: lock_demo_def NewMutex_def)
  have r: "lock_revs 4 \<le> 5" by (simp add: lock_revs_def)
  have own: "cmp_holds (lock_hist 100 5) (IsOwner ?m)" by code_simp
  from mutual_exclusion [OF ok lock_demo_owner ok lock_demo_owner refl one r r own own] lock_demo_owner own
  show ?thesis by blast
qed

text \<open>
  The queue of three: lease 2 waits for the keys of the leases 3 and 1 in turn, and with
  two rounds it would not have returned.
\<close>

theorem lock_returns_witness:
  "(\<exists>m' n'. Lock queue_etcd 3 0 lock_demo = Ret (None, m', n') \<and> myKey m' = ''l/2'' \<and> myRev m' = 3 \<and> n' \<le> 6) \<and>
   Lock queue_etcd 2 0 lock_demo = Blocked \<and> waited (queue_hist 3) ''l/'' 2 = {''l/1'', ''l/3''}"
proof -
  have own: "''l/2'' = m_pfx lock_demo @ hex_int (m_lease lock_demo)" by code_simp
  let ?resp = "\<lparr>succeeded = True, tx_rev = 3, responses = [None, Some \<lparr>hdr_rev = 3, kvs = [queue_key ''l/1'' 1]\<rparr>]\<rparr>"
  have t: "e_txn queue_etcd 0 [CreateEq ''l/2'' 0]
      [OpPut ''l/2'' '''' [WithLease (m_lease lock_demo)], OpFirst (m_pfx lock_demo)]
      [OpGet ''l/2'' no_opts, OpFirst (m_pfx lock_demo)] = Inl ?resp"
    by (simp add: queue_etcd_def lock_demo_def NewMutex_def)
  have y: "queue_hist (tx_rev ?resp) ''l/2'' = Some (queue_key ''l/2'' 3)" by (simp add: queue_hist_def)
  have eq: "m_pfx lock_demo = ''l/''" "create_rev (queue_key ''l/2'' 3) - 1 = 2" "queue_revs (Suc 0) = 3"
    by (simp_all add: lock_demo_def NewMutex_def queue_key_def queue_revs_def)
  have "\<exists>m' n'. Lock queue_etcd 3 0 lock_demo = Ret (None, m', n') \<and> myKey m' = ''l/2'' \<and>
      myRev m' = create_rev (queue_key ''l/2'' 3) \<and>
      n' \<le> 0 + 2 + 2 * card (waited (queue_hist (queue_revs (Suc 0))) (m_pfx lock_demo) (create_rev (queue_key ''l/2'' 3) - 1))"
    by (rule lock_returns [OF queue_etcd_ok own t y]) (simp_all only: eq queue_waited, use queue_served in simp_all)
  moreover have "Lock queue_etcd 2 0 lock_demo = Blocked" by code_simp
  ultimately show ?thesis unfolding eq queue_waited by (simp add: queue_key_def)
qed

text \<open>
  \<^verbatim>\<open>Lock\<close> does not look at its own key again: when the session's lease expires
  during the wait, \<^verbatim>\<open>Lock\<close> returns without an error although the key is gone and \<^verbatim>\<open>IsOwner\<close>
  fails.
\<close>

theorem lock_without_key:
  "\<exists>V revs (c :: string etcd) m'. server_ok V revs c \<and> Lock c 3 0 lock_demo = Ret (None, m', 4) \<and>
    V (revs 4) (Key m') = None \<and> \<not> cmp_holds (V (revs 4)) (IsOwner m')"
proof -
  let ?m = "\<lparr>m_pfx = ''l/'', m_lease = 2, myKey = ''l/2'', myRev = 2, m_hdr = Some 4\<rparr>"
  have "server_ok (lock_hist 3) lock_revs (lock_etcd 3)" by (rule lock_etcd_ok) simp
  moreover have "lock_hist 3 (lock_revs 4) (Key ?m) = None" by code_simp
  moreover have "\<not> cmp_holds (lock_hist 3 (lock_revs 4)) (IsOwner ?m)" by code_simp
  ultimately show ?thesis using lock_demo_run
    by (intro exI [of _ "lock_hist 3"] exI [of _ lock_revs] exI [of _ "lock_etcd 3"] exI [of _ ?m] conjI)
qed

text \<open>
  C32 (error).  A \<^verbatim>\<open>Lock\<close> that fails gives its key up: either the transaction failed, or the wait
  did and the key was deleted, unless deleting it failed as well, in which case the mutex
  still names it; and \<^verbatim>\<open>Lock\<close> never panics.
\<close>

theorem lock_failure:
  assumes "server_ok V revs c"
  shows "(\<forall>p. Lock c fuel n m \<noteq> Panic p) \<and>
    (\<forall>err m' n'. Lock c fuel n m = Ret (Some err, m', n') \<longrightarrow>
      (\<exists>e. err = WaitErr e \<and> n' = Suc n \<and> myRev m' = myRev m \<and> m_hdr m' = m_hdr m) \<or>
      (\<exists>i. n' = Suc i \<and> n < i \<and>
        (case e_delete c i (m_pfx m @ hex_int (m_lease m)) of
           Inl _ \<Rightarrow> myKey m' = [CHR 0x00] \<and> myRev m' = -1
         | Inr _ \<Rightarrow> myKey m' = m_pfx m @ hex_int (m_lease m))))"
proof (cases "e_txn c n [CreateEq (m_pfx m @ hex_int (m_lease m)) 0]
      [OpPut (m_pfx m @ hex_int (m_lease m)) '''' [WithLease (m_lease m)], OpFirst (m_pfx m)]
      [OpGet (m_pfx m @ hex_int (m_lease m)) no_opts, OpFirst (m_pfx m)]")
  case (Inl resp)
  have pfx: "HasPrefix (m_pfx m @ hex_int (m_lease m)) (m_pfx m)" by simp
  obtain x xs where r: "resp_kvs resp 1 = Ret xs"
    "if succeeded resp then tx_rev resp = create_rev x else resp_kvs resp 0 = Ret [x]"
    using assms pfx Inl by (rule lock_txn) blast
  have np: "waitDeletes c fuel i pfx' m' \<noteq> Panic p" for i pfx' m' p
    by (rule waitDeletes_no_panic)
  have ni: "waitDeletes c fuel i pfx' m' = Ret (res, j) \<Longrightarrow> i < j" for i pfx' m' res j
    by (rule waitDeletes_counts)
  note Lock = Lock_after_txn [OF Inl r]
  have "Lock c fuel n m \<noteq> Panic p" for p
    unfolding Lock by (auto simp: obind_Panic np split: sum.splits)
  moreover have "\<exists>i. n' = Suc i \<and> n < i \<and> (case e_delete c i (m_pfx m @ hex_int (m_lease m)) of
      Inl _ \<Rightarrow> myKey m' = [CHR 0x00] \<and> myRev m' = -1 | Inr _ \<Rightarrow> myKey m' = m_pfx m @ hex_int (m_lease m))"
    if L: "Lock c fuel n m = Ret (Some err, m', n')" for err m' n'
  proof -
    let ?m = "m\<lparr>myKey := m_pfx m @ hex_int (m_lease m), myRev := create_rev x\<rparr>"
    obtain i where i: "waitDeletes c fuel (Suc n) (m_pfx m) (create_rev x - 1) = Ret (Inl err, i)"
      "n' = Suc i" "m' = snd (Unlock c i ?m)"
      using L unfolding Lock by (auto split: if_splits) (auto split: sum.split_asm)
    with ni [OF i(1)] show ?thesis
      by (intro exI [of _ i]) (auto simp: Unlock_def split: sum.split)
  qed
  ultimately show ?thesis by blast
next
  case (Inr err)
  then show ?thesis by (simp add: Lock_def Let_def)
qed

text \<open>The watch of the older key ends without a deletion.\<close>

definition lost_etcd :: "string etcd" where
  "lost_etcd = (lock_etcd 100)\<lparr>e_watch := \<lambda>n key rv. \<lparr>wresps = [], wclosed = True\<rparr>\<rparr>"

lemma lost_etcd_ok: "server_ok (lock_hist 100) lock_revs lost_etcd"
proof -
  have e: "e_txn lost_etcd = e_txn (lock_etcd 100)" "e_get lost_etcd = e_get (lock_etcd 100)"
    "\<not> sees_delete (e_watch lost_etcd n key rv)" for n key rv
    by (simp_all add: lost_etcd_def sees_delete_def)
  have "server_ok (lock_hist 100) lock_revs (lock_etcd 100)" by (rule lock_etcd_ok) simp
  then show ?thesis unfolding server_ok_def e by (simp add: e(3))
qed

lemma lock_failure_witness:
  "\<exists>m'. Lock lost_etcd 3 0 lock_demo = Ret (Some LostWatcher, m', 4) \<and>
     e_delete lost_etcd 3 ''l/2'' = Inr ''unavailable'' \<and> myKey m' = ''l/2''"
proof -
  let ?m = "\<lparr>m_pfx = ''l/'', m_lease = 2, myKey = ''l/2'', myRev = 2, m_hdr = None\<rparr>"
  have L: "Lock lost_etcd 3 0 lock_demo = Ret (Some LostWatcher, ?m, 4)" by code_simp
  have k: "m_pfx lock_demo @ hex_int (m_lease lock_demo) = ''l/2''" by code_simp
  have d: "e_delete lost_etcd 3 ''l/2'' = Inr ''unavailable''" by (simp add: lost_etcd_def lock_etcd_def)
  from lock_failure [OF lost_etcd_ok, of 3 0 lock_demo] L have "\<exists>i. (4::nat) = Suc i \<and> 0 < i \<and>
      (case e_delete lost_etcd i ''l/2'' of Inl _ \<Rightarrow> myKey ?m = [CHR 0x00] \<and> myRev ?m = -1 | Inr _ \<Rightarrow> myKey ?m = ''l/2'')"
    unfolding k by blast
  with L d show ?thesis by auto
qed

end
