(* ===== verification/Election.thy ===== *)
theory Election
  imports EtcdKeys
begin

text \<open>
  \<^verbatim>\<open>grpclient/concurrency/election.go\<close>: leader election over the keys under a prefix.  A
  session is known by its lease, a header by its revision.
\<close>

section \<open>Elections\<close>

datatype 'err election_error =
    ErrElectionNotLeader
  | ErrElectionNoLeader
  | EtcdErr 'err
  | WaitFailed "'err wait_error"

record Election =
  session :: int
  keyPrefix :: string
  leaderKey :: string
  leaderRev :: int
  leaderSession :: "int option"
  el_hdr :: "int option"

definition NewElection :: "int \<Rightarrow> string \<Rightarrow> Election" where
  "NewElection s pfx = \<lparr>session = s, keyPrefix = pfx @ ''/'', leaderKey = '''', leaderRev = 0,
     leaderSession = None, el_hdr = None\<rparr>"

definition ResumeElection :: "int \<Rightarrow> string \<Rightarrow> string \<Rightarrow> int \<Rightarrow> Election" where
  "ResumeElection s pfx lKey lRev = \<lparr>session = s, keyPrefix = pfx, leaderKey = lKey, leaderRev = lRev,
     leaderSession = Some s, el_hdr = None\<rparr>"

definition Proclaim :: "'err etcd \<Rightarrow> nat \<Rightarrow> string \<Rightarrow> Election \<Rightarrow> 'err election_error option \<times> Election" where
  "Proclaim c n val e =
     (case leaderSession e of
        None \<Rightarrow> (Some ErrElectionNotLeader, e)
      | Some s \<Rightarrow>
          (case e_txn c n [CreateEq (leaderKey e) (leaderRev e)] [OpPut (leaderKey e) val [WithLease s]] [] of
             Inr terr \<Rightarrow> (Some (EtcdErr terr), e)
           | Inl tresp \<Rightarrow>
               if \<not> succeeded tresp then (Some ErrElectionNotLeader, e\<lparr>leaderKey := ''''\<rparr>)
               else (None, e\<lparr>el_hdr := Some (tx_rev tresp)\<rparr>)))"

definition Resign :: "'err etcd \<Rightarrow> nat \<Rightarrow> Election \<Rightarrow> 'err option \<times> Election" where
  "Resign c n e =
     (if leaderSession e = None then (None, e)
      else let r = e_txn c n [CreateEq (leaderKey e) (leaderRev e)] [OpDelete (leaderKey e)] [];
               e = (case r of Inl resp \<Rightarrow> e\<lparr>el_hdr := Some (tx_rev resp)\<rparr> | Inr _ \<Rightarrow> e)
           in (case r of Inl _ \<Rightarrow> None | Inr err \<Rightarrow> Some err, e\<lparr>leaderKey := '''', leaderSession := None\<rparr>))"

text \<open>
  \<^verbatim>\<open>Campaign\<close>; the value of a key that the session already has is replaced by \<^verbatim>\<open>Proclaim\<close>.
\<close>

definition campaign_value ::
    "'err etcd \<Rightarrow> nat \<Rightarrow> string \<Rightarrow> kv \<Rightarrow> Election \<Rightarrow> 'err election_error option \<times> Election \<times> nat" where
  "campaign_value c n val kv e =
     (if kv_value kv \<noteq> val
      then case Proclaim c n val e of
          (Some err, e) \<Rightarrow> (Some err, snd (Resign c (Suc n) e), n + 2)
        | (None, e) \<Rightarrow> (None, e, Suc n)
      else (None, e, n))"

definition campaign_wait ::
    "'err etcd \<Rightarrow> nat \<Rightarrow> nat \<Rightarrow> int \<Rightarrow> Election \<Rightarrow> ('err election_error option \<times> Election \<times> nat) outcome" where
  "campaign_wait c fuel n hdr e =
     obind (waitDeletes c fuel n (keyPrefix e) (leaderRev e - 1)) (\<lambda>(res, n).
       case res of
         Inl err \<Rightarrow>
           Ret (Some (WaitFailed err),
             (if e_ctx c n \<noteq> None then snd (Resign c (Suc n) e) else e\<lparr>leaderSession := None\<rparr>), n + 2)
       | Inr _ \<Rightarrow> Ret (None, e\<lparr>el_hdr := Some hdr\<rparr>, n))"

definition Campaign ::
    "'err etcd \<Rightarrow> nat \<Rightarrow> nat \<Rightarrow> string \<Rightarrow> Election \<Rightarrow> ('err election_error option \<times> Election \<times> nat) outcome" where
  "Campaign c fuel n val e =
     (let s = session e;
          k = keyPrefix e @ hex_int s
      in case e_txn c n [CreateEq k 0] [OpPut k val [WithLease s]] [OpGet k no_opts] of
           Inr err \<Rightarrow> Ret (Some (EtcdErr err), e, Suc n)
         | Inl resp \<Rightarrow>
             (let e = e\<lparr>leaderKey := k, leaderRev := tx_rev resp, leaderSession := Some s\<rparr>
              in if succeeded resp then campaign_wait c fuel (Suc n) (tx_rev resp) e
                 else obind (resp_kvs resp 0) (\<lambda>xs. obind (first_kv xs) (\<lambda>kv.
                   case campaign_value c (Suc n) val kv (e\<lparr>leaderRev := create_rev kv\<rparr>) of
                     (Some err, e, n) \<Rightarrow> Ret (Some err, e, n)
                   | (None, e, n) \<Rightarrow> campaign_wait c fuel n (tx_rev resp) e))))"

definition Leader :: "'err etcd \<Rightarrow> nat \<Rightarrow> Election \<Rightarrow> 'err election_error + getresp" where
  "Leader c n e =
     (case e_get c n (FirstCreate (keyPrefix e)) of
        Inr err \<Rightarrow> Inl (EtcdErr err)
      | Inl resp \<Rightarrow> if kvs resp = [] then Inl ErrElectionNoLeader else Inr resp)"

definition election_Key :: "Election \<Rightarrow> string" where "election_Key e = leaderKey e"

definition election_Rev :: "Election \<Rightarrow> int" where "election_Rev e = leaderRev e"

definition election_Header :: "Election \<Rightarrow> int option" where "election_Header e = el_hdr e"

section \<open>Observing\<close>

text \<open>
  \<^verbatim>\<open>observe\<close> as the list of what it sends, with how it ends: the channel is closed, or it
  waits for an event (or the fuel is used up).  When the context is cancelled it sends a
  prefix of the list.
\<close>

fun first_put :: "event list \<Rightarrow> kv option" where
  "first_put [] = None"
| "first_put (PutEvent kv # evs) = Some kv"
| "first_put (DeleteEvent # evs) = first_put evs"

datatype found = Found int kv | Disrupted | Waiting

fun wait_put :: "'err watchresp list \<Rightarrow> bool \<Rightarrow> found" where
  "wait_put [] closed = (if closed then Disrupted else Waiting)"
| "wait_put (wr # wrs) closed =
     (if wr_err wr \<noteq> None then Disrupted
      else case first_put (events wr) of
          Some kv \<Rightarrow> Found (mod_rev kv) kv
        | None \<Rightarrow> wait_put wrs closed)"

text \<open>The events of the leader's key: what is sent, and whether the key was deleted.\<close>

fun key_events :: "int \<Rightarrow> event list \<Rightarrow> getresp list \<times> bool" where
  "key_events hdr [] = ([], False)"
| "key_events hdr (DeleteEvent # evs) = ([], True)"
| "key_events hdr (PutEvent kv # evs) =
     (let (xs, del) = key_events hdr evs in (\<lparr>hdr_rev = hdr, kvs = [kv]\<rparr> # xs, del))"

fun follow_key :: "'err watchresp list \<Rightarrow> getresp list \<times> bool" where
  "follow_key [] = ([], False)"
| "follow_key (wr # wrs) =
     (let (xs, del) = key_events (wr_hdr wr) (events wr)
      in if del then (xs, True) else (let (ys, del) = follow_key wrs in (xs @ ys, del)))"

fun observe :: "'err etcd \<Rightarrow> nat \<Rightarrow> nat \<Rightarrow> string \<Rightarrow> getresp list \<times> bool" where
  "observe c 0 n pfx = ([], False)"
| "observe c (Suc fuel) n pfx =
     (case e_get c n (FirstCreate pfx) of
        Inr _ \<Rightarrow> ([], True)
      | Inl resp \<Rightarrow>
          (case (case kvs resp of
                   [] \<Rightarrow> (let wch = e_watch_prefix c (Suc n) pfx (hdr_rev resp) in wait_put (wresps wch) (wclosed wch))
                 | kv # _ \<Rightarrow> Found (hdr_rev resp) kv) of
             Disrupted \<Rightarrow> ([], True)
           | Waiting \<Rightarrow> ([], False)
           | Found hdr kv \<Rightarrow>
               (let wch = e_watch c (n + 2) (kv_key kv) (hdr + 1);
                    (xs, del) = follow_key (wresps wch);
                    sent = \<lparr>hdr_rev = hdr, kvs = [kv]\<rparr> # xs
                in if del then (let (ys, closed) = observe c fuel (n + 3) pfx in (sent @ ys, closed))
                   else (sent, wclosed wch))))"

text \<open>\<^verbatim>\<open>Observe\<close> starts \<^verbatim>\<open>observe\<close> on the election's own prefix.\<close>

definition Observe_from :: "'err etcd \<Rightarrow> nat \<Rightarrow> nat \<Rightarrow> Election \<Rightarrow> getresp list \<times> bool" where
  "Observe_from c fuel n e = observe c fuel n (keyPrefix e)"

section \<open>Winning\<close>

lemma campaign_txn:
  assumes "server_ok V revs c" and "e_txn c n [CreateEq k 0] [OpPut k val opts] [OpGet k no_opts] = Inl resp"
  obtains x where "V (tx_rev resp) k = Some x" and "revs n \<le> tx_rev resp" and "tx_rev resp \<le> revs (Suc n)"
    and "create_rev x \<le> tx_rev resp" and "0 < create_rev x"
    and "if succeeded resp then tx_rev resp = create_rev x \<and> kv_value x = val else resp_kvs resp 0 = Ret [x]"
proof -
  note ok = server_okD(5) [OF assms, unfolded txn_ok_def]
  have hist: "history_ok V" using assms(1) by (rule server_okD(1))
  have bounds: "0 < create_rev x \<and> create_rev x \<le> r" if "V r k = Some x" for r x
    using hist that unfolding history_ok_def by (meson order_trans)
  show ?thesis
  proof (cases "succeeded resp")
    case True
    with ok have "V (revs n) k = None"
      using bounds by (fastforce simp: rev_of_def split: option.splits)
    with ok True have v: "V (tx_rev resp) k = Some \<lparr>kv_key = k, kv_value = val, create_rev = tx_rev resp, mod_rev = tx_rev resp\<rparr>"
      by auto
    with ok True bounds [OF v] show ?thesis by (intro that [OF v]) simp_all
  next
    case False
    then obtain x where x: "V (revs n) k = Some x"
      using ok by (auto simp: rev_of_def split: option.splits)
    with ok False have "V (tx_rev resp) k = Some x" "responses resp = [Some \<lparr>hdr_rev = tx_rev resp, kvs = [x]\<rparr>]"
      "tx_rev resp = revs n"
      by (auto simp: opt_list_def)
    with ok False bounds [OF x] show ?thesis by (intro that [of x]) (simp_all add: resp_kvs_def)
  qed
qed

lemma Proclaim_None:
  assumes "server_ok V revs c" and "Proclaim c n val e = (None, e')" and "0 < leaderRev e"
  obtains y where "e' = e\<lparr>el_hdr := Some (revs n + 1)\<rparr>" and "held (V (revs n)) (leaderKey e) (leaderRev e)"
    and "V (revs n + 1) (leaderKey e) = Some y" and "create_rev y = leaderRev e" and "kv_value y = val"
    and "revs n + 1 \<le> revs (Suc n)"
proof -
  obtain s tresp where t: "e_txn c n [CreateEq (leaderKey e) (leaderRev e)] [OpPut (leaderKey e) val [WithLease s]] [] = Inl tresp"
    and s: "succeeded tresp" and e': "e' = e\<lparr>el_hdr := Some (tx_rev tresp)\<rparr>"
    using assms(2) by (auto simp: Proclaim_def split: option.splits sum.splits if_splits)
  note ok = server_okD(5) [OF assms(1) t, unfolded txn_ok_def]
  from ok s assms(3) obtain x where x: "V (revs n) (leaderKey e) = Some x" "create_rev x = leaderRev e"
    by (auto simp: rev_of_def split: option.splits)
  with ok s e' show ?thesis
    by (intro that [of "\<lparr>kv_key = leaderKey e, kv_value = val, create_rev = leaderRev e, mod_rev = revs n + 1\<rparr>"])
      (auto simp: held_def)
qed

lemma campaign_wait_None:
  assumes "server_ok V revs c" and "campaign_wait c fuel n hdr e = Ret (None, e', n')"
    and "leaderRev e \<le> revs n"
  shows "e' = e\<lparr>el_hdr := Some hdr\<rparr> \<and> n \<le> n' \<and>
    (\<exists>r. claimed V (keyPrefix e) r (leaderRev e) \<and> revs n \<le> r \<and> r \<le> revs n')"
proof -
  obtain r where w: "waitDeletes c fuel n (keyPrefix e) (leaderRev e - 1) = Ret (Inr r, n')"
    and e': "e' = e\<lparr>el_hdr := Some hdr\<rparr>"
    using assms(2) unfolding campaign_wait_def by (auto split: if_splits) (auto split: sum.split_asm)
  from waitDeletes_ok [OF assms(1) w] have r: "n < n'" "r \<le> revs n'" "revs n \<le> r"
    "\<forall>x. under (V r) (keyPrefix e) x \<longrightarrow> leaderRev e \<le> create_rev x" by auto
  with assms(3) have "claimed V (keyPrefix e) r (leaderRev e)" by (simp add: claimed_def)
  with r e' show ?thesis by auto
qed

lemma campaign_won:
  assumes "server_ok V revs c" and "Campaign c fuel n val e = Ret (None, e', n')"
  shows "keyPrefix e' = keyPrefix e \<and> leaderKey e' = keyPrefix e @ hex_int (session e) \<and>
    leaderSession e' = Some (session e) \<and> 0 < leaderRev e' \<and>
    (\<exists>r t x. claimed V (keyPrefix e) r (leaderRev e') \<and> r \<le> revs n' \<and> t \<le> r \<and>
      V t (leaderKey e') = Some x \<and> create_rev x = leaderRev e' \<and> kv_value x = val)"
proof -
  let ?k = "keyPrefix e @ hex_int (session e)"
  obtain resp where t: "e_txn c n [CreateEq ?k 0] [OpPut ?k val [WithLease (session e)]] [OpGet ?k no_opts] = Inl resp"
    using assms(2) by (auto simp: Campaign_def Let_def split: sum.splits)
  obtain x where x: "V (tx_rev resp) ?k = Some x" "revs n \<le> tx_rev resp" "tx_rev resp \<le> revs (Suc n)"
    "create_rev x \<le> tx_rev resp" "0 < create_rev x"
    "if succeeded resp then tx_rev resp = create_rev x \<and> kv_value x = val else resp_kvs resp 0 = Ret [x]"
    using assms(1) t by (rule campaign_txn) blast
  let ?e = "e\<lparr>leaderKey := ?k, leaderSession := Some (session e), leaderRev := create_rev x\<rparr>"
  have "\<exists>e1 n1 y q. campaign_wait c fuel n1 (tx_rev resp) e1 = Ret (None, e', n') \<and> leaderKey e1 = ?k \<and>
      leaderRev e1 = create_rev x \<and> leaderSession e1 = Some (session e) \<and> keyPrefix e1 = keyPrefix e \<and>
      V q ?k = Some y \<and> create_rev y = create_rev x \<and> kv_value y = val \<and> q \<le> revs n1 \<and> tx_rev resp \<le> revs n1"
  proof (cases "succeeded resp")
    case True
    have "e\<lparr>leaderKey := ?k, leaderRev := create_rev x, leaderSession := Some (session e)\<rparr> = ?e"
      by (cases e) simp
    with True assms(2) t x(6) have "campaign_wait c fuel (Suc n) (tx_rev resp) ?e = Ret (None, e', n')"
      by (simp add: Campaign_def Let_def)
    with True x show ?thesis by (intro exI [of _ ?e] exI [of _ "Suc n"] exI [of _ x] exI [of _ "tx_rev resp"]) simp
  next
    case False
    with assms(2) t x(6) obtain e1 n1 where v: "campaign_value c (Suc n) val x ?e = (None, e1, n1)"
      and w: "campaign_wait c fuel n1 (tx_rev resp) e1 = Ret (None, e', n')"
      by (auto simp: Campaign_def Let_def first_kv_def split: prod.splits option.splits)
    show ?thesis
    proof (cases "kv_value x = val")
      case True
      with v have "e1 = ?e" "n1 = Suc n" by (simp_all add: campaign_value_def)
      with w x True show ?thesis by (intro exI [of _ ?e] exI [of _ "Suc n"] exI [of _ x] exI [of _ "tx_rev resp"]) simp
    next
      case neq: False
      with v have p: "Proclaim c (Suc n) val ?e = (None, e1)" "n1 = n + 2"
        by (auto simp: campaign_value_def split: prod.splits option.splits)
      obtain y where y: "e1 = ?e\<lparr>el_hdr := Some (revs (Suc n) + 1)\<rparr>"
        "V (revs (Suc n) + 1) (leaderKey ?e) = Some y" "create_rev y = leaderRev ?e" "kv_value y = val"
        "revs (Suc n) + 1 \<le> revs (Suc (Suc n))"
        using assms(1) p(1) by (rule Proclaim_None) (use x(5) in auto)
      with w x p(2) show ?thesis
        by (intro exI [of _ e1] exI [of _ n1] exI [of _ y] exI [of _ "revs (Suc n) + 1"]) simp
    qed
  qed
  then obtain e1 n1 y q where w: "campaign_wait c fuel n1 (tx_rev resp) e1 = Ret (None, e', n')"
    and e1: "leaderKey e1 = ?k" "leaderRev e1 = create_rev x" "leaderSession e1 = Some (session e)" "keyPrefix e1 = keyPrefix e"
    and y: "V q ?k = Some y" "create_rev y = create_rev x" "kv_value y = val" "q \<le> revs n1" "tx_rev resp \<le> revs n1"
    by blast
  have "leaderRev e1 \<le> revs n1" using e1(2) x(4) y(5) by linarith
  from campaign_wait_None [OF assms(1) w this] obtain r where e': "e' = e1\<lparr>el_hdr := Some (tx_rev resp)\<rparr>"
    and r: "claimed V (keyPrefix e) r (create_rev x)" "revs n1 \<le> r" "r \<le> revs n'"
    using e1 by auto
  have "r \<le> revs n'" "q \<le> r" using r y by linarith+
  then have "\<exists>r t x. claimed V (keyPrefix e) r (leaderRev e') \<and> r \<le> revs n' \<and> t \<le> r \<and>
      V t (leaderKey e') = Some x \<and> create_rev x = leaderRev e' \<and> kv_value x = val"
    using e' e1 r(1) y(1-3) by (intro exI [of _ r] exI [of _ q] exI [of _ y]) simp
  then show ?thesis using e' e1 x(5) by simp
qed

text \<open>The winner's key is the first under the prefix, for as long as it is there.\<close>

lemma winner_first:
  assumes "server_ok V revs c" and "Campaign c fuel n val e = Ret (None, e', n')" and "one_per_rev V (keyPrefix e)"
    and "revs n' \<le> r" and "held (V r) (leaderKey e') (leaderRev e')" and "is_first (V r) (keyPrefix e) xs"
  shows "\<exists>x. xs = [x] \<and> kv_key x = leaderKey e' \<and> create_rev x = leaderRev e'"
proof -
  note won = campaign_won [OF assms(1,2)]
  then obtain q where "claimed V (keyPrefix e) q (leaderRev e')" "q \<le> revs n'" by blast
  then have cl: "claimed V (keyPrefix e) r (leaderRev e')"
    using claimed_later [OF server_okD(2) [OF assms(1)]] assms(4) by (meson order_trans)
  obtain x where x: "V r (leaderKey e') = Some x" "create_rev x = leaderRev e'"
    using assms(5) by (auto simp: held_def)
  have pfx: "HasPrefix (leaderKey e') (keyPrefix e)" using won by simp
  have "under (V r) (keyPrefix e) x" using x pfx by (auto simp: under_def)
  with assms(6) obtain y where y: "xs = [y]" "under (V r) (keyPrefix e) y" "create_rev y \<le> create_rev x"
    by (auto simp: is_first_def)
  with cl x(2) have eq: "create_rev y = create_rev x" by (fastforce simp: claimed_def)
  obtain k where k: "V r k = Some y" "HasPrefix k (keyPrefix e)" using y(2) by (auto simp: under_def)
  with assms(3) x pfx eq have "k = leaderKey e'" unfolding one_per_rev_def by metis
  moreover have "kv_key y = k"
    using server_okD(1) [OF assms(1)] k(1) unfolding history_ok_def by metis
  ultimately show ?thesis using y(1) eq x(2) by simp
qed

section \<open>What an election promises\<close>

text \<open>
  C7 (safety).  One leader: of all the elections on a prefix whose \<^verbatim>\<open>Campaign\<close> has returned
  without an error, at any later revision at most one session's key is still in the store
  as the creation it campaigned with.
\<close>

theorem election_safety:
  assumes "server_ok V revs\<^sub>1 c\<^sub>1" and "Campaign c\<^sub>1 fuel\<^sub>1 n\<^sub>1 val\<^sub>1 e\<^sub>1 = Ret (None, e\<^sub>1', n\<^sub>1')"
    and "server_ok V revs\<^sub>2 c\<^sub>2" and "Campaign c\<^sub>2 fuel\<^sub>2 n\<^sub>2 val\<^sub>2 e\<^sub>2 = Ret (None, e\<^sub>2', n\<^sub>2')"
    and "keyPrefix e\<^sub>1 = keyPrefix e\<^sub>2" and "one_per_rev V (keyPrefix e\<^sub>1)"
    and "revs\<^sub>1 n\<^sub>1' \<le> r" and "revs\<^sub>2 n\<^sub>2' \<le> r"
    and "held (V r) (election_Key e\<^sub>1') (election_Rev e\<^sub>1')" and "held (V r) (election_Key e\<^sub>2') (election_Rev e\<^sub>2')"
  shows "session e\<^sub>1 = session e\<^sub>2 \<and> election_Rev e\<^sub>1' = election_Rev e\<^sub>2'"
proof -
  note a = campaign_won [OF assms(1,2)]
  note b = campaign_won [OF assms(3,4), folded assms(5)]
  obtain r\<^sub>1 where r\<^sub>1: "claimed V (keyPrefix e\<^sub>1) r\<^sub>1 (leaderRev e\<^sub>1')" "r\<^sub>1 \<le> r" using a assms(7) by (meson order_trans)
  obtain r\<^sub>2 where r\<^sub>2: "claimed V (keyPrefix e\<^sub>1) r\<^sub>2 (leaderRev e\<^sub>2')" "r\<^sub>2 \<le> r" using b assms(8) by (meson order_trans)
  obtain x\<^sub>1 x\<^sub>2 where x: "V r (leaderKey e\<^sub>1') = Some x\<^sub>1" "create_rev x\<^sub>1 = leaderRev e\<^sub>1'"
    "V r (leaderKey e\<^sub>2') = Some x\<^sub>2" "create_rev x\<^sub>2 = leaderRev e\<^sub>2'"
    using assms(9,10) by (auto simp: held_def election_Key_def election_Rev_def)
  have pfx: "HasPrefix (leaderKey e\<^sub>1') (keyPrefix e\<^sub>1)" "HasPrefix (leaderKey e\<^sub>2') (keyPrefix e\<^sub>1)" using a b by simp_all
  have "leaderKey e\<^sub>1' = leaderKey e\<^sub>2' \<and> leaderRev e\<^sub>1' = leaderRev e\<^sub>2'"
    using claims_exclude [OF server_okD(2) [OF assms(1)] assms(6) r\<^sub>1 x(1,2) pfx(1) r\<^sub>2 x(3,4) pfx(2)] .
  with a b show ?thesis using hex_int_inj by (auto simp: election_Rev_def)
qed

text \<open>What \<^verbatim>\<open>Proclaim\<close> does, on every branch, for a session that campaigned.\<close>

lemma Proclaim_cases:
  assumes "server_ok V revs c" and "leaderSession e = Some s" and "0 < leaderRev e"
  shows "case Proclaim c n val e of
      (None, e') \<Rightarrow> e' = e\<lparr>el_hdr := Some (revs n + 1)\<rparr> \<and> held (V (revs n)) (leaderKey e) (leaderRev e) \<and>
        (\<exists>y. V (revs n + 1) = (V (revs n))(leaderKey e \<mapsto> y) \<and> create_rev y = leaderRev e \<and> kv_value y = val)
    | (Some err, e') \<Rightarrow>
        (\<exists>x. err = EtcdErr x \<and> e' = e) \<or>
        (err = ErrElectionNotLeader \<and> e' = e\<lparr>leaderKey := ''''\<rparr> \<and> \<not> held (V (revs n)) (leaderKey e) (leaderRev e))"
proof (cases "e_txn c n [CreateEq (leaderKey e) (leaderRev e)] [OpPut (leaderKey e) val [WithLease s]] []")
  case (Inl resp)
  note ok = server_okD(5) [OF assms(1) Inl, unfolded txn_ok_def]
  have held: "held (V (revs n)) (leaderKey e) (leaderRev e) \<longleftrightarrow> succeeded resp"
    using ok assms(3) by (auto simp: held_def rev_of_def split: option.splits)
  show ?thesis
  proof (cases "succeeded resp")
    case True
    then obtain x where x: "V (revs n) (leaderKey e) = Some x" "create_rev x = leaderRev e"
      using held by (auto simp: held_def)
    with True ok Inl assms(2) held show ?thesis by (auto simp: Proclaim_def)
  qed (use Inl assms(2) held in \<open>simp add: Proclaim_def\<close>)
qed (simp add: Proclaim_def assms(2))

text \<open>A creation that is gone does not come back.\<close>

lemma gone_forever:
  assumes "continuous V" and "\<not> held (V r) key cr" and "cr \<le> r" and "r \<le> q"
  shows "\<not> held (V q) key cr"
  using continuousD [OF assms(1), of q key _ r] assms(2-4) unfolding held_def by blast

text \<open>
  C23 (functional).  Once \<^verbatim>\<open>Campaign\<close> has succeeded and while the winner's key is in the store,
  every client's \<^verbatim>\<open>Leader\<close> whose read is served reports that key, with its creation revision.
\<close>

theorem leader_reports_winner:
  assumes "server_ok V revs\<^sub>1 c\<^sub>1" and "Campaign c\<^sub>1 fuel n val e\<^sub>1 = Ret (None, e\<^sub>1', n')"
    and "server_ok V revs\<^sub>2 c\<^sub>2" and "keyPrefix e\<^sub>2 = keyPrefix e\<^sub>1" and "one_per_rev V (keyPrefix e\<^sub>1)"
    and "revs\<^sub>1 n' \<le> revs\<^sub>2 i" and "held (V (revs\<^sub>2 i)) (election_Key e\<^sub>1') (election_Rev e\<^sub>1')"
  shows "case Leader c\<^sub>2 i e\<^sub>2 of
      Inr resp \<Rightarrow> \<exists>x. kvs resp = [x] \<and> kv_key x = election_Key e\<^sub>1' \<and> create_rev x = election_Rev e\<^sub>1'
    | Inl err \<Rightarrow> \<exists>err'. err = EtcdErr err' \<and> e_get c\<^sub>2 i (FirstCreate (keyPrefix e\<^sub>1)) = Inr err'"
proof (cases "e_get c\<^sub>2 i (FirstCreate (keyPrefix e\<^sub>1))")
  case (Inl resp)
  then have "is_first (V (revs\<^sub>2 i)) (keyPrefix e\<^sub>1) (kvs resp)"
    using server_okD(4) [OF assms(3)] by fastforce
  from winner_first [OF assms(1,2,5,6) _ this] assms(7)
  show ?thesis using Inl assms(4) by (auto simp: Leader_def election_Key_def election_Rev_def)
qed (simp add: Leader_def assms(4))

text \<open>
  C22 (safety).  A winner's \<^verbatim>\<open>Proclaim\<close> is guarded by its key: when it succeeds, the key was in the store
  as the creation that won, nothing under the prefix is older, and exactly the value of that
  key changed; otherwise the store is not touched, and \<^verbatim>\<open>ErrElectionNotLeader\<close> means that the
  key is gone, for good.
\<close>

theorem proclaim_by_leader:
  assumes "server_ok V revs c" and "Campaign c fuel n val e = Ret (None, e', n')" and "n' \<le> i"
  shows "case Proclaim c i val' e' of
      (None, e'') \<Rightarrow> election_Header e'' = Some (revs i + 1) \<and>
        (\<exists>y. V (revs i + 1) = (V (revs i))(election_Key e' \<mapsto> y) \<and> kv_value y = val' \<and> create_rev y = election_Rev e' \<and>
          (\<forall>x. under (V (revs i + 1)) (keyPrefix e) x \<longrightarrow> election_Rev e' \<le> create_rev x))
    | (Some ErrElectionNotLeader, e'') \<Rightarrow> election_Key e'' = '''' \<and>
        (\<forall>q. revs i \<le> q \<longrightarrow> \<not> held (V q) (election_Key e') (election_Rev e'))
    | (Some err, e'') \<Rightarrow> (\<exists>x. err = EtcdErr x) \<and> e'' = e'"
proof -
  note won = campaign_won [OF assms(1,2)]
  note cont = server_okD(2) [OF assms(1)]
  obtain r where r: "claimed V (keyPrefix e) r (leaderRev e')" "r \<le> revs n'" using won by blast
  with server_okD(3) [OF assms(1,3)] have le: "r \<le> revs i" by linarith
  then have "claimed V (keyPrefix e) (revs i + 1) (leaderRev e')" by (intro claimed_later [OF cont r(1)]) simp
  then have first: "\<forall>x. under (V (revs i + 1)) (keyPrefix e) x \<longrightarrow> leaderRev e' \<le> create_rev x"
    by (simp add: claimed_def)
  have "leaderRev e' \<le> revs i" using r(1) le by (simp add: claimed_def)
  with gone_forever [OF cont] have gone: "\<not> held (V (revs i)) (leaderKey e') (leaderRev e') \<Longrightarrow>
      revs i \<le> q \<Longrightarrow> \<not> held (V q) (leaderKey e') (leaderRev e')" for q by blast
  have s: "leaderSession e' = Some (session e)" "0 < leaderRev e'" using won by simp_all
  from Proclaim_cases [OF assms(1) s, of i val'] first gone show ?thesis
    by (auto simp: election_Key_def election_Rev_def election_Header_def split: prod.splits option.splits election_error.splits)
qed

text \<open>
  C33 (safety).  \<^verbatim>\<open>Resign\<close> after a won campaign: when it returns without an error the winning key
  is gone for good, and whatever it returns the election is no leader any more, so that
  \<^verbatim>\<open>Proclaim\<close> fails and a second \<^verbatim>\<open>Resign\<close> does nothing, both without a request.
\<close>

theorem resign_gives_up:
  assumes "server_ok V revs c" and "Campaign c fuel n val e = Ret (None, e', n')" and "n' \<le> i"
    and "Resign c i e' = (res, e'')"
  shows "election_Key e'' = '''' \<and> Proclaim c j val' e'' = (Some ErrElectionNotLeader, e'') \<and> Resign c j e'' = (None, e'') \<and>
    (res = None \<longrightarrow> (\<forall>q. revs (Suc i) \<le> q \<longrightarrow> \<not> held (V q) (election_Key e') (election_Rev e')))"
proof -
  note won = campaign_won [OF assms(1,2)]
  note cont = server_okD(2) [OF assms(1)]
  obtain r where "claimed V (keyPrefix e) r (leaderRev e')" "r \<le> revs n'" using won by blast
  with server_okD(3) [OF assms(1,3)] have le: "leaderRev e' \<le> revs i" by (simp add: claimed_def)
  have "\<not> held (V q) (leaderKey e') (leaderRev e')" if "res = None" and q: "revs (Suc i) \<le> q" for q
  proof -
    from that assms(4) won obtain resp
      where t: "e_txn c i [CreateEq (leaderKey e') (leaderRev e')] [OpDelete (leaderKey e')] [] = Inl resp"
      by (auto simp: Resign_def Let_def split: sum.splits)
    note ok = server_okD(5) [OF assms(1) t, unfolded txn_ok_def]
    have "\<not> held (V (tx_rev resp)) (leaderKey e') (leaderRev e')"
      using ok won by (cases "succeeded resp") (auto simp: held_def rev_of_def split: option.splits)
    moreover have "revs i \<le> tx_rev resp" "tx_rev resp \<le> q" using ok q by (auto split: if_splits)
    ultimately show ?thesis using gone_forever [OF cont] le by (meson order_trans)
  qed
  moreover have "leaderKey e'' = ''''" "leaderSession e'' = None"
    using assms(4) won by (auto simp: Resign_def Let_def split: sum.splits)
  ultimately show ?thesis by (simp add: election_Key_def election_Rev_def Proclaim_def Resign_def)
qed

section \<open>Progress\<close>

text \<open>The wait of a campaigner whose key was created at \<open>leaderRev e\<close>.\<close>

lemma campaign_wait_ends:
  assumes ok: "server_ok V revs c" and "wait_served c j (keyPrefix e) (leaderRev e - 1)"
    and "leaderRev e \<le> revs i" and "i \<le> j"
    and fin: "finite (waited (V (revs i)) (keyPrefix e) (leaderRev e - 1))"
    and fuel: "card (waited (V (revs i)) (keyPrefix e) (leaderRev e - 1)) < fuel"
  shows "\<exists>n'. campaign_wait c fuel j hdr e = Ret (None, e\<lparr>el_hdr := Some hdr\<rparr>, n') \<and>
    n' \<le> Suc j + 2 * card (waited (V (revs i)) (keyPrefix e) (leaderRev e - 1))"
proof -
  let ?m = "leaderRev e - 1" and ?w = "\<lambda>j. waited (V (revs j)) (keyPrefix e) (leaderRev e - 1)"
  have mono: "revs i \<le> revs j" using server_okD(3) [OF ok assms(4)] .
  have sub: "?w j \<subseteq> ?w i" using server_okD(2) [OF ok] assms(3) mono by (intro waited_mono) auto
  have card: "card (?w j) \<le> card (?w i)" using fin sub by (rule card_mono)
  have le: "?m \<le> revs j" using assms(3) mono by linarith
  have "card (?w j) < fuel" using card fuel by linarith
  from waitDeletes_terminates [OF ok assms(2) le finite_subset [OF sub fin] this] card show ?thesis
    by (force simp: campaign_wait_def)
qed

text \<open>
  What \<^verbatim>\<open>Campaign\<close> does after its transaction: it waits, unless the session had its key
  already with another value, which it first replaces.
\<close>

lemma Campaign_after_txn:
  assumes "e_txn c n [CreateEq (keyPrefix e @ hex_int (session e)) 0]
      [OpPut (keyPrefix e @ hex_int (session e)) val [WithLease (session e)]]
      [OpGet (keyPrefix e @ hex_int (session e)) no_opts] = Inl resp"
    and "if succeeded resp then tx_rev resp = create_rev y \<and> kv_value y = val else resp_kvs resp 0 = Ret [y]"
  defines "e1 \<equiv> e\<lparr>leaderKey := keyPrefix e @ hex_int (session e), leaderRev := create_rev y, leaderSession := Some (session e)\<rparr>"
  shows "Campaign c fuel n val e =
    (if succeeded resp \<or> kv_value y = val then campaign_wait c fuel (Suc n) (tx_rev resp) e1
     else case Proclaim c (Suc n) val e1 of
        (Some err, e) \<Rightarrow> Ret (Some err, snd (Resign c (n + 2) e), n + 3)
      | (None, e) \<Rightarrow> campaign_wait c fuel (n + 2) (tx_rev resp) e)"
proof -
  have e1: "e\<lparr>leaderKey := keyPrefix e @ hex_int (session e), leaderSession := Some (session e), leaderRev := create_rev y\<rparr> = e1"
    by (simp add: e1_def)
  show ?thesis
    using assms(1,2) by (cases "succeeded resp")
      (auto simp: Campaign_def Let_def first_kv_def campaign_value_def e1 e1_def split: prod.split option.split)
qed

text \<open>
  C16 (liveness).  A campaign is decided: when the server answers and, in each round of the wait,
  the key that the round waits for is deleted some time after it is watched, \<^verbatim>\<open>Campaign\<close>
  returns, after at most one round per key under the prefix created before its own; keys that came
  later may stay.  It has won, with its own key and that key's creation revision, unless the
  session's key was there before with another value and went away just before that value
  could be replaced.
\<close>

theorem campaign_returns:
  assumes ok: "server_ok V revs c" and own: "key = keyPrefix e @ hex_int (session e)"
    and t: "e_txn c n [CreateEq key 0] [OpPut key val [WithLease (session e)]] [OpGet key no_opts] = Inl resp"
    and y: "V (tx_rev resp) key = Some y"
    and replace: "\<not> succeeded resp \<and> kv_value y \<noteq> val \<Longrightarrow>
      \<exists>tresp. e_txn c (Suc n) [CreateEq key (create_rev y)] [OpPut key val [WithLease (session e)]] [] = Inl tresp"
    and served: "wait_served c (if succeeded resp \<or> kv_value y = val then Suc n else n + 2) (keyPrefix e) (create_rev y - 1)"
    and fin: "finite (waited (V (revs (Suc n))) (keyPrefix e) (create_rev y - 1))"
    and fuel: "card (waited (V (revs (Suc n))) (keyPrefix e) (create_rev y - 1)) < fuel"
  shows "\<exists>res e' n'. Campaign c fuel n val e = Ret (res, e', n') \<and>
    n' \<le> n + 3 + 2 * card (waited (V (revs (Suc n))) (keyPrefix e) (create_rev y - 1)) \<and>
    (res = None \<and> election_Key e' = key \<and> election_Rev e' = create_rev y \<or>
     res = Some ErrElectionNotLeader \<and> held (V (tx_rev resp)) key (create_rev y) \<and>
       revs n \<le> tx_rev resp \<and> tx_rev resp \<le> revs (Suc n) \<and> \<not> held (V (revs (Suc n))) key (create_rev y))"
proof -
  let ?w = "waited (V (revs (Suc n))) (keyPrefix e) (create_rev y - 1)"
  have x: "revs n \<le> tx_rev resp" "tx_rev resp \<le> revs (Suc n)" "create_rev y \<le> tx_rev resp"
    "if succeeded resp then tx_rev resp = create_rev y \<and> kv_value y = val else resp_kvs resp 0 = Ret [y]"
    using campaign_txn [OF ok t] y by force+
  let ?e = "e\<lparr>leaderKey := key, leaderRev := create_rev y, leaderSession := Some (session e)\<rparr>"
  note C = Campaign_after_txn [OF t [unfolded own] x(4), folded own]
  have wait: "\<exists>n'. campaign_wait c fuel j (tx_rev resp) e1 = Ret (None, e1\<lparr>el_hdr := Some (tx_rev resp)\<rparr>, n') \<and>
      n' \<le> Suc j + 2 * card ?w"
    if "leaderRev e1 = create_rev y" "keyPrefix e1 = keyPrefix e"
      "j = (if succeeded resp \<or> kv_value y = val then Suc n else n + 2)" for e1 j
    using campaign_wait_ends [OF ok, of j e1 "Suc n" fuel "tx_rev resp"] that served fin fuel x(2,3) by force
  show ?thesis
  proof (cases "succeeded resp \<or> kv_value y = val")
    case True
    with C wait [of ?e "Suc n"] show ?thesis by (auto simp: election_Key_def election_Rev_def)
  next
    case False
    then obtain tresp where tr: "e_txn c (Suc n) [CreateEq key (create_rev y)] [OpPut key val [WithLease (session e)]] [] = Inl tresp"
      using replace by blast
    show ?thesis
    proof (cases "succeeded tresp")
      case True
      then have "Proclaim c (Suc n) val ?e = (None, ?e\<lparr>el_hdr := Some (tx_rev tresp)\<rparr>)"
        using tr by (simp add: Proclaim_def)
      with C False wait [of "?e\<lparr>el_hdr := Some (tx_rev tresp)\<rparr>" "n + 2"] show ?thesis
        by (auto simp: election_Key_def election_Rev_def)
    next
      case lost: False
      then have "Proclaim c (Suc n) val ?e = (Some ErrElectionNotLeader, ?e\<lparr>leaderKey := ''''\<rparr>)"
        using tr by (simp add: Proclaim_def)
      moreover have "\<not> held (V (revs (Suc n))) key (create_rev y)"
        using server_okD(5) [OF ok tr, unfolded txn_ok_def] lost by (auto simp: held_def rev_of_def)
      moreover have "held (V (tx_rev resp)) key (create_rev y)" using y by (simp add: held_def)
      ultimately show ?thesis using C False x(1,2) by auto
    qed
  qed
qed

section \<open>Examples\<close>

text \<open>
  Leases 1 and 2 on the prefix \<^verbatim>\<open>l/\<close>: the key of lease 1 is there from revision 1 and deleted
  at revision 4; lease 2 campaigns by call 0 at revision 2 with value \<^verbatim>\<open>v\<close>, proclaims \<^verbatim>\<open>w\<close> by
  call 5 at revision 6 and resigns by call 6 at revision 7.
\<close>

definition el_hist :: history where
  "el_hist r k =
     (if k = ''l/1'' \<and> 1 \<le> r \<and> r < 4 then Some \<lparr>kv_key = ''l/1'', kv_value = ''u'', create_rev = 1, mod_rev = 1\<rparr>
      else if k = ''l/2'' \<and> 2 \<le> r \<and> r < 6 then Some \<lparr>kv_key = ''l/2'', kv_value = ''v'', create_rev = 2, mod_rev = 2\<rparr>
      else if k = ''l/2'' \<and> r = 6 then Some \<lparr>kv_key = ''l/2'', kv_value = ''w'', create_rev = 2, mod_rev = 6\<rparr>
      else None)"

definition el_revs :: "nat \<Rightarrow> int" where
  "el_revs n = (if n = 0 then 1 else if n = 1 then 2 else if n \<le> 4 then 4 else if n \<le> 6 then int n else 7)"

text \<open>\<open>lost\<close>: the watch of the older key ends without its deletion.\<close>

definition el_etcd :: "bool \<Rightarrow> string etcd" where
  "el_etcd lost = \<lparr>
     e_txn = (\<lambda>n cmps thens elses.
       if n = 0 \<and> cmps = [CreateEq ''l/2'' 0] \<and> thens = [OpPut ''l/2'' ''v'' [WithLease 2]]
       then Inl \<lparr>succeeded = True, tx_rev = 2, responses = [None]\<rparr>
       else if n = 5 \<and> cmps = [CreateEq ''l/2'' 2] \<and> thens = [OpPut ''l/2'' ''w'' [WithLease 2]]
       then Inl \<lparr>succeeded = True, tx_rev = 6, responses = [None]\<rparr>
       else if n = 6 \<and> cmps = [CreateEq ''l/2'' 2] \<and> thens = [OpDelete ''l/2'']
       then Inl \<lparr>succeeded = True, tx_rev = 7, responses = [None]\<rparr>
       else Inr ''unavailable''),
     e_get = (\<lambda>n req. Inl (range_get [''l/1'', ''l/2''] el_hist (el_revs n) req)),
     e_delete = (\<lambda>n key. Inr ''unavailable''),
     e_watch = (\<lambda>n key rv. \<lparr>wresps = (if key = ''l/1'' \<and> 2 \<le> n \<and> rv \<le> 4 \<and> \<not> lost
       then [\<lparr>wr_hdr = 4, events = [DeleteEvent], wr_err = None\<rparr>] else []), wclosed = True\<rparr>),
     e_watch_prefix = (\<lambda>n key rv. \<lparr>wresps = [], wclosed = True\<rparr>),
     e_ctx = (\<lambda>n. None)\<rparr>"

lemma el_hist_Some:
  "el_hist r k = Some x \<longleftrightarrow>
    k = ''l/1'' \<and> 1 \<le> r \<and> r < 4 \<and> x = \<lparr>kv_key = ''l/1'', kv_value = ''u'', create_rev = 1, mod_rev = 1\<rparr> \<or>
    k = ''l/2'' \<and> 2 \<le> r \<and> r < 6 \<and> x = \<lparr>kv_key = ''l/2'', kv_value = ''v'', create_rev = 2, mod_rev = 2\<rparr> \<or>
    k = ''l/2'' \<and> r = 6 \<and> x = \<lparr>kv_key = ''l/2'', kv_value = ''w'', create_rev = 2, mod_rev = 6\<rparr>"
  by (auto simp: el_hist_def)

lemma el_hist_ok: "history_ok el_hist" "continuous el_hist" "one_per_rev el_hist ''l/''"
proof -
  show "history_ok el_hist" unfolding history_ok_def el_hist_Some
    by (intro conjI allI impI; elim conjE disjE, simp_all)
  show "continuous el_hist" unfolding continuous_def
  proof (intro allI impI)
    fix r q k x
    assume "el_hist r k = Some x \<and> create_rev x \<le> q \<and> q \<le> r"
    then show "\<exists>y. el_hist q k = Some y \<and> create_rev y = create_rev x"
      by (cases "q < 6") (auto simp: el_hist_Some)
  qed
  show "one_per_rev el_hist ''l/''" unfolding one_per_rev_def el_hist_Some
    by (intro allI impI, elim conjE disjE, simp_all)
qed

lemma el_hist_dom: "dom (el_hist r) \<subseteq> set [''l/1'', ''l/2'']" unfolding dom_def by (auto simp: el_hist_Some)

lemma el_etcd_txn:
  "e_txn (el_etcd lost) n cmps thens elses = Inl resp \<Longrightarrow> txn_ok el_hist (el_revs n) (el_revs (Suc n)) cmps thens elses resp"
  by (auto simp: el_etcd_def txn_ok_def el_revs_def rev_of_def el_hist_def fun_eq_iff split: if_splits)

lemma el_etcd_watch:
  "sees_delete (e_watch (el_etcd lost) n key rv) \<Longrightarrow> \<exists>q. rv \<le> q \<and> q \<le> el_revs (Suc n) \<and> el_hist q key = None"
 by (intro exI [of _ 4]) (auto simp: sees_delete_def el_etcd_def el_revs_def el_hist_def split: if_splits)

lemma el_etcd_ok: "server_ok el_hist el_revs (el_etcd lost)"
proof -
  have "el_revs n \<le> el_revs (Suc n)" for n by (simp add: el_revs_def)
  moreover have "get_ok el_hist (el_revs n) req resp" if "e_get (el_etcd lost) n req = Inl resp" for n req resp
    using that range_get_ok [OF el_hist_dom, where req = req] by (auto simp: el_etcd_def)
  ultimately show ?thesis
    using el_hist_ok el_etcd_txn el_etcd_watch unfolding server_ok_def by blast
qed

definition el_demo :: Election where "el_demo = NewElection 2 ''l''"

lemma el_demo_won: "Campaign (el_etcd False) 3 0 ''v'' el_demo = Ret (None,
    \<lparr>session = 2, keyPrefix = ''l/'', leaderKey = ''l/2'', leaderRev = 2, leaderSession = Some 2, el_hdr = Some 2\<rparr>, 4)"
  by code_simp

lemma el_demo_lost: "Campaign (el_etcd True) 3 0 ''v'' el_demo = Ret (Some (WaitFailed LostWatcher),
    \<lparr>session = 2, keyPrefix = ''l/'', leaderKey = ''l/2'', leaderRev = 2, leaderSession = None, el_hdr = None\<rparr>, 5)"
  by code_simp

lemma el_demo_one: "one_per_rev el_hist (keyPrefix el_demo)"
  using el_hist_ok(3) by (simp add: el_demo_def NewElection_def)

lemma el_demo_held: "held (el_hist 5) ''l/2'' 2"
  by (simp add: held_def el_hist_def)

text \<open>The queue of three: the campaign of lease 2 waits for the leases 3 and 1 in turn.\<close>

theorem campaign_returns_witness:
  "(\<exists>e' n'. Campaign queue_etcd 3 0 '''' el_demo = Ret (None, e', n') \<and> election_Key e' = ''l/2'' \<and>
      election_Rev e' = 3 \<and> n' \<le> 7) \<and>
   Campaign queue_etcd 2 0 '''' el_demo = Blocked \<and> waited (queue_hist 3) ''l/'' 2 = {''l/1'', ''l/3''}"
proof -
  have own: "''l/2'' = keyPrefix el_demo @ hex_int (session el_demo)" by code_simp
  let ?resp = "\<lparr>succeeded = True, tx_rev = 3, responses = [None]\<rparr>"
  have t: "e_txn queue_etcd 0 [CreateEq ''l/2'' 0] [OpPut ''l/2'' '''' [WithLease (session el_demo)]]
      [OpGet ''l/2'' no_opts] = Inl ?resp"
    by (simp add: queue_etcd_def el_demo_def NewElection_def)
  have y: "queue_hist (tx_rev ?resp) ''l/2'' = Some (queue_key ''l/2'' 3)" by (simp add: queue_hist_def)
  have eq: "keyPrefix el_demo = ''l/''" "create_rev (queue_key ''l/2'' 3) = 3" "(3::int) - 1 = 2" "queue_revs (Suc 0) = 3"
    by (simp_all add: el_demo_def NewElection_def queue_key_def queue_revs_def)
  have alive: "held (queue_hist (queue_revs (Suc 0))) ''l/2'' (create_rev (queue_key ''l/2'' 3))"
    by (simp add: held_def queue_hist_def queue_revs_def)
  have "\<exists>res e' n'. Campaign queue_etcd 3 0 '''' el_demo = Ret (res, e', n') \<and>
    n' \<le> 0 + 3 + 2 * card (waited (queue_hist (queue_revs (Suc 0))) (keyPrefix el_demo) (create_rev (queue_key ''l/2'' 3) - 1)) \<and>
    (res = None \<and> election_Key e' = ''l/2'' \<and> election_Rev e' = create_rev (queue_key ''l/2'' 3) \<or>
     res = Some ErrElectionNotLeader \<and> held (queue_hist (tx_rev ?resp)) ''l/2'' (create_rev (queue_key ''l/2'' 3)) \<and>
       queue_revs 0 \<le> tx_rev ?resp \<and> tx_rev ?resp \<le> queue_revs (Suc 0) \<and>
       \<not> held (queue_hist (queue_revs (Suc 0))) ''l/2'' (create_rev (queue_key ''l/2'' 3)))"
    by (rule campaign_returns [OF queue_etcd_ok own t y]) (simp_all only: eq queue_waited, use queue_served in simp_all)
  moreover have "Campaign queue_etcd 2 0 '''' el_demo = Blocked" by code_simp
  ultimately show ?thesis using alive unfolding eq queue_waited by auto
qed

lemma election_safety_witness:
  "\<exists>e'. Campaign (el_etcd False) 3 0 ''v'' el_demo = Ret (None, e', 4) \<and>
    held (el_hist 5) (election_Key e') (election_Rev e') \<and> session el_demo = session el_demo \<and> election_Rev e' = election_Rev e'"
proof -
  let ?e = "\<lparr>session = 2, keyPrefix = ''l/'', leaderKey = ''l/2'', leaderRev = 2, leaderSession = Some 2, el_hdr = Some 2\<rparr>"
  have r: "el_revs 4 \<le> 5" by (simp add: el_revs_def)
  have h: "held (el_hist 5) (election_Key ?e) (election_Rev ?e)"
    using el_demo_held by (simp add: election_Key_def election_Rev_def)
  from election_safety [OF el_etcd_ok el_demo_won el_etcd_ok el_demo_won refl el_demo_one r r h h] el_demo_won h
  show ?thesis by blast
qed

lemma leader_reports_winner_witness:
  "\<exists>x resp. Leader (el_etcd False) 5 el_demo = Inr resp \<and> kvs resp = [x] \<and> kv_key x = ''l/2'' \<and> create_rev x = 2"
proof -
  let ?e = "\<lparr>session = 2, keyPrefix = ''l/'', leaderKey = ''l/2'', leaderRev = 2, leaderSession = Some 2, el_hdr = Some 2\<rparr>"
  have r: "el_revs 4 \<le> el_revs 5" by (simp add: el_revs_def)
  have h: "held (el_hist (el_revs 5)) (election_Key ?e) (election_Rev ?e)"
    using el_demo_held by (simp add: election_Key_def election_Rev_def el_revs_def)
  have g: "e_get (el_etcd False) 5 (FirstCreate (keyPrefix el_demo)) \<noteq> Inr err" for err by (simp add: el_etcd_def)
  have ok: "server_ok el_hist el_revs (el_etcd False)" by (rule el_etcd_ok)
  from leader_reports_winner [OF ok el_demo_won ok refl el_demo_one r h] g
  show ?thesis by (auto simp: election_Key_def election_Rev_def split: sum.splits)
qed

lemma proclaim_by_leader_witness:
  "\<exists>e' e''. Campaign (el_etcd False) 3 0 ''v'' el_demo = Ret (None, e', 4) \<and>
    Proclaim (el_etcd False) 5 ''w'' e' = (None, e'') \<and> el_hist 6 ''l/2'' \<noteq> el_hist 5 ''l/2'' \<and>
    (\<exists>y. el_hist 6 = (el_hist 5)(''l/2'' \<mapsto> y) \<and> kv_value y = ''w'')"
proof -
  let ?e = "\<lparr>session = 2, keyPrefix = ''l/'', leaderKey = ''l/2'', leaderRev = 2, leaderSession = Some 2, el_hdr = Some 2\<rparr>"
  have p: "Proclaim (el_etcd False) 5 ''w'' ?e = (None, ?e\<lparr>el_hdr := Some 6\<rparr>)"
    by (simp add: Proclaim_def el_etcd_def)
  have "(4::nat) \<le> 5" by simp
  from proclaim_by_leader [OF el_etcd_ok el_demo_won this, of "''w''"]
  have "\<exists>y. el_hist 6 = (el_hist 5)(''l/2'' \<mapsto> y) \<and> kv_value y = ''w''"
    unfolding p by (auto simp: election_Key_def el_revs_def)
  moreover have "el_hist 6 ''l/2'' \<noteq> el_hist 5 ''l/2''" by (simp add: el_hist_def)
  ultimately show ?thesis using el_demo_won p by blast
qed

lemma resign_gives_up_witness:
  "\<exists>e' e''. Campaign (el_etcd False) 3 0 ''v'' el_demo = Ret (None, e', 4) \<and> Resign (el_etcd False) 6 e' = (None, e'') \<and>
    election_Key e'' = '''' \<and> \<not> held (el_hist 7) (election_Key e') (election_Rev e')"
proof -
  let ?e = "\<lparr>session = 2, keyPrefix = ''l/'', leaderKey = ''l/2'', leaderRev = 2, leaderSession = Some 2, el_hdr = Some 2\<rparr>"
  have r: "Resign (el_etcd False) 6 ?e = (None, ?e\<lparr>el_hdr := Some 7, leaderKey := '''', leaderSession := None\<rparr>)"
    by (simp add: Resign_def el_etcd_def)
  have le: "(4::nat) \<le> 6" by simp
  note g = resign_gives_up [OF el_etcd_ok el_demo_won le r]
  have "el_revs (Suc 6) \<le> 7" by (simp add: el_revs_def)
  with g have "\<not> held (el_hist 7) (election_Key ?e) (election_Rev ?e)" by blast
  with g el_demo_won r show ?thesis by blast
qed

text \<open>
  A \<^verbatim>\<open>Campaign\<close> whose watch is lost returns an error and forgets its session but not
  its key: \<^verbatim>\<open>Key\<close> still names it, \<^verbatim>\<open>Resign\<close> does nothing, the key stays in the store, and once the
  older candidate is gone \<^verbatim>\<open>Leader\<close> reports the failed campaigner.
\<close>

theorem lost_campaign_leads:
  "\<exists>V revs (c :: string etcd) e' resp x. server_ok V revs c \<and>
    Campaign c 3 0 ''v'' el_demo = Ret (Some (WaitFailed LostWatcher), e', 5) \<and>
    election_Key e' \<noteq> '''' \<and> Resign c 5 e' = (None, e') \<and> Proclaim c 5 ''w'' e' = (Some ErrElectionNotLeader, e') \<and>
    held (V (revs 5)) (election_Key e') (election_Rev e') \<and>
    Leader c 5 el_demo = Inr resp \<and> kvs resp = [x] \<and> kv_key x = election_Key e'"
proof -
  let ?e = "\<lparr>session = 2, keyPrefix = ''l/'', leaderKey = ''l/2'', leaderRev = 2, leaderSession = None, el_hdr = None\<rparr>"
  let ?x = "\<lparr>kv_key = ''l/2'', kv_value = ''v'', create_rev = 2, mod_rev = 2\<rparr>"
  have l: "Leader (el_etcd True) 5 el_demo = Inr \<lparr>hdr_rev = 5, kvs = [?x]\<rparr>" by code_simp
  have "held (el_hist (el_revs 5)) (election_Key ?e) (election_Rev ?e)"
    using el_demo_held by (simp add: election_Key_def election_Rev_def el_revs_def)
  then show ?thesis using el_etcd_ok el_demo_lost l
    by (intro exI [of _ el_hist] exI [of _ el_revs] exI [of _ "el_etcd True"] exI [of _ ?e]
        exI [of _ "\<lparr>hdr_rev = 5, kvs = [?x]\<rparr>"] exI [of _ ?x])
      (simp add: election_Key_def Resign_def Proclaim_def)
qed

end
