(* ===== verification/Observe.thy ===== *)
theory Observe
  imports Election
begin

text \<open>
  What \<^verbatim>\<open>Observe\<close> of \<^verbatim>\<open>grpclient/concurrency/election.go\<close> reports, against the history of the
  store.
\<close>

section \<open>What etcd documents of a watch\<close>

text \<open>The changes of one key from a revision up to another, in order and without gaps.\<close>

definition change_at :: "history \<Rightarrow> string \<Rightarrow> int \<Rightarrow> event list" where
  "change_at V k r =
     (case V r k of
        Some x \<Rightarrow> if mod_rev x = r then [PutEvent x] else []
      | None \<Rightarrow> if V (r - 1) k \<noteq> None then [DeleteEvent] else [])"

definition key_log :: "history \<Rightarrow> string \<Rightarrow> int \<Rightarrow> int \<Rightarrow> event list" where
  "key_log V k r q = concat (map (change_at V k) [r..q])"

definition all_events :: "'err watchchan \<Rightarrow> event list" where
  "all_events wch = concat (map events (wresps wch))"

text \<open>
  A watch of a key delivers its changes up to some revision before the next call; the first
  put that a watch of a prefix delivers is the first put under the prefix.
\<close>

definition watch_ok :: "history \<Rightarrow> (nat \<Rightarrow> int) \<Rightarrow> 'err etcd \<Rightarrow> bool" where
  "watch_ok V revs c \<longleftrightarrow>
     (\<forall>n k r. \<exists>q \<le> revs (Suc n). all_events (e_watch c n k r) = key_log V k r q) \<and>
     (\<forall>n pfx r x. first_put (all_events (e_watch_prefix c n pfx r)) = Some x \<longrightarrow>
        HasPrefix (kv_key x) pfx \<and> r \<le> mod_rev x \<and> mod_rev x \<le> revs (Suc n) \<and> V (mod_rev x) (kv_key x) = Some x \<and>
        (\<forall>q k y. r \<le> q \<and> q < mod_rev x \<and> HasPrefix k pfx \<and> V q k = Some y \<longrightarrow> mod_rev y < r))"

lemma watch_okD:
  assumes "watch_ok V revs c"
  shows "\<exists>q \<le> revs (Suc n). all_events (e_watch c n k r) = key_log V k r q"
    and "first_put (all_events (e_watch_prefix c n pfx r)) = Some x \<Longrightarrow>
        HasPrefix (kv_key x) pfx \<and> r \<le> mod_rev x \<and> mod_rev x \<le> revs (Suc n) \<and> V (mod_rev x) (kv_key x) = Some x \<and>
        (\<forall>q k y. r \<le> q \<and> q < mod_rev x \<and> HasPrefix k pfx \<and> V q k = Some y \<longrightarrow> mod_rev y < r)"
  using assms unfolding watch_ok_def by blast+

section \<open>One leader\<close>

text \<open>The values put before the key is deleted, and whether it was.\<close>

fun puts_until :: "event list \<Rightarrow> kv list" where
  "puts_until [] = []"
| "puts_until (DeleteEvent # evs) = []"
| "puts_until (PutEvent x # evs) = x # puts_until evs"

lemma key_events_ok:
  "map kvs (fst (key_events hdr evs)) = map (\<lambda>x. [x]) (puts_until evs) \<and>
   (snd (key_events hdr evs) \<longleftrightarrow> DeleteEvent \<in> set evs)"
  by (induction evs rule: puts_until.induct) (auto simp: Let_def split: prod.splits)

lemma puts_until_append:
  "puts_until (xs @ ys) = (if DeleteEvent \<in> set xs then puts_until xs else puts_until xs @ puts_until ys)"
  by (induction xs rule: puts_until.induct) auto

lemma follow_key_ok:
  "map kvs (fst (follow_key wrs)) = map (\<lambda>x. [x]) (puts_until (concat (map events wrs))) \<and>
   (snd (follow_key wrs) \<longleftrightarrow> DeleteEvent \<in> set (concat (map events wrs)))"
proof (induction wrs)
  case (Cons wr wrs)
  with key_events_ok [of "wr_hdr wr" "events wr"] show ?case
    by (auto simp: puts_until_append Let_def split: prod.splits)
qed simp

lemma first_put_append: "first_put xs = None \<Longrightarrow> first_put (xs @ ys) = first_put ys"
  by (induction xs rule: first_put.induct) simp_all

lemma first_put_append_Some: "first_put xs = Some x \<Longrightarrow> first_put (xs @ ys) = Some x"
  by (induction xs rule: first_put.induct) simp_all

lemma wait_put_Found: "wait_put wrs cl = Found r x \<Longrightarrow> r = mod_rev x \<and> first_put (concat (map events wrs)) = Some x"
  by (induction wrs) (auto simp: first_put_append first_put_append_Some split: if_splits option.splits)

text \<open>A deletion in the log is a revision at which the key was gone.\<close>

lemma key_log_deleted:
  assumes "DeleteEvent \<in> set (key_log V k r q)"
  shows "\<exists>d. r \<le> d \<and> d \<le> q \<and> V d k = None"
  using assms by (auto simp: key_log_def change_at_def split: option.splits if_splits)

lemma followed_deleted:
  assumes "all_events wch = key_log V k r q" and "snd (follow_key (wresps wch))"
  shows "\<exists>d. r \<le> d \<and> d \<le> q \<and> V d k = None"
proof -
  have "DeleteEvent \<in> set (key_log V k r q)"
    using assms follow_key_ok [of "wresps wch"] unfolding all_events_def by metis
  then show ?thesis by (rule key_log_deleted)
qed

text \<open>
  What is sent while one key leads: the first message is the first key under the prefix at
  the revision of its header, the others are the values this key is given from then on, as
  long as it is not deleted.
\<close>

definition segment_ok :: "history \<Rightarrow> string \<Rightarrow> getresp list \<Rightarrow> bool" where
  "segment_ok V pfx s \<longleftrightarrow> (\<exists>r x q rest. s = \<lparr>hdr_rev = r, kvs = [x]\<rparr> # rest \<and> is_first (V r) pfx [x] \<and>
     map kvs rest = map (\<lambda>y. [y]) (puts_until (key_log V (kv_key x) (r + 1) q)))"

definition succeeds :: "history \<Rightarrow> getresp list \<Rightarrow> getresp list \<Rightarrow> bool" where
  "succeeds V s t \<longleftrightarrow> hdr_rev (hd s) < hdr_rev (hd t) \<and>
     (\<forall>x. kvs (hd s) = [x] \<longrightarrow> \<not> held (V (hdr_rev (hd t))) (kv_key x) (create_rev x))"

text \<open>After an empty read, the first put under the prefix is the first key there.\<close>

lemma first_put_leads:
  assumes "server_ok V revs c" and "watch_ok V revs c" and "is_first (V r) pfx []"
    and "first_put (all_events (e_watch_prefix c n pfx r)) = Some x"
  shows "is_first (V (mod_rev x)) pfx [x]"
proof -
  note w = watch_okD(2) [OF assms(2,4)]
  note hist = server_okD(1) [OF assms(1)] and cont = server_okD(2) [OF assms(1)]
  have new: "create_rev y = mod_rev x" if u: "under (V (mod_rev x)) pfx y" for y
  proof -
    obtain k where k: "V (mod_rev x) k = Some y" "HasPrefix k pfx" using u by (auto simp: under_def)
    have le: "create_rev y \<le> mod_rev x" using hist k(1) unfolding history_ok_def by (meson order_trans)
    have gt: "r < create_rev y"
    proof (rule ccontr)
      assume "\<not> r < create_rev y"
      with continuousD [OF cont k(1), of r] w obtain z where "V r k = Some z" by auto
      with k(2) assms(3) show False by (auto simp: is_first_def under_def)
    qed
    obtain z where z: "V (create_rev y) k = Some z" "create_rev z = create_rev y"
      using continuousD [OF cont k(1) order_refl le] by blast
    have "create_rev z \<le> mod_rev z" using hist z(1) unfolding history_ok_def by blast
    have "\<not> create_rev y < mod_rev x"
    proof
      assume "create_rev y < mod_rev x"
      with w gt k(2) z(1) have "mod_rev z < r" by (meson less_imp_le)
      with gt z(2) \<open>create_rev z \<le> mod_rev z\<close> show False by linarith
    qed
    with le show ?thesis by linarith
  qed
  have "under (V (mod_rev x)) pfx x" using w by (auto simp: under_def)
  with new show ?thesis by (auto simp: is_first_def)
qed

section \<open>All leaders\<close>

definition head_of :: "'err etcd \<Rightarrow> nat \<Rightarrow> string \<Rightarrow> getresp \<Rightarrow> found" where
  "head_of c n pfx resp =
     (case kvs resp of
        [] \<Rightarrow> (let wch = e_watch_prefix c (Suc n) pfx (hdr_rev resp) in wait_put (wresps wch) (wclosed wch))
      | kv # _ \<Rightarrow> Found (hdr_rev resp) kv)"

lemma head_of_Found:
  assumes "server_ok V revs c" and "watch_ok V revs c"
    and "e_get c n (FirstCreate pfx) = Inl resp" and "head_of c n pfx resp = Found r x"
  shows "is_first (V r) pfx [x] \<and> revs n \<le> r \<and> r \<le> revs (n + 2)"
proof -
  have g: "hdr_rev resp = revs n" "is_first (V (revs n)) pfx (kvs resp)"
    using server_okD(4) [OF assms(1,3)] by simp_all
  show ?thesis
  proof (cases "kvs resp")
    case Nil
    with assms(4) g(1) have w: "wait_put (wresps (e_watch_prefix c (Suc n) pfx (revs n)))
        (wclosed (e_watch_prefix c (Suc n) pfx (revs n))) = Found r x"
      by (simp add: head_of_def Let_def)
    from wait_put_Found [OF this] have r: "r = mod_rev x"
      and x: "first_put (all_events (e_watch_prefix c (Suc n) pfx (revs n))) = Some x"
      by (simp_all add: all_events_def)
    from first_put_leads [OF assms(1,2) _ x] watch_okD(2) [OF assms(2) x] g Nil r show ?thesis by simp
  next
    case (Cons y ys)
    with assms(4) g have "y = x" "r = revs n" "kvs resp = [x]" by (auto simp: head_of_def is_first_def)
    with g server_okD(3) [OF assms(1), of n "n + 2"] show ?thesis by simp
  qed
qed

text \<open>One round: the messages about one leader, and whether its key was deleted.\<close>

lemma observe_round:
  assumes "e_get c n (FirstCreate pfx) = Inl resp" and "head_of c n pfx resp = Found r x"
  defines "w \<equiv> follow_key (wresps (e_watch c (n + 2) (kv_key x) (r + 1)))"
  defines "s \<equiv> \<lparr>hdr_rev = r, kvs = [x]\<rparr> # fst w"
  shows "fst (observe c (Suc fuel) n pfx) = (if snd w then s @ fst (observe c fuel (n + 3) pfx) else s)"
  using assms(1,2) unfolding s_def w_def head_of_def
  by (simp add: Let_def split: prod.splits list.splits)

lemma observe_stops:
  assumes "\<And>resp r x. e_get c n (FirstCreate pfx) = Inl resp \<Longrightarrow> head_of c n pfx resp \<noteq> Found r x"
  shows "fst (observe c (Suc fuel) n pfx) = []"
proof (cases "e_get c n (FirstCreate pfx)")
  case (Inl resp)
  with assms have "head_of c n pfx resp \<in> {Disrupted, Waiting}" by (cases "head_of c n pfx resp") auto
  with Inl show ?thesis by (auto simp: head_of_def Let_def split: list.splits)
qed simp

lemma first_created: "history_ok V \<Longrightarrow> is_first (V r) pfx [x] \<Longrightarrow> create_rev x \<le> r"
  by (auto simp: is_first_def under_def history_ok_def) (meson order_trans)

lemma observe_segments:
  assumes ok: "server_ok V revs c" and w: "watch_ok V revs c"
  shows "\<exists>segs. fst (observe c fuel n pfx) = concat segs \<and> (\<forall>s \<in> set segs. segment_ok V pfx s) \<and>
    sorted_wrt (succeeds V) segs \<and> (\<forall>s \<in> set segs. revs n \<le> hdr_rev (hd s))"
proof (induction fuel arbitrary: n)
  case 0
  show ?case by (intro exI [of _ "[]"]) simp
next
  case (Suc fuel)
  show ?case
  proof (cases "\<exists>resp r x. e_get c n (FirstCreate pfx) = Inl resp \<and> head_of c n pfx resp = Found r x")
    case True
    then obtain resp r x where g: "e_get c n (FirstCreate pfx) = Inl resp" "head_of c n pfx resp = Found r x" by blast
    note head = head_of_Found [OF ok w g]
    let ?wch = "e_watch c (n + 2) (kv_key x) (r + 1)"
    let ?s = "\<lparr>hdr_rev = r, kvs = [x]\<rparr> # fst (follow_key (wresps ?wch))"
    obtain q where q: "q \<le> revs (n + 3)" "all_events ?wch = key_log V (kv_key x) (r + 1) q"
      using watch_okD(1) [OF w, of "n + 2" "kv_key x" "r + 1"] by (auto simp: eval_nat_numeral)
    have s: "segment_ok V pfx ?s"
      using head follow_key_ok [of "wresps ?wch"] q(2) by (fastforce simp: segment_ok_def all_events_def)
    have one: "\<forall>s \<in> set [?s]. revs n \<le> hdr_rev (hd s)" using head by simp
    show ?thesis
    proof (cases "snd (follow_key (wresps ?wch))")
      case False
      then have "fst (observe c (Suc fuel) n pfx) = concat [?s]" using observe_round [OF g] by simp
      with s one show ?thesis by (intro exI [of _ "[?s]"]) simp
    next
      case True
      then obtain d where d: "r + 1 \<le> d" "d \<le> q" "V d (kv_key x) = None"
        using followed_deleted [OF q(2)] by blast
      obtain segs where segs: "fst (observe c fuel (n + 3) pfx) = concat segs" "\<forall>s \<in> set segs. segment_ok V pfx s"
        "sorted_wrt (succeeds V) segs" "\<forall>s \<in> set segs. revs (n + 3) \<le> hdr_rev (hd s)"
        using Suc.IH by blast
      have "create_rev x \<le> r"
        using head first_created [OF server_okD(1) [OF ok]] by blast
      then have "\<not> held (V t) (kv_key x) (create_rev x)" if "revs (n + 3) \<le> t" for t
        using gone_forever [OF server_okD(2) [OF ok], of d "kv_key x" "create_rev x" t] d q(1) that
        by (auto simp: held_def)
      with segs(4) d q(1) have "\<forall>t \<in> set segs. succeeds V ?s t" by (fastforce simp: succeeds_def)
      moreover have "fst (observe c (Suc fuel) n pfx) = concat (?s # segs)"
        using observe_round [OF g] True segs(1) by simp
      moreover have "\<forall>s \<in> set segs. revs n \<le> hdr_rev (hd s)"
        using segs(4) server_okD(3) [OF ok, of n "n + 3"] by fastforce
      ultimately show ?thesis using s one segs(2,3) by (intro exI [of _ "?s # segs"]) simp
    qed
  next
    case False
    then have "fst (observe c (Suc fuel) n pfx) = concat []" using observe_stops by fastforce
    then show ?thesis by (intro exI [of _ "[]"]) simp
  qed
qed

text \<open>
  C24 (refinement).  What \<^verbatim>\<open>Observe\<close> sends is the story of the leaders: it falls into segments, each of
  which starts with the first key under the prefix as of the revision of its header and
  goes on with exactly the values that key is given, none missed and none repeated, while
  it lives; every segment starts later than the one before it, when the key of that one was
  gone.
\<close>

theorem observe_reports_leaders:
  assumes "server_ok V revs c" and "watch_ok V revs c"
  shows "\<exists>segs. fst (Observe_from c fuel n e) = concat segs \<and> (\<forall>s \<in> set segs. segment_ok V (keyPrefix e) s) \<and>
    sorted_wrt (succeeds V) segs"
  using observe_segments [OF assms] unfolding Observe_from_def by blast

section \<open>An example\<close>

text \<open>The store of the election's example, with watches that deliver what happened up to the next call.\<close>

definition obs_etcd :: "string etcd" where
  "obs_etcd = (el_etcd False)\<lparr>e_watch := \<lambda>n k r.
     \<lparr>wresps = [\<lparr>wr_hdr = el_revs (Suc n), events = key_log el_hist k r (el_revs (Suc n)), wr_err = None\<rparr>],
      wclosed = True\<rparr>\<rparr>"

lemma obs_etcd_ok: "server_ok el_hist el_revs obs_etcd" "watch_ok el_hist el_revs obs_etcd"
proof -
  have same: "e_txn obs_etcd = e_txn (el_etcd False)" "e_get obs_etcd = e_get (el_etcd False)"
    by (simp_all add: obs_etcd_def)
  have log: "all_events (e_watch obs_etcd n k r) = key_log el_hist k r (el_revs (Suc n))" for n k r
    by (simp add: obs_etcd_def all_events_def)
  have "sees_delete (e_watch obs_etcd n k r) \<Longrightarrow> \<exists>q. r \<le> q \<and> q \<le> el_revs (Suc n) \<and> el_hist q k = None" for n k r
    using key_log_deleted [of el_hist k r "el_revs (Suc n)"]
    by (auto simp: sees_delete_def obs_etcd_def split: if_splits)
  with el_etcd_ok [of False] show "server_ok el_hist el_revs obs_etcd"
    unfolding server_ok_def same by blast
  have "all_events (e_watch_prefix obs_etcd n pfx r) = []" for n pfx r
    by (simp add: all_events_def obs_etcd_def el_etcd_def)
  with log show "watch_ok el_hist el_revs obs_etcd" unfolding watch_ok_def by auto
qed

lemma obs_run: "observe obs_etcd 3 1 ''l/'' =
    ([\<lparr>hdr_rev = 2, kvs = [\<lparr>kv_key = ''l/1'', kv_value = ''u'', create_rev = 1, mod_rev = 1\<rparr>]\<rparr>,
      \<lparr>hdr_rev = 4, kvs = [\<lparr>kv_key = ''l/2'', kv_value = ''v'', create_rev = 2, mod_rev = 2\<rparr>]\<rparr>,
      \<lparr>hdr_rev = 7, kvs = [\<lparr>kv_key = ''l/2'', kv_value = ''w'', create_rev = 2, mod_rev = 6\<rparr>]\<rparr>], True)"
  by code_simp

lemma observe_reports_leaders_witness:
  "\<exists>segs. fst (Observe_from obs_etcd 3 1 el_demo) = concat segs \<and> length (fst (Observe_from obs_etcd 3 1 el_demo)) = 3 \<and>
    (\<forall>s \<in> set segs. segment_ok el_hist ''l/'' s) \<and> sorted_wrt (succeeds el_hist) segs"
  using observe_reports_leaders [OF obs_etcd_ok, of 3 1 el_demo] obs_run
  by (auto simp: Observe_from_def el_demo_def NewElection_def)

end
