(* ===== verification/ReconnectLoop.thy ===== *)
theory ReconnectLoop
  imports WatchStream
begin

text \<open>
  \<^verbatim>\<open>openWatchClient\<close> is modelled twice: as the function \<open>openWatchClient\<close> along what the network
  does (WatchClient), and as the steps of \<^verbatim>\<open>run\<close> while it reconnects, with everything else in
  between (WatchStream).  Here the two are shown to be the same, and then what the steps reach is stated
  without either of them.
\<close>

section \<open>The loop in steps\<close>

text \<open>A step of a stream while it reconnects; the caller's context may end between any two.\<close>

definition loop_step :: "'err grpc_errors \<Rightarrow> 'err wgs \<Rightarrow> 'err wgs \<Rightarrow> bool" where
  "loop_step g w w' \<longleftrightarrow> reconnecting (run w) \<and> (\<exists>pdone. sstep g pdone w w')"

text \<open>Where \<^verbatim>\<open>run\<close> is when the loop has come to a result.\<close>

fun loop_target :: "bool \<Rightarrow> 'err wgs \<Rightarrow> (unit, 'err) open_result \<Rightarrow> 'err wgs" where
  "loop_target first w (Opened ws) = connected first w"
| "loop_target first w (OpenFailed e) = w\<lparr>run := RDeferSend e\<rparr>"
| "loop_target first w (Again st) = w\<lparr>run := ROpen first st\<rparr>"
| "loop_target first w OpenReturnedNil = w"

definition dials :: "(unit, 'err) attempt list \<Rightarrow> bool" where
  "dials as \<longleftrightarrow> (\<forall>a \<in> set as. rpc_Watch_result a)"

lemma dials_simps [simp]: "dials []" "dials (a # as) \<longleftrightarrow> rpc_Watch_result a \<and> dials as"
  by (simp_all add: dials_def)

lemma classify_not_nil: "rpc_Watch_result a \<Longrightarrow> open_classify g a st \<noteq> OpenReturnedNil"
  by (auto simp: rpc_Watch_result_def open_classify_def Let_def split: option.splits)

lemma classify_select: "open_classify g (a\<lparr>at_select := x\<rparr>) st = open_classify g a st"
  by (cases a, hypsubst, unfold open_classify_def attempt.update_convs attempt.select_convs, rule refl)

lemma connected_run: "connected first (w\<lparr>run := pc\<rparr>) = connected first w"
  by (simp add: connected_def Let_def)

text \<open>One round of the function is two steps.\<close>

lemma round_steps:
  fixes w :: "'err wgs"
  assumes "\<not> cancelled w" and "rpc_Watch_result a" and r: "open_round g a st = r"
  shows "(loop_step g)\<^sup>*\<^sup>* (w\<lparr>run := ROpen first st\<rparr>) (loop_target first w r)"
proof (cases "at_select a")
  case (Some e)
  then have "sstep g True (w\<lparr>run := ROpen first st\<rparr>) (w\<lparr>run := ROpen first st\<rparr>\<lparr>run := RDeferSend e\<rparr>)"
    by (intro sstep.open_done [where first = first and st = st]) (simp_all add: ctx_over_def)
  then have "loop_step g (w\<lparr>run := ROpen first st\<rparr>) (w\<lparr>run := RDeferSend e\<rparr>)" by (auto simp: loop_step_def)
  then show ?thesis using r Some by (auto simp: open_round_def)
next
  case None
  then have cl: "open_classify g a st = r" using r by (simp add: open_round_def)
  let ?o = "w\<lparr>run := ROpen first st\<rparr>" and ?d = "w\<lparr>run := RDial first st\<rparr>"
  have "sstep g False ?o (?o\<lparr>run := RDial first st\<rparr>)"
    using assms(1) by (intro sstep.open_go) (simp_all add: ctx_over_def)
  then have 1: "loop_step g ?o ?d" by (auto simp: loop_step_def)
  obtain pdone e where at: "Some (at_classify a) = ctx_at pdone ?d e"
    using that [of False undefined] that [of True "the (at_classify a)"] assms(1)
    by (cases "at_classify a") (simp_all add: ctx_at_def ctx_over_def)
  have "sstep g pdone ?d (loop_target first w r)"
  proof (cases r)
    case (Opened ws)
    with sstep.dial_ok [of ?d first st a pdone e g ws] assms(2) at cl show ?thesis by (simp add: connected_run)
  next
    case (OpenFailed err)
    with sstep.dial_failed [of ?d first st a pdone e g err] assms(2) at cl show ?thesis by simp
  next
    case (Again st')
    with sstep.dial_again [of ?d first st a pdone e g st'] assms(2) at cl show ?thesis by simp
  next
    case OpenReturnedNil
    with classify_not_nil [OF assms(2)] cl show ?thesis by blast
  qed
  then have "loop_step g ?d (loop_target first w r)" by (auto simp: loop_step_def)
  with 1 show ?thesis by (meson converse_rtranclp_into_rtranclp r_into_rtranclp)
qed

lemma loop_steps:
  assumes "\<not> cancelled w" and "dials as"
  shows "(loop_step g)\<^sup>*\<^sup>* (w\<lparr>run := ROpen first st\<rparr>) (loop_target first w (openWatchClient g as st))"
  using assms(2)
proof (induction as arbitrary: st)
  case (Cons a as)
  show ?case
  proof (cases "open_round g a st")
    case (Again st')
    from round_steps [OF assms(1) _ Again, of first] Cons.prems
    have "(loop_step g)\<^sup>*\<^sup>* (w\<lparr>run := ROpen first st\<rparr>) (w\<lparr>run := ROpen first st'\<rparr>)" by simp
    also have "(loop_step g)\<^sup>*\<^sup>* \<dots> (loop_target first w (openWatchClient g as st'))"
      using Cons by simp
    finally show ?thesis using Again by simp
  qed (use round_steps [OF assms(1), of a g st _ first] Cons.prems in auto)
qed simp

section \<open>The steps are the loop\<close>

lemma from_open:
  assumes "sstep g pdone w w'" and "run w = ROpen first st" and "\<forall>pc \<in> set (serves w). pc = SExit"
  shows "(\<exists>e. w' = w\<lparr>run := RDeferSend e\<rparr>) \<or> w' = w\<lparr>run := RDial first st\<rparr>"
  using assms(1,2) all_set_conv_all_nth [THEN iffD1, OF assms(3)] by (cases rule: sstep.cases) auto

lemma from_dial:
  assumes "sstep g pdone w w'" and "run w = RDial first st" and "\<forall>pc \<in> set (serves w). pc = SExit"
  shows "\<exists>a. rpc_Watch_result a \<and> w' = loop_target first w (open_classify g a st) \<and> open_classify g a st \<noteq> OpenReturnedNil"
  using assms
proof (cases rule: sstep.cases)
  case (dial_ok first st a e ws)
  then show ?thesis using assms(2) by (intro exI [of _ a]) simp
next
  case (dial_failed first st a e err)
  then show ?thesis using assms(2) by (intro exI [of _ a]) simp
next
  case (dial_again first st a e st')
  then show ?thesis using assms(2) by (intro exI [of _ a]) simp
qed (use assms(2) all_set_conv_all_nth [THEN iffD1, OF assms(3)] in auto)

lemma loop_stays:
  assumes "(loop_step g)\<^sup>*\<^sup>* w w'" and "\<not> reconnecting (run w)"
  shows "w' = w"
  using assms by (induction rule: converse_rtranclp_induct) (auto simp: loop_step_def)

lemma same_run: "w\<lparr>run := x\<rparr> = w\<lparr>run := y\<rparr> \<longleftrightarrow> x = y" for w :: "'err wgs"
  by (metis wgs.select_convs(7) wgs.surjective wgs.update_convs(7))

lemma loop_target_inj:
  assumes "loop_target first w r = loop_target first w r'" and "r \<noteq> OpenReturnedNil" and "r' \<noteq> OpenReturnedNil"
  shows "r = r'"
proof -
  have "run (loop_target first w r) = run (loop_target first w r')" using assms(1) by simp
  then show ?thesis using assms(2,3) by (cases r; cases r') simp_all
qed

definition aborted :: "'err \<Rightarrow> (unit, 'err) attempt" where
  "aborted e = \<lparr>at_select = Some e, got_stream = Some (), got_err = None, at_classify = None\<rparr>"

lemma steps_loop:
  fixes w :: "'err wgs"
  assumes "(loop_step g)\<^sup>*\<^sup>* x (loop_target first w r)" and nil: "r \<noteq> OpenReturnedNil"
    and ex: "\<forall>pc \<in> set (serves w). pc = SExit"
  shows "(\<forall>st. x = w\<lparr>run := ROpen first st\<rparr> \<longrightarrow> (\<exists>as. dials as \<and> openWatchClient g as st = r)) \<and>
    (\<forall>st. x = w\<lparr>run := RDial first st\<rparr> \<longrightarrow> (\<exists>a as. dials (a # as) \<and> openWatchClient g (a # as) st = r))"
  using assms(1)
proof (induction rule: converse_rtranclp_induct)
  case base
  have "r = Again st" if "loop_target first w r = w\<lparr>run := ROpen first st\<rparr>" for st
    using loop_target_inj [OF _ nil, of first w "Again st"] that by simp
  moreover have "loop_target first w r \<noteq> w\<lparr>run := RDial first st\<rparr>" for st
  proof
    assume "loop_target first w r = w\<lparr>run := RDial first st\<rparr>"
    then have "run (loop_target first w r) = RDial first st" by simp
    with nil show False by (cases r) simp_all
  qed
  ultimately show ?case by (auto intro!: exI [of _ "[]"])
next
  case (step x y)
  obtain pdone where s: "sstep g pdone x y" using step(1) by (auto simp: loop_step_def)
  have "\<exists>as. dials as \<and> openWatchClient g as st = r" if x: "x = w\<lparr>run := ROpen first st\<rparr>" for st
  proof -
    from from_open [OF s, of first st] x ex consider e where "y = w\<lparr>run := RDeferSend e\<rparr>" | "y = w\<lparr>run := RDial first st\<rparr>"
      by auto
    then show ?thesis
    proof cases
      case (1 e)
      with loop_stays [OF step(2)] have "loop_target first w (OpenFailed e) = loop_target first w r" by simp
      from loop_target_inj [OF this _ nil] have "r = OpenFailed e" by simp
      then show ?thesis
        by (intro exI [of _ "[aborted e]"]) (simp add: aborted_def rpc_Watch_result_def open_round_def)
    next
      case 2
      with step(3) show ?thesis by blast
    qed
  qed
  moreover have "\<exists>a as. dials (a # as) \<and> openWatchClient g (a # as) st = r" if x: "x = w\<lparr>run := RDial first st\<rparr>" for st
  proof -
    from from_dial [OF s, of first st] x ex obtain a where a: "rpc_Watch_result a" "open_classify g a st \<noteq> OpenReturnedNil"
      "y = loop_target first (w\<lparr>run := RDial first st\<rparr>) (open_classify g a st)" by auto
    let ?a = "a\<lparr>at_select := None\<rparr>"
    have b: "rpc_Watch_result ?a" "open_round g ?a st = open_classify g a st"
      using a(1) by (simp_all add: rpc_Watch_result_def open_round_def classify_select)
    have y: "y = loop_target first w (open_classify g a st)"
      using a(2,3) by (cases "open_classify g a st") (simp_all add: connected_run)
    show ?thesis
    proof (cases "open_classify g a st")
      case (Again st')
      with y step(3) obtain as where "dials as" "openWatchClient g as st' = r" by auto
      then show ?thesis using b Again by (intro exI [of _ ?a] exI [of _ as]) simp
    next
      case (Opened ws)
      with y loop_stays [OF step(2)] have "loop_target first w (Opened ws) = loop_target first w r" by simp
      from loop_target_inj [OF this _ nil] have "r = Opened ws" by simp
      then show ?thesis using b Opened by (intro exI [of _ ?a] exI [of _ "[]"]) simp
    next
      case (OpenFailed e)
      with y loop_stays [OF step(2)] have "loop_target first w (OpenFailed e) = loop_target first w r" by simp
      from loop_target_inj [OF this _ nil] have "r = OpenFailed e" by simp
      then show ?thesis using b OpenFailed by (intro exI [of _ ?a] exI [of _ "[]"]) simp
    qed (use a(2) in simp)
  qed
  ultimately show ?case by blast
qed

text \<open>
  The two models of the reconnect loop agree.  From the start of the loop with
  the variables \<open>st\<close>, the steps of a stream whose own context is alive reach exactly the
  results that the function computes along some sequence of dials: a connection, the error
  the loop gives up with, or another round with the loop variables, the backoff among them.
\<close>

theorem loop_is_function:
  fixes w :: "'err wgs"
  assumes "stream_inv w" and "run w = ROpen first st" and "\<not> cancelled w" and "r \<noteq> OpenReturnedNil"
  shows "(loop_step g)\<^sup>*\<^sup>* w (loop_target first w r) \<longleftrightarrow> (\<exists>as. dials as \<and> openWatchClient g as st = r)"
proof -
  have w: "w = w\<lparr>run := ROpen first st\<rparr>" using assms(2) by (cases w) simp
  have inv: "serve_inv w" using assms(1) by (simp add: stream_inv_def)
  then have "newest w = SExit" using assms(2) by (simp add: serve_inv_def idle_def)
  then have ex: "\<forall>pc \<in> set (serves w). pc = SExit" using serve_inv_all_exit [OF inv] by blast
  show ?thesis
  proof
    assume "(loop_step g)\<^sup>*\<^sup>* w (loop_target first w r)"
    from steps_loop [OF this assms(4) ex] w show "\<exists>as. dials as \<and> openWatchClient g as st = r" by blast
  next
    assume "\<exists>as. dials as \<and> openWatchClient g as st = r"
    then obtain as where "dials as" "openWatchClient g as st = r" by blast
    with loop_steps [OF assms(3) this(1), of g first st] w show "(loop_step g)\<^sup>*\<^sup>* w (loop_target first w r)" by simp
  qed
qed

theorem loop_is_function_witness:
  "(loop_step demo_errors)\<^sup>*\<^sup>* (newWatcherGrpcStream 0 ''w'' \<lparr>wcr_watchID = ''w'', wcr_app = demo_app\<rparr>)
     (connected True (newWatcherGrpcStream 0 ''w'' \<lparr>wcr_watchID = ''w'', wcr_app = demo_app\<rparr>))"
proof -
  let ?w = "newWatcherGrpcStream 0 ''w'' \<lparr>wcr_watchID = ''w'', wcr_app = demo_app\<rparr> :: demo_err wgs"
  let ?a = "\<lparr>at_select = None, got_stream = Some (), got_err = None, at_classify = None\<rparr> :: (unit, demo_err) attempt"
  have "dials [?a]" "openWatchClient demo_errors [?a] open_init = Opened ()"
    by (simp_all add: rpc_Watch_result_def open_round_def open_classify_def)
  moreover have "run ?w = ROpen True open_init" "\<not> cancelled ?w" by (simp_all add: newWatcherGrpcStream_def)
  ultimately show ?thesis
    using loop_is_function [OF new_stream_inv, of _ _ _ True open_init "Opened ()" demo_errors] by fastforce
qed

section \<open>What the loop does\<close>

text \<open>
  The loop variables after \<open>n\<close> sleeps, by a schedule of their own: one millisecond at first, a
  quarter more before each sleep, two seconds at most.
\<close>

fun ref_backoff :: "nat \<Rightarrow> int" where
  "ref_backoff 0 = 1000000"
| "ref_backoff (Suc n) = min 2000000000 (5 * ref_backoff n div 4)"

definition after_sleeps :: "nat \<Rightarrow> open_state" where
  "after_sleeps n = \<lparr>backoff = ref_backoff n, retryTimes = int n, slept = map ref_backoff [1..<Suc n]\<rparr>"

definition slept_once :: "open_state \<Rightarrow> open_state" where
  "slept_once st = (let b = next_backoff (backoff st) in \<lparr>backoff = b, retryTimes = retryTimes st + 1, slept = slept st @ [b]\<rparr>)"

lemma ref_backoff_max: "ref_backoff n \<le> 2000000000"
  by (cases n) simp_all

lemma after_sleeps_simps: "after_sleeps 0 = open_init" "slept_once (after_sleeps n) = after_sleeps (Suc n)"
proof -
  show "after_sleeps 0 = open_init" by (simp add: after_sleeps_def open_init_def Millisecond_def)
  have "b + b div 4 = 5 * b div 4" for b :: int by simp
  then have "next_backoff (ref_backoff n) = ref_backoff (Suc n)"
    using ref_backoff_max [of n] by (auto simp: next_backoff_def maxBackoff_eq Let_def min_def)
  then show "slept_once (after_sleeps n) = after_sleeps (Suc n)" by (simp add: slept_once_def after_sleeps_def Let_def)
qed

text \<open>What an error of a dial means.\<close>

definition sleeps_on :: "'err grpc_errors \<Rightarrow> 'err \<Rightarrow> bool" where
  "sleeps_on g e \<longleftrightarrow> (\<exists>msg. FromError g e = ((Unavailable, msg), True))"

definition gives_up_on :: "'err grpc_errors \<Rightarrow> 'err \<Rightarrow> bool" where
  "gives_up_on g e \<longleftrightarrow> (\<exists>c msg ok. FromError g e = ((c, msg), ok) \<and> c \<noteq> Unavailable \<and> c \<noteq> Internal)"

text \<open>The classification of a dial's result, by the context's error at that moment.\<close>

lemma classify_ok: "rpc_Watch_result a \<Longrightarrow> got_err a = None \<Longrightarrow> \<exists>ws. open_classify g a st = Opened ws"
  by (auto simp: rpc_Watch_result_def open_classify_def)

lemma classify_err:
  assumes "rpc_Watch_result a" and "got_err a = Some e"
  shows "open_classify g a st =
    (if at_classify a \<noteq> None \<or> gives_up_on g e then OpenFailed e
     else if sleeps_on g e then Again (slept_once st) else Again st)"
proof -
  obtain c msg ok where e: "FromError g e = ((c, msg), ok)" by (metis surj_pair)
  have "got_stream a = None" using assms by (simp add: rpc_Watch_result_def)
  then show ?thesis
    by (cases "at_classify a")
      (simp_all add: open_classify_def assms(2) isHaltErr_def isUnavailableErr_def ctx_done_def gives_up_on_def
        sleeps_on_def slept_once_def e Let_def)
qed

section \<open>The loop while the context is alive, and after it\<close>

definition live_step :: "'err grpc_errors \<Rightarrow> 'err wgs \<Rightarrow> 'err wgs \<Rightarrow> bool" where
  "live_step g w w' \<longleftrightarrow> reconnecting (run w) \<and> sstep g False w w'"

definition silent :: "'err wgs \<Rightarrow> bool" where
  "silent w \<longleftrightarrow> \<not> cancelled w \<and> (\<forall>pc \<in> set (serves w). pc = SExit)"

lemma silent_run [simp]: "silent (w\<lparr>run := pc\<rparr>) = silent w"
  by (simp add: silent_def)

lemma silent_serve: "silent w \<Longrightarrow> k < length (serves w) \<Longrightarrow> serves w ! k = SExit"
  by (simp add: silent_def)

lemma live_open:
  assumes "silent w" and "run w = ROpen first st"
  shows "sstep g False w w' \<longleftrightarrow> w' = w\<lparr>run := RDial first st\<rparr>"
proof
  assume s: "sstep g False w w'"
  have "\<not> cancelled w" using assms(1) by (simp add: silent_def)
  with s assms(2) silent_serve [OF assms(1)] show "w' = w\<lparr>run := RDial first st\<rparr>"
    by (cases rule: sstep.cases) (auto simp: ctx_over_def)
next
  assume "w' = w\<lparr>run := RDial first st\<rparr>"
  with assms show "sstep g False w w'" by (auto simp: ctx_over_def silent_def intro!: sstep.open_go)
qed

lemma over_open:
  assumes "silent w" and "run w = ROpen first st" and "sstep g True w w'"
  shows "\<exists>e. w' = w\<lparr>run := RDeferSend e\<rparr>"
  using assms(3) assms(2) silent_serve [OF assms(1)] by (cases rule: sstep.cases) (auto simp: ctx_over_def)

text \<open>A dial under either context: the result is classified with what the context says.\<close>

lemma dial_step:
  assumes "silent w" and "run w = RDial first st" and "sstep g pdone w w'"
  obtains a where "rpc_Watch_result a" "(at_classify a = None) = (\<not> pdone)" "w' = loop_target first w (open_classify g a st)"
proof -
  have at: "(at_classify a = None) = (\<not> pdone)" if "Some (at_classify a) = ctx_at pdone w e" for a :: "(unit, _) attempt" and e
    using that assms(1) by (cases pdone) (auto simp: ctx_at_def ctx_over_def silent_def)
  show ?thesis
    using assms(3)
  proof (cases rule: sstep.cases)
    case (dial_ok first' st' a e ws)
    then show ?thesis using assms(2) at by (intro that [of a]) auto
  next
    case (dial_failed first' st' a e err)
    then show ?thesis using assms(2) at by (intro that [of a]) auto
  next
    case (dial_again first' st' a e st'')
    then show ?thesis using assms(2) at by (intro that [of a]) auto
  qed (use assms(2) silent_serve [OF assms(1)] in auto)
qed

lemma live_dial:
  assumes "silent w" and "run w = RDial first st" and "sstep g False w w'"
  shows "w' = connected first w \<or> w' = w\<lparr>run := ROpen first st\<rparr> \<or>
    (\<exists>e. gives_up_on g e \<and> w' = w\<lparr>run := RDeferSend e\<rparr>) \<or>
    (\<exists>e. sleeps_on g e \<and> w' = w\<lparr>run := ROpen first (slept_once st)\<rparr>)"
proof -
  obtain a where a: "rpc_Watch_result a" "at_classify a = None" "w' = loop_target first w (open_classify g a st)"
    using assms by (rule dial_step) simp
  show ?thesis
  proof (cases "got_err a")
    case None
    with classify_ok [OF a(1), of g st] a(3) show ?thesis by auto
  next
    case (Some e)
    with classify_err [OF a(1) Some, of g st] a(2,3) show ?thesis by (auto split: if_splits)
  qed
qed

lemma over_dial:
  assumes "silent w" and "run w = RDial first st" and "sstep g True w w'"
  shows "w' = connected first w \<or> (\<exists>e. w' = w\<lparr>run := RDeferSend e\<rparr>)"
proof -
  obtain a where a: "rpc_Watch_result a" "at_classify a \<noteq> None" "w' = loop_target first w (open_classify g a st)"
    using assms by (rule dial_step) simp
  show ?thesis
  proof (cases "got_err a")
    case None
    with classify_ok [OF a(1), of g st] a(3) show ?thesis by auto
  next
    case (Some e)
    with classify_err [OF a(1) Some, of g st] a(2,3) show ?thesis by auto
  qed
qed

text \<open>And each of these is possible.\<close>

definition dialled :: "'err option \<Rightarrow> (unit, 'err) attempt" where
  "dialled err = \<lparr>at_select = None, got_stream = (if err = None then Some () else None), got_err = err, at_classify = None\<rparr>"

lemma dialled_simps [simp]:
  "rpc_Watch_result (dialled err)" "got_err (dialled err) = err" "at_classify (dialled err) = None"
  by (simp_all add: rpc_Watch_result_def dialled_def)

lemma dial_possible:
  assumes "silent w" and "run w = RDial first st"
  shows "sstep g False w (loop_target first w (open_classify g (dialled err) st))"
proof -
  have at: "Some (at_classify (dialled err)) = ctx_at False w undefined"
    using assms(1) by (simp add: ctx_at_def ctx_over_def silent_def)
  show ?thesis
  proof (cases "open_classify g (dialled err) st")
    case (Opened ws)
    then show ?thesis using sstep.dial_ok [OF assms(2) _ at] by simp
  next
    case (OpenFailed e)
    then show ?thesis using sstep.dial_failed [OF assms(2) _ at] by simp
  next
    case (Again st')
    then show ?thesis using sstep.dial_again [OF assms(2) _ at] by simp
  qed (use classify_not_nil [of "dialled err" g st] in simp)
qed

lemma dial_possible_cases:
  assumes "silent w" and "run w = RDial first st"
  shows "sstep g False w (connected first w)"
    and "gives_up_on g e \<Longrightarrow> sstep g False w (w\<lparr>run := RDeferSend e\<rparr>)"
    and "sleeps_on g e \<Longrightarrow> sstep g False w (w\<lparr>run := ROpen first (slept_once st)\<rparr>)"
proof -
  show "sstep g False w (connected first w)"
    using dial_possible [OF assms, of g None] classify_ok [of "dialled None" g st] by auto
  have "\<not> gives_up_on g e" if "sleeps_on g e" using that by (auto simp: sleeps_on_def gives_up_on_def)
  with dial_possible [OF assms, of g "Some e"] classify_err [of "dialled (Some e)" e g st]
  show "gives_up_on g e \<Longrightarrow> sstep g False w (w\<lparr>run := RDeferSend e\<rparr>)"
    and "sleeps_on g e \<Longrightarrow> sstep g False w (w\<lparr>run := ROpen first (slept_once st)\<rparr>)" by simp_all
qed

lemma live_reaches_round:
  assumes "silent w" and "run w = ROpen first open_init" and "n = 0 \<or> (\<exists>e. sleeps_on g e)"
  shows "(live_step g)\<^sup>*\<^sup>* w (w\<lparr>run := ROpen first (after_sleeps n)\<rparr>) \<and>
    (live_step g)\<^sup>*\<^sup>* w (w\<lparr>run := RDial first (after_sleeps n)\<rparr>)"
proof -
  let ?o = "\<lambda>n. w\<lparr>run := ROpen first (after_sleeps n)\<rparr>" and ?d = "\<lambda>n. w\<lparr>run := RDial first (after_sleeps n)\<rparr>"
  have dial: "live_step g (?o n) (?d n)" for n
    using live_open [of "?o n" first "after_sleeps n" g "?d n"] assms(1) by (simp add: live_step_def)
  have "(live_step g)\<^sup>*\<^sup>* w (?o n)" using assms(3)
  proof (induction n)
    case 0
    have "?o 0 = w" using assms(2) by (simp add: after_sleeps_simps(1))
    then show ?case by simp
  next
    case (Suc n)
    then obtain e where e: "sleeps_on g e" by auto
    with dial_possible_cases(3) [of "?d n" first "after_sleeps n" g e] assms(1)
    have "live_step g (?d n) (?o (Suc n))" by (simp add: live_step_def after_sleeps_simps(2))
    moreover have "(live_step g)\<^sup>*\<^sup>* w (?d n)" using Suc.IH e dial by (blast intro: rtranclp.rtrancl_into_rtrancl)
    ultimately show ?case by (rule rtranclp.rtrancl_into_rtrancl [rotated])
  qed
  with dial show ?thesis by (meson rtranclp.rtrancl_into_rtrancl)
qed

text \<open>Where a live loop is, and where it leads.\<close>

definition looping :: "'err grpc_errors \<Rightarrow> bool \<Rightarrow> 'err wgs \<Rightarrow> 'err wgs \<Rightarrow> bool" where
  "looping g first w x \<longleftrightarrow> (\<exists>n. (n = 0 \<or> (\<exists>e msg. FromError g e = ((Unavailable, msg), True))) \<and>
     (x = w\<lparr>run := ROpen first (after_sleeps n)\<rparr> \<or> x = w\<lparr>run := RDial first (after_sleeps n)\<rparr>))"

definition led_out :: "'err grpc_errors \<Rightarrow> bool \<Rightarrow> 'err wgs \<Rightarrow> 'err wgs \<Rightarrow> bool" where
  "led_out g first w x \<longleftrightarrow> x = connected first w \<or>
     (\<exists>e c msg ok. FromError g e = ((c, msg), ok) \<and> c \<noteq> Unavailable \<and> c \<noteq> Internal \<and> x = w\<lparr>run := RDeferSend e\<rparr>)"

lemma led_out_iff: "led_out g first w x \<longleftrightarrow> x = connected first w \<or> (\<exists>e. gives_up_on g e \<and> x = w\<lparr>run := RDeferSend e\<rparr>)"
  unfolding led_out_def gives_up_on_def by blast

lemma looping_iff: "looping g first w x \<longleftrightarrow> (\<exists>n. (n = 0 \<or> (\<exists>e. sleeps_on g e)) \<and>
    (x = w\<lparr>run := ROpen first (after_sleeps n)\<rparr> \<or> x = w\<lparr>run := RDial first (after_sleeps n)\<rparr>))"
  unfolding looping_def sleeps_on_def by blast

lemma live_reaches:
  assumes "(live_step g)\<^sup>*\<^sup>* w x" and s: "silent w" and w: "run w = ROpen first open_init"
  shows "looping g first w x \<or> led_out g first w x"
  using assms(1)
proof (induction rule: rtranclp_induct)
  case base
  have "w = w\<lparr>run := ROpen first (after_sleeps 0)\<rparr>" using w by (simp add: after_sleeps_simps(1))
  then show ?case unfolding looping_def by blast
next
  case (step x y)
  from step(2) have rec: "reconnecting (run x)" and go: "sstep g False x y" by (simp_all add: live_step_def)
  then have "looping g first w x" using step(3) by (auto simp: led_out_def)
  then obtain n where n: "n = 0 \<or> (\<exists>e. sleeps_on g e)"
    "x = w\<lparr>run := ROpen first (after_sleeps n)\<rparr> \<or> x = w\<lparr>run := RDial first (after_sleeps n)\<rparr>"
    unfolding looping_iff by blast
  from n(2) show ?case
  proof
    assume x: "x = w\<lparr>run := ROpen first (after_sleeps n)\<rparr>"
    have "y = w\<lparr>run := RDial first (after_sleeps n)\<rparr>"
      using live_open [of x first "after_sleeps n" g y] go s x by simp
    with n(1) show ?thesis unfolding looping_iff by blast
  next
    assume x: "x = w\<lparr>run := RDial first (after_sleeps n)\<rparr>"
    from live_dial [of x first "after_sleeps n" g y] go s x consider "y = connected first w"
      | "y = w\<lparr>run := ROpen first (after_sleeps n)\<rparr>" | e where "gives_up_on g e" "y = w\<lparr>run := RDeferSend e\<rparr>"
      | e where "sleeps_on g e" "y = w\<lparr>run := ROpen first (after_sleeps (Suc n))\<rparr>"
      by (auto simp: connected_run after_sleeps_simps(2))
    then show ?thesis using n(1) unfolding looping_iff led_out_iff by cases blast+
  qed
qed

lemma live_reached:
  assumes "looping g first w x \<or> led_out g first w x" and s: "silent w" and w: "run w = ROpen first open_init"
  shows "(live_step g)\<^sup>*\<^sup>* w x"
  using assms(1)
proof
  assume "looping g first w x"
  then show ?thesis using live_reaches_round [OF s w] unfolding looping_iff by blast
next
  let ?d = "w\<lparr>run := RDial first (after_sleeps 0)\<rparr>"
  assume "led_out g first w x"
  then have "live_step g ?d x"
    using dial_possible_cases [of ?d first "after_sleeps 0" g] s by (auto simp: live_step_def connected_run led_out_iff)
  moreover have "(live_step g)\<^sup>*\<^sup>* w ?d" using live_reaches_round [OF s w] by blast
  ultimately show ?thesis by (rule rtranclp.rtrancl_into_rtrancl [rotated])
qed

lemma over_ends:
  assumes "looping g first w x" and s: "silent w" and "sstep g True x y"
  shows "(\<exists>e. y = w\<lparr>run := RDeferSend e\<rparr>) \<or> (y = connected first w \<and> (\<exists>st. run x = RDial first st))"
proof -
  obtain n where "x = w\<lparr>run := ROpen first (after_sleeps n)\<rparr> \<or> x = w\<lparr>run := RDial first (after_sleeps n)\<rparr>"
    using assms(1) unfolding looping_def by blast
  then show ?thesis
    using over_open [of x first "after_sleeps n" g y] over_dial [of x first "after_sleeps n" g y] assms(3) s
    by (auto simp: connected_run)
qed

text \<open>
  C21 (functional).  What a reconnect loop does.  While its context is alive, the states that the
  steps of the stream reach from the start of \<^verbatim>\<open>openWatchClient\<close> are exactly these: before or in a dial with the
  loop variables after \<open>n\<close> sleeps, where the backoff starts at one millisecond, grows by a
  quarter before each sleep and stops at two seconds, and only an error with code Unavailable makes
  it sleep; connected, with the receiving goroutine started and, after a reconnect, the
  initial request sent again; or at the end of \<^verbatim>\<open>run\<close> with an error of a dial whose code is neither
  Unavailable nor Internal.  And once the context has ended there is no further round: the
  next step ends \<^verbatim>\<open>run\<close> with an error, or it is the success of the dial under way.
\<close>

theorem reconnect_loop_reaches:
  fixes w :: "'err wgs"
  assumes "stream_inv w" and "run w = ROpen first open_init" and "\<not> cancelled w"
  shows "(\<forall>w'. (live_step g)\<^sup>*\<^sup>* w w' \<longleftrightarrow>
      (\<exists>n. (n = 0 \<or> (\<exists>e msg. FromError g e = ((Unavailable, msg), True))) \<and>
         (w' = w\<lparr>run := ROpen first (after_sleeps n)\<rparr> \<or> w' = w\<lparr>run := RDial first (after_sleeps n)\<rparr>)) \<or>
      w' = connected first w \<or>
      (\<exists>e c msg ok. FromError g e = ((c, msg), ok) \<and> c \<noteq> Unavailable \<and> c \<noteq> Internal \<and> w' = w\<lparr>run := RDeferSend e\<rparr>)) \<and>
    (\<forall>x w'. (live_step g)\<^sup>*\<^sup>* w x \<and> reconnecting (run x) \<and> sstep g True x w' \<longrightarrow>
      (\<exists>e. w' = w\<lparr>run := RDeferSend e\<rparr>) \<or> (w' = connected first w \<and> (\<exists>st. run x = RDial first st)))"
proof -
  have inv: "serve_inv w" using assms(1) by (simp add: stream_inv_def)
  then have "newest w = SExit" using assms(2) by (simp add: serve_inv_def idle_def)
  then have s: "silent w" using serve_inv_all_exit [OF inv] assms(3) by (auto simp: silent_def)
  have reach: "(live_step g)\<^sup>*\<^sup>* w x \<longleftrightarrow> looping g first w x \<or> led_out g first w x" for x
    using live_reaches [OF _ s assms(2)] live_reached [OF _ s assms(2)] by blast
  have "(\<exists>e. y = w\<lparr>run := RDeferSend e\<rparr>) \<or> (y = connected first w \<and> (\<exists>st. run x = RDial first st))"
    if "(live_step g)\<^sup>*\<^sup>* w x" "reconnecting (run x)" "sstep g True x y" for x y
  proof -
    have "looping g first w x" using that(1,2) reach [of x] by (auto simp: led_out_def)
    then show ?thesis using s that(3) by (rule over_ends)
  qed
  then have "\<forall>x w'. (live_step g)\<^sup>*\<^sup>* w x \<and> reconnecting (run x) \<and> sstep g True x w' \<longrightarrow>
      (\<exists>e. w' = w\<lparr>run := RDeferSend e\<rparr>) \<or> (w' = connected first w \<and> (\<exists>st. run x = RDial first st))"
    by (intro allI impI, elim conjE)
  with allI [OF reach [unfolded looping_def led_out_def]] show ?thesis by (rule conjI)
qed

text \<open>
  A new stream: two dials that fail with Unavailable make it sleep for 1.25 and 1.5625
  milliseconds, an Unimplemented ends it, an Internal never does.
\<close>

theorem reconnect_loop_reaches_witness:
  "let w = newWatcherGrpcStream 0 ''w'' \<lparr>wcr_watchID = ''w'', wcr_app = demo_app\<rparr> :: demo_err wgs
   in (live_step demo_errors)\<^sup>*\<^sup>* w (w\<lparr>run := ROpen True \<lparr>backoff = 1562500, retryTimes = 2, slept = [1250000, 1562500]\<rparr>\<rparr>) \<and>
      (live_step demo_errors)\<^sup>*\<^sup>* w (w\<lparr>run := RDeferSend (StatusErr Unimplemented ''no'')\<rparr>) \<and>
      \<not> (live_step demo_errors)\<^sup>*\<^sup>* w (w\<lparr>run := RDeferSend (StatusErr Internal ''io'')\<rparr>)"
proof -
  let ?w = "newWatcherGrpcStream 0 ''w'' \<lparr>wcr_watchID = ''w'', wcr_app = demo_app\<rparr> :: demo_err wgs"
  have w: "run ?w = ROpen True open_init" "\<not> cancelled ?w" by (simp_all add: newWatcherGrpcStream_def)
  have codes: "FromError demo_errors (StatusErr c m) = ((c, m), True)" for c m by (simp add: demo_errors_def)
  have two: "after_sleeps 2 = \<lparr>backoff = 1562500, retryTimes = 2, slept = [1250000, 1562500]\<rparr>"
    by (simp add: after_sleeps_def numeral_eq_Suc)
  note reach = reconnect_loop_reaches [OF new_stream_inv w, THEN conjunct1, rule_format, of demo_errors]
  have "(live_step demo_errors)\<^sup>*\<^sup>* ?w (?w\<lparr>run := ROpen True (after_sleeps 2)\<rparr>)"
    unfolding reach using codes by blast
  moreover have "(live_step demo_errors)\<^sup>*\<^sup>* ?w (?w\<lparr>run := RDeferSend (StatusErr Unimplemented ''no'')\<rparr>)"
    unfolding reach using codes [of Unimplemented "''no''"] by fastforce
  moreover have "\<not> (live_step demo_errors)\<^sup>*\<^sup>* ?w (?w\<lparr>run := RDeferSend (StatusErr Internal ''io'')\<rparr>)"
    unfolding reach using codes [of Internal "''io''"] by (auto simp: same_run connected_def newWatcherGrpcStream_def Let_def)
  ultimately show ?thesis by (simp add: two Let_def)
qed

end
