(* ===== verification/Logger.thy ===== *)
theory Logger
  imports Prelude
begin

text \<open>
  \<^verbatim>\<open>watchclient/logger.go\<close>: how the logger of the watch client is put together.  The encoders, the
  rotation of the files and the writing itself are those of \<^verbatim>\<open>zap\<close> and \<^verbatim>\<open>lumberjack\<close>, and appear
  here by name only.
\<close>

section \<open>The configuration\<close>

datatype level_encoder = LowercaseLevelEncoder | CapitalLevelEncoder | CapitalColorLevelEncoder
datatype time_encoder = ISO8601TimeEncoder
datatype duration_encoder = SecondsDurationEncoder
datatype caller_encoder = FullCallerEncoder

record EncoderConfig =
  TimeKey :: string
  LevelKey :: string
  NameKey :: string
  CallerKey :: string
  MessageKey :: string
  StacktraceKey :: string
  LineEnding :: string
  EncodeLevel :: level_encoder
  EncodeTime :: time_encoder
  EncodeDuration :: duration_encoder
  EncodeCaller :: caller_encoder

text \<open>A rotated file: sizes in megabytes, ages in days.\<close>

record rotated =
  Filename :: string
  MaxSize :: nat
  MaxBackups :: nat
  MaxAge :: nat
  Compress :: bool

datatype sink = LockedStderr | RotatedFile rotated

text \<open>A logger: a console encoder, its sinks, the level from which on it writes, and its options.\<close>

record logger =
  lg_encoder :: EncoderConfig
  lg_sinks :: "sink list"
  lg_level :: int
  lg_caller :: bool

definition DefaultLineEnding :: string where "DefaultLineEnding = [CHR 0x0A]"

definition newLogger :: "string \<Rightarrow> int \<Rightarrow> logger" where
  "newLogger logFilename level =
     (let encoderConfig = \<lparr>TimeKey = ''time'', LevelKey = ''level'', NameKey = ''logger'', CallerKey = ''caller'',
            MessageKey = ''msg'', StacktraceKey = ''stacktrace'', LineEnding = DefaultLineEnding,
            EncodeLevel = CapitalColorLevelEncoder, EncodeTime = ISO8601TimeEncoder,
            EncodeDuration = SecondsDurationEncoder, EncodeCaller = FullCallerEncoder\<rparr>;
          hook = \<lparr>Filename = logFilename, MaxSize = 512, MaxBackups = 300, MaxAge = 7, Compress = True\<rparr>
      in \<lparr>lg_encoder = encoderConfig, lg_sinks = [LockedStderr, RotatedFile hook], lg_level = level, lg_caller = True\<rparr>)"

section \<open>What it comes to\<close>

text \<open>
  The encoder writes colour codes, and the file gets them too; the comment beside it speaks of
  lower case.
\<close>

lemma level_is_coloured: "EncodeLevel (lg_encoder (newLogger f l)) = CapitalColorLevelEncoder"
  by (simp add: newLogger_def Let_def)

text \<open>The megabytes of log a client may keep, uncompressed: the current file and its backups.\<close>

definition kept_megabytes :: "logger \<Rightarrow> nat" where
  "kept_megabytes lg = sum_list (map (\<lambda>s. case s of
     LockedStderr \<Rightarrow> 0 | RotatedFile r \<Rightarrow> (MaxBackups r + 1) * MaxSize r) (lg_sinks lg))"

lemma newLogger_keeps: "kept_megabytes (newLogger f l) = 154112"
  by (simp add: kept_megabytes_def newLogger_def Let_def)

end
