(* ===== verification/Spec2Isabelle.thy ===== *)
theory Spec2Isabelle
  imports BalancerText ClientWiring EndToEnd ServerLeaks StmHistory WatcherStart AppCalls GrpcServer Session Mutex Observe ReconnectLoop Logger
begin

text \<open>
  A model of grpcwatch: a watch client and server over one bidirectional gRPC stream, and the
  gRPC client it uses, with load balancing, endpoint resolution and etcd recipes.

  \<^bold>\<open>The program.\<close>  A \<^verbatim>\<open>Watcher\<close> (\<^verbatim>\<open>watchclient/watcher.go\<close>) keeps one stream per watch identifier;
  every stream has a goroutine \<^verbatim>\<open>run\<close> that connects, reconnects and hands the responses on, and a
  goroutine \<^verbatim>\<open>serveWatchClient\<close> per connection (\<^verbatim>\<open>watch_grpc_stream.go\<close>).  On the other side
  \<^verbatim>\<open>WatchRpcServer.Watch\<close> (\<^verbatim>\<open>watchserver/watchserver.go\<close>) starts \<^verbatim>\<open>sendLoop\<close> and \<^verbatim>\<open>recvLoop\<close>
  (\<^verbatim>\<open>watch_stream.go\<close>) for a client and registers its watches in the store (\<^verbatim>\<open>watch_store.go\<close>), whose
  goroutine \<^verbatim>\<open>mockWatch\<close> sends updates.  The connection belongs to a \<^verbatim>\<open>GrpcClient\<close>
  (\<^verbatim>\<open>grpclient/client.go\<close>), which registers a resolver group of its own
  (\<^verbatim>\<open>balancer/resolver/resolver.go\<close>) and dials it; gRPC gives the resolved addresses to the base
  balancer (\<^verbatim>\<open>balancer/balancer.go\<close>), which keeps the sub-connections, counts their states
  (\<^verbatim>\<open>balancer/connectivity\<close>) and installs a picker (\<^verbatim>\<open>balancer/picker\<close>).
  \<^verbatim>\<open>grpclient/concurrency\<close> holds transactional memory, sessions, mutexes and elections over etcd.

  \<^bold>\<open>Theories.\<close>
  \<^item> Prelude: the outcome of Go code (a result, a panic, blocked for ever), Go maps as association
    lists behind the interface \<open>go_map\<close>, the bag of values of a map.  GoStrings: \<^verbatim>\<open>strings\<close> and \<^verbatim>\<open>fmt\<close>.
  \<^item> WatchPB: the messages of \<^verbatim>\<open>watchpb\<close> and the errors of gRPC.  WatchClient: requests, error
    classes and the reconnect loop as a function.  WatchStream: one stream, \<open>sstep\<close> being one step of
    \<^verbatim>\<open>run\<close> or \<^verbatim>\<open>serveWatchClient\<close>; the exchange of a request on \<^verbatim>\<open>reqc\<close> (\<open>take_req\<close>) and its \<^verbatim>\<open>Send\<close>
    (\<open>run_send\<close>) are two steps, and \<open>sent\<close> is what was handed to \<^verbatim>\<open>Send\<close>, whose error is only logged.  WatchSys: the whole watcher, \<open>wact\<close> adding the steps of the callers of
    \<^verbatim>\<open>Watch\<close>, \<^verbatim>\<open>CloseStream\<close> and \<^verbatim>\<open>Close\<close>, its mutex, and the invariant \<open>sys_inv\<close>.  WatcherProps: what
    holds of every reachable state and what can be reached.  WatcherStart: \<^verbatim>\<open>NewWatcher\<close>.
    ReconnectLoop: the loop as a function and the loop in steps are the same, and what states
    it reaches, the backoff following a reference schedule.
  \<^item> WatchStore, WatchServer, ServerProps: the same for the server; a handler's goroutines are the steps
    \<open>hact\<close>, those of the store \<open>sact\<close>, channels are bounded queues that may be closed.  StoreOps: the
    store's operations in one piece, and how the steps implement them.  ServerApps: where messages come
    from.  ServerRaces: two handlers and one identifier.  ServerLeaks: a watch that outlives its
    handler.  GrpcServer: the options at the widths of their fields, and the start.  Logger: the
    configuration that \<^verbatim>\<open>newLogger\<close> builds.
  \<^item> WatchNet, EndToEnd: client and server together, in any interleaving; handler \<open>h\<close> of the server
    serves the connection \<open>links ! h\<close> of a stream of the client, or somebody else's; gRPC delivers
    requests and responses of a connection in order and may stop at any point.
  \<^item> Connectivity, Picker, Balancer, BalancerText: the recorder with 64-bit counters, the pickers behind the
    interface \<open>picker_iface\<close>, the handlers of the balancer as functions on its state, with every call
    they make on gRPC recorded.
  \<^item> Resolver, GrpcClient, AppCalls: targets as strings, the registry of groups and resolvers as one world of
    objects, the client with its options and its shared configuration, and the unary call.  Discovery:
    the resolver of a connection together with its balancer and picker.  ClientWiring: how a new
    client comes to both.
  \<^item> Etcd, Stm, StmProps, StmReads: what etcd documents of a transaction over the history of its store;
    \<^verbatim>\<open>stm.go\<close> with both implementations of its interface, a transaction body being a tree of its calls.
    StmHistory: many such clients on one store, against a serial machine.
  \<^item> Session, EtcdKeys, Mutex, Election, Observe: sessions as steps; the waiting of \<^verbatim>\<open>key.go\<close>, and on top of it
    \<^verbatim>\<open>mutex.go\<close> and \<^verbatim>\<open>election.go\<close>.  Calls of the etcd client are numbered, and \<open>revs\<close> gives the
    revision of the store at each of them, so that other clients may act between any two.

  \<^bold>\<open>What the theorems show.\<close>
  \<^item> Watcher: responses are handed over once and in order, one open stream per identifier, the
    original request on every reconnect, the backoff, what a call can be stopped by, and the two ways in
    which it goes wrong (a deadlock of \<^verbatim>\<open>CloseStream\<close> and a double close, the only panic of a watcher
    that has a client).
  \<^item> Server: order, cleaning up, which panics there are and what each of them takes (a malformed request; a
    receive that failed), for which a handler records the requests and the error it was given; how one client that leaves at the wrong
    moment stops the store for everybody, and how a reconnect can lose its watch.
  \<^item> Both together: a consumer gets, connection by connection, initial pieces of what the server put
    into its channels, about its own app only, and the next piece can always get through.
  \<^item> Client, resolver, balancer and picker: registered resolvers are current; a new client has the
    registered balancer and a resolver of its own group, and gets a sub-connection for each of its
    endpoints; picks are ready and go to current endpoints, or to connections on their way out;
    reports aggregate the states; what failures leave behind.
  \<^item> Transactions: any number of clients leave the store as a serial machine does, the condition of a
    commit, what reads see.
  \<^item> Mutex and election: mutual exclusion, order of the locks, one leader, that \<^verbatim>\<open>Lock\<close> and \<^verbatim>\<open>Campaign\<close>
    return when in each round the key they wait for goes away (\<open>wait_served\<close>; the examples wait for two
    keys in turn), what \<^verbatim>\<open>Leader\<close>, \<^verbatim>\<open>Proclaim\<close> and \<^verbatim>\<open>Resign\<close> mean after a won \<^verbatim>\<open>Campaign\<close>, and that \<^verbatim>\<open>Observe\<close> tells
    the story of the leaders.  Both rest on the same lemmas of EtcdKeys: a claim on a prefix, once
    there is nothing older under it, excludes every other one.

  \<^bold>\<open>Parameters.\<close>  gRPC (dialling, streams, \<^verbatim>\<open>status.FromError\<close>, \<^verbatim>\<open>NewSubConn\<close>), etcd, \<^verbatim>\<open>url.Parse\<close> and the
  order of \<^verbatim>\<open>range\<close> over a map are arguments of the definitions; what is assumed of them are the
  named hypotheses \<open>FromError_ok\<close>, \<open>env_ok\<close>, \<open>dialer_ok\<close>, \<open>dial_connects\<close>, \<open>etcd_ok\<close> and \<open>applies_writes\<close>
  for the transactions of \<^verbatim>\<open>stm.go\<close>, \<open>server_ok\<close> (with \<open>history_ok\<close> and \<open>continuous\<close>) and \<open>watch_ok\<close> for the
  recipes, and \<open>one_per_rev\<close> for the keys under a prefix.

  \<^bold>\<open>Fuel.\<close>  The retry loop of \<^verbatim>\<open>stm.go\<close>, the reconnect loop, \<^verbatim>\<open>waitDeletes\<close> and \<^verbatim>\<open>observe\<close> have no bound
  of their own and run on fuel; running out is \<open>Blocked\<close> (or an open channel), never a result.  One
  round of \<^verbatim>\<open>waitDeletes\<close> per older key under the prefix and one more is enough (\<open>lock_returns\<close>, \<open>campaign_returns\<close>), the reconnect loop needs one
  round per failed attempt (\<open>open_reconnects\<close>), and without interference the first attempt of a transaction
  commits (\<open>stm_first_attempt_commits\<close>).

  \<^bold>\<open>Not modelled.\<close>  The serialisation and service descriptors that the protobuf compiler generates
  (\<^verbatim>\<open>watchpb.pb.go\<close>), what is logged, the test programs, gRPC's side of registering the balancer and
  the resolver, which are generated code, a library's, or no logic of the program.  Contexts of etcd
  calls are part of the parameters.  The watch channel of etcd is what it delivers in all, not its
  timing; \<^verbatim>\<open>observe\<close> is followed while its context lives.  That etcd deletes the keys of an expired
  or revoked lease is not used: for mutex and election such a deletion is one of the things other
  clients may do at any time.
\<close>

end
